(* ===== verification/Prelude.thy ===== *)
theory Prelude
  imports Main "HOL-Library.Word"
begin

unbundle bit_operations_syntax

text \<open>
  Shared vocabulary of the development. Bytes are 8-bit words and byte slices are lists of them.
  A fallible Go function returns \<open>'e + 'a\<close>, with \<open>Inl\<close> for the error value, and calls are
  sequenced by \<open>rbind\<close>. The theory also models the parts of the Go standard library that the
  components use: fixed-width little-endian integers, \<^verbatim>\<open>binary.Uvarint\<close> and
  \<^verbatim>\<open>binary.AppendUvarint\<close>, and the decimal formatting of \<^verbatim>\<open>strconv\<close>. It declares the
  theorem collections that carry the component proofs.
\<close>

named_theorems go_res \<open>unfolding rules of the error monad\<close>
named_theorems go_num \<open>byte and number conversions\<close>

type_synonym byte = "8 word"
type_synonym bytes = "8 word list"
type_synonym u16 = "16 word"
type_synonym u32 = "32 word"
type_synonym u64 = "64 word"

subsection \<open>Fallible computations\<close>

definition rbind :: "'e + 'a \<Rightarrow> ('a \<Rightarrow> 'e + 'b) \<Rightarrow> 'e + 'b" where
  "rbind m f = (case m of Inl e \<Rightarrow> Inl e | Inr x \<Rightarrow> f x)"

lemma rbind_Inl [simp]: "rbind (Inl e) f = Inl e"
  by (simp add: rbind_def)

lemma rbind_Inr [simp]: "rbind (Inr x) f = f x"
  by (simp add: rbind_def)

lemma rbind_eq_Inr [go_res]: "rbind m f = Inr y \<longleftrightarrow> (\<exists>x. m = Inr x \<and> f x = Inr y)"
  by (cases m) auto

lemma if_Inl_eq_Inr [go_res]: "(if b then Inl e else m) = Inr y \<longleftrightarrow> \<not> b \<and> m = Inr y"
  by auto

lemma if_None_eq_Some [go_res]: "(if b then None else m) = Some y \<longleftrightarrow> \<not> b \<and> m = Some y"
  by auto

lemma case_option_eq_Some [go_res]:
  "(case m of None \<Rightarrow> None | Some x \<Rightarrow> f x) = Some y \<longleftrightarrow> (\<exists>x. m = Some x \<and> f x = Some y)"
  by (cases m) auto

lemma case_prod_eq [go_res]: "(case p of (a, b) \<Rightarrow> f a b) = y \<longleftrightarrow> (\<exists>a b. p = (a, b) \<and> f a b = y)"
  by (cases p) auto

subsection \<open>Slices and words\<close>

text \<open>The slice expression \<^verbatim>\<open>xs[i:j]\<close>; \<open>None\<close> is the run-time panic.\<close>

definition slice :: "bytes \<Rightarrow> nat \<Rightarrow> nat \<Rightarrow> bytes option" where
  "slice xs i j = (if i \<le> j \<and> j \<le> length xs then Some (take (j - i) (drop i xs)) else None)"

lemma slice_append: "length a = i \<Longrightarrow> length b = n \<Longrightarrow> j = i + n \<Longrightarrow> slice (a @ b @ c) i j = Some b"
  by (simp add: slice_def)

lemma bits_below:
  fixes x :: "'a :: len word"
  assumes "unat x < 2 ^ m" "m \<le> k"
  shows "\<not> bit x k"
proof -
  have "unat x < 2 ^ k" using assms power_increasing [of m k "2 :: nat"] by linarith
  then have "\<not> bit (unat x) k" by (simp add: bit_iff_odd)
  then show ?thesis by (simp add: bit_unsigned_iff)
qed

lemma unat_u32: "n < 2 ^ 32 \<Longrightarrow> unat (word_of_nat n :: u32) = n"
  by (simp add: unsigned_of_nat take_bit_nat_eq_self)

subsection \<open>Little-endian integers\<close>

fun le_put :: "nat \<Rightarrow> nat \<Rightarrow> bytes" where
  "le_put 0 n = []"
| "le_put (Suc k) n = word_of_nat n # le_put k (n div 256)"

fun le_get :: "bytes \<Rightarrow> nat" where
  "le_get [] = 0"
| "le_get (b # bs) = unat b + 256 * le_get bs"

lemma length_le_put [simp]: "length (le_put k n) = k"
  by (induction k arbitrary: n) auto

lemma unat_byte_less [simp]: "unat (b :: byte) < 256"
  using unsigned_less [of b, where ?'a = nat] by simp

lemma unat_word_of_nat8 [go_num]: "unat (word_of_nat n :: byte) = n mod 256"
  by (simp add: unat_of_nat)

lemma le_get_le_put: "le_get (le_put k n) = n mod 256 ^ k"
proof (induction k arbitrary: n)
  case 0
  then show ?case by simp
next
  case (Suc k)
  have "n mod (256 * 256 ^ k) = n mod 256 + 256 * (n div 256 mod 256 ^ k)"
    by (simp add: mod_mult2_eq)
  with Suc show ?case by (simp add: go_num)
qed

lemma le_get_less: "le_get bs < 256 ^ length bs"
proof (induction bs)
  case Nil
  then show ?case by simp
next
  case (Cons b bs)
  have "unat b < 256" by simp
  moreover have "Suc (le_get bs) * 256 \<le> 256 ^ length bs * 256"
    using Cons by (intro mult_le_mono1) simp
  ultimately show ?case by (simp del: unat_byte_less)
qed

definition put64 :: "u64 \<Rightarrow> bytes" where
  "put64 w = le_put 8 (unat w)"

definition get64 :: "bytes \<Rightarrow> u64" where
  "get64 bs = word_of_nat (le_get (take 8 bs))"

lemma length_put64 [simp]: "length (put64 w) = 8"
  by (simp add: put64_def)

lemma get64_put64 [simp]: "get64 (put64 w @ bs) = w"
proof -
  have "unat w < 256 ^ 8" using unsigned_less [of w, where ?'a = nat] by simp
  then show ?thesis
    by (simp add: get64_def put64_def le_get_le_put del: le_put.simps)
qed

lemma le_put_le_get: "le_put (length bs) (le_get bs) = bs"
proof (induction bs)
  case (Cons b bs)
  have m: "(unat b + 256 * le_get bs) mod 256 = unat b" "(unat b + 256 * le_get bs) div 256 = le_get bs"
    using unat_byte_less [of b] by simp_all
  have "unat (word_of_nat (unat b + 256 * le_get bs) :: byte) = unat b" unfolding unat_word_of_nat8 by (rule m(1))
  then have "(word_of_nat (unat b + 256 * le_get bs) :: byte) = b" by (rule unsigned_word_eqI)
  then show ?case using Cons m(2) by (simp del: of_nat_add of_nat_mult)
qed simp

lemma put64_get64: "length bs = 8 \<Longrightarrow> put64 (get64 bs) = bs"
proof -
  assume l: "length bs = 8"
  have "le_get bs < 2 ^ 64" using le_get_less [of bs] l by simp
  then show ?thesis using le_put_le_get [of bs] l by (simp add: put64_def get64_def unat_of_nat)
qed

subsection \<open>Unsigned varints\<close>

text \<open>
  \<^verbatim>\<open>binary.AppendUvarint\<close> emits seven bits per byte, low bits first; \<^verbatim>\<open>binary.Uvarint\<close>
  returns the value and the number of bytes read: 0 when the buffer is too short and a
  negative number when the value does not fit in 64 bits. The bits a step adds are disjoint from
  those read so far, so \<^verbatim>\<open>x | b<<s\<close> is the sum written here.
\<close>

function uvarint_put :: "nat \<Rightarrow> bytes" where
  "uvarint_put x = (if x \<ge> 128 then word_of_nat (x mod 128 + 128) # uvarint_put (x div 128)
     else [word_of_nat x])"
  by pat_completeness auto
termination
  by (relation "measure id") auto

declare uvarint_put.simps [simp del]

fun uvarint_loop :: "nat \<Rightarrow> nat \<Rightarrow> bytes \<Rightarrow> nat \<times> int" where
  "uvarint_loop i x [] = (0, 0)"
| "uvarint_loop i x (b # bs) =
     (if i = 10 then (0, - (int i + 1))
      else if b < 128 then
        (if i = 9 \<and> b > 1 then (0, - (int i + 1)) else (x + unat b * 2 ^ (7 * i), int i + 1))
      else uvarint_loop (Suc i) (x + (unat b mod 128) * 2 ^ (7 * i)) bs)"

definition uvarint_get :: "bytes \<Rightarrow> nat \<times> int" where
  "uvarint_get bs = uvarint_loop 0 0 bs"

lemma uvarint_put_small [simp]: "x < 128 \<Longrightarrow> uvarint_put x = [word_of_nat x]"
  by (subst uvarint_put.simps) simp

lemma uvarint_put_large:
  "128 \<le> x \<Longrightarrow> uvarint_put x = word_of_nat (x mod 128 + 128) # uvarint_put (x div 128)"
  by (subst uvarint_put.simps) simp

lemma uvarint_put_nonempty [simp]: "uvarint_put x \<noteq> []"
  by (subst uvarint_put.simps) simp

lemma byte_less_128 [go_num]: "(b :: byte) < 128 \<longleftrightarrow> unat b < 128"
  by (simp add: word_less_nat_alt)

lemma byte_less_iff: "(a :: byte) < b \<longleftrightarrow> unat a < unat b"
  by (rule word_less_nat_alt)

lemma pow7_less_64: "1 \<le> x \<Longrightarrow> x * 2 ^ (7 * i) < (2 :: nat) ^ 64 \<Longrightarrow> i \<le> 9"
proof -
  assume "1 \<le> x" and "x * 2 ^ (7 * i) < (2 :: nat) ^ 64"
  then have "(2 :: nat) ^ (7 * i) < 2 ^ 64"
    by (metis le_less_trans mult_1 mult_le_mono1)
  then have "7 * i < 64" by (rule power_less_imp_less_exp [rotated]) simp
  then show "i \<le> 9" by simp
qed

lemma uvarint_loop_put:
  assumes "x * 2 ^ (7 * i) < 2 ^ 64" and "x = 0 \<longrightarrow> i = 0"
  shows "uvarint_loop i acc (uvarint_put x @ rest)
    = (acc + x * 2 ^ (7 * i), int (i + length (uvarint_put x)))"
  using assms
proof (induction x arbitrary: i acc rule: less_induct)
  case (less x)
  have i9: "i \<le> 9" using pow7_less_64 [of x i] less.prems by (cases "x = 0") auto
  show ?case
  proof (cases "x < 128")
    case True
    then have b: "unat (word_of_nat x :: byte) = x" by (simp add: go_num)
    have "i = 9 \<Longrightarrow> x \<le> 1" using less.prems(1) by simp
    then show ?thesis using True i9 b by (auto simp: byte_less_iff)
  next
    case False
    let ?b = "word_of_nat (x mod 128 + 128) :: byte"
    have lt: "x mod 128 + 128 < 256" by simp
    have b: "unat ?b = x mod 128 + 128" using lt by (simp add: unat_word_of_nat8 del: of_nat_add)
    have mono: "x div 128 * 2 ^ (7 * Suc i) \<le> x * 2 ^ (7 * i)"
    proof -
      have "x div 128 * 2 ^ (7 * Suc i) = (x div 128 * 128) * 2 ^ (7 * i)"
        by (simp add: power_add)
      also have "\<dots> \<le> x * 2 ^ (7 * i)" by (rule mult_le_mono1) simp
      finally show ?thesis .
    qed
    have pos: "x div 128 \<noteq> 0" using False by (simp add: div_greater_zero_iff)
    have small: "x div 128 * 2 ^ (7 * Suc i) < 2 ^ 64" using mono less.prems(1) by simp
    have sum: "x mod 128 * 2 ^ (7 * i) + x div 128 * 2 ^ (7 * Suc i) = x * 2 ^ (7 * i)"
    proof -
      have e: "(2 :: nat) ^ (7 * Suc i) = 128 * 2 ^ (7 * i)" by (simp add: power_add)
      have "x mod 128 * 2 ^ (7 * i) + x div 128 * 2 ^ (7 * Suc i)
        = (x mod 128 + x div 128 * 128) * 2 ^ (7 * i)"
        by (simp only: e distrib_right mult.assoc)
      then show ?thesis by (simp only: mod_div_mult_eq)
    qed
    have "i \<noteq> 10" using i9 by simp
    moreover have "\<not> ?b < 128" using b by (simp add: byte_less_128)
    ultimately have "uvarint_loop i acc (uvarint_put x @ rest)
      = uvarint_loop (Suc i) (acc + x mod 128 * 2 ^ (7 * i)) (uvarint_put (x div 128) @ rest)"
      using False b by (simp add: uvarint_put_large)
    also have "\<dots> = (acc + x mod 128 * 2 ^ (7 * i) + x div 128 * 2 ^ (7 * Suc i),
        int (Suc i + length (uvarint_put (x div 128))))"
      using less.IH [of "x div 128" "Suc i"] False pos small by simp
    also have "acc + x mod 128 * 2 ^ (7 * i) + x div 128 * 2 ^ (7 * Suc i) = acc + x * 2 ^ (7 * i)"
      by (simp only: add.assoc sum)
    finally show ?thesis using False by (simp add: uvarint_put_large)
  qed
qed

lemma uvarint_get_put:
  "x < 2 ^ 64 \<Longrightarrow> uvarint_get (uvarint_put x @ rest) = (x, int (length (uvarint_put x)))"
  using uvarint_loop_put [of x 0 0 rest] by (simp add: uvarint_get_def)

lemma length_uvarint_put_ge: "1 \<le> length (uvarint_put x)"
  by (cases "uvarint_put x") auto

subsection \<open>Decimal numbers\<close>

function dec_bytes :: "nat \<Rightarrow> bytes" where
  "dec_bytes n = (if n < 10 then [48 + word_of_nat n]
     else dec_bytes (n div 10) @ [48 + word_of_nat (n mod 10)])"
  by pat_completeness auto
termination
  by (relation "measure id") auto

declare dec_bytes.simps [simp del]

text \<open>\<^verbatim>\<open>strconv.FormatInt(n, 10)\<close>.\<close>

definition format_int :: "int \<Rightarrow> bytes" where
  "format_int n = (if n < 0 then 45 # dec_bytes (nat (- n)) else dec_bytes (nat n))"

definition is_digit :: "byte \<Rightarrow> bool" where
  "is_digit b \<longleftrightarrow> 48 \<le> b \<and> b \<le> 57"

definition digit_val :: "byte \<Rightarrow> nat" where
  "digit_val b = unat (b - 48)"

definition digits_val :: "nat \<Rightarrow> bytes \<Rightarrow> nat" where
  "digits_val = foldl (\<lambda>n b. n * 10 + digit_val b)"

lemma is_digit_unat: "is_digit b \<longleftrightarrow> 48 \<le> unat b \<and> unat b \<le> 57"
  by (simp add: is_digit_def word_le_nat_alt)

lemma unat_digit: "d < 10 \<Longrightarrow> unat (48 + word_of_nat d :: byte) = 48 + d"
  by (simp add: unat_word_ariths go_num)

lemma is_digit_of [simp]: "d < 10 \<Longrightarrow> is_digit (48 + word_of_nat d)"
  by (simp add: is_digit_unat unat_digit)

lemma digit_val_of [simp]: "d < 10 \<Longrightarrow> digit_val (48 + word_of_nat d) = d"
  by (simp add: digit_val_def go_num)

lemma dec_bytes_digits: "\<forall>b \<in> set (dec_bytes n). is_digit b"
proof (induction n rule: dec_bytes.induct)
  case (1 n)
  then show ?case by (cases "n < 10") (subst dec_bytes.simps; auto)+
qed

lemma dec_bytes_nonempty [simp]: "dec_bytes n \<noteq> []"
  by (subst dec_bytes.simps) simp

lemma digits_val_dec_bytes: "digits_val 0 (dec_bytes n) = n"
proof (induction n rule: dec_bytes.induct)
  case (1 n)
  then show ?case by (cases "n < 10") (subst dec_bytes.simps; simp add: digits_val_def)+
qed

lemma length_dec_bytes: "n < 10 ^ Suc k \<Longrightarrow> length (dec_bytes n) \<le> Suc k"
proof (induction k arbitrary: n)
  case 0
  then show ?case by (subst dec_bytes.simps) simp
next
  case (Suc k)
  then have "n div 10 < 10 ^ Suc k" by (simp add: div_less_iff_less_mult)
  with Suc.IH [of "n div 10"] show ?case by (subst dec_bytes.simps) simp
qed

lemma not_digit_crlf [simp]: "\<not> is_digit 13" "\<not> is_digit 10"
  by (simp_all add: is_digit_def)

end
