(* ===== verification/Resp.thy ===== *)
theory Resp
  imports Prelude
begin

text \<open>
  The RESP request decoder of \<^verbatim>\<open>internal/resp/parser.go\<close> and the reply formatters of
  \<^verbatim>\<open>internal/server/server.go\<close> that produce the frames it reads.

  A \<^verbatim>\<open>bufio.Reader\<close> is modelled by the bytes it has yet to deliver (\<open>pending\<close>: what is in its
  buffer followed by what the connection will still send), the error the connection ends with
  (\<open>endErr\<close>) and the size of its buffer. How many of the pending bytes are already in the buffer
  is decided by the network, so the \<open>ReadBuffered\<close> fast paths take that number as an argument.
  Scratch slices are caller-owned copies and only their contents are modelled. An error closes the
  connection, so an error result carries no decoder.
\<close>

subsection \<open>Limits and errors\<close>

record Limits =
  MaxRequestBytes :: int
  MaxBulkBytes :: int
  MaxArguments :: int

datatype resp_error =
    InvalidLimits | ReadEOF | UnexpectedEOF | ReadFailed | BufferFull
  | ByteLimit | ExpectedMarker byte | LengthTerminator | InvalidLength | DeclaredLimit
  | BulkTerminator | EmptyArray | TrailingBytes

definition DefaultLimits :: Limits where
  "DefaultLimits = \<lparr>MaxRequestBytes = 64 * 2 ^ 20, MaxBulkBytes = 32 * 2 ^ 20, MaxArguments = 1024\<rparr>"

definition Validate :: "Limits \<Rightarrow> resp_error + unit" where
  "Validate l =
     (if MaxRequestBytes l < 4 \<or> MaxBulkBytes l < 0 \<or> MaxBulkBytes l > MaxRequestBytes l
         \<or> MaxArguments l < 1
      then Inl InvalidLimits else Inr ())"

subsection \<open>The decoder\<close>

record Decoder =
  pending :: bytes
  bufSize :: nat
  endErr :: resp_error
  limits :: Limits
  remaining :: int

definition NewDecoder :: "bytes \<Rightarrow> nat \<Rightarrow> resp_error \<Rightarrow> Limits \<Rightarrow> resp_error + Decoder" where
  "NewDecoder input sz err l =
     rbind (Validate l) (\<lambda>_.
       Inr \<lparr>pending = input, bufSize = sz, endErr = err, limits = l, remaining = 0\<rparr>)"

text \<open>The operations of \<^verbatim>\<open>bufio.Reader\<close> and \<^verbatim>\<open>io.ReadFull\<close> that the decoder calls.\<close>

definition reader_ReadByte :: "Decoder \<Rightarrow> resp_error + (byte \<times> Decoder)" where
  "reader_ReadByte d =
     (case pending d of [] \<Rightarrow> Inl (endErr d) | b # bs \<Rightarrow> Inr (b, d\<lparr>pending := bs\<rparr>))"

definition reader_ReadSlice :: "Decoder \<Rightarrow> byte \<Rightarrow> resp_error + (bytes \<times> Decoder)" where
  "reader_ReadSlice d delim =
     (let i = length (takeWhile (\<lambda>b. b \<noteq> delim) (pending d)) in
      if i < length (pending d) \<and> i < bufSize d
      then Inr (take (Suc i) (pending d), d\<lparr>pending := drop (Suc i) (pending d)\<rparr>)
      else if bufSize d \<le> length (pending d) then Inl BufferFull
      else Inl (endErr d))"

definition reader_ReadFull :: "Decoder \<Rightarrow> nat \<Rightarrow> resp_error + (bytes \<times> Decoder)" where
  "reader_ReadFull d n =
     (if n \<le> length (pending d)
      then Inr (take n (pending d), d\<lparr>pending := drop n (pending d)\<rparr>)
      else if pending d \<noteq> [] \<and> endErr d = ReadEOF then Inl UnexpectedEOF
      else Inl (endErr d))"

definition reader_Peek :: "Decoder \<Rightarrow> nat \<Rightarrow> resp_error + bytes" where
  "reader_Peek d n =
     (if n > bufSize d then Inl BufferFull
      else if n \<le> length (pending d) then Inr (take n (pending d))
      else Inl (endErr d))"

definition reader_Discard :: "Decoder \<Rightarrow> nat \<Rightarrow> Decoder" where
  "reader_Discard d n = d\<lparr>pending := drop n (pending d)\<rparr>"

definition readByte :: "Decoder \<Rightarrow> resp_error + (byte \<times> Decoder)" where
  "readByte d =
     (if remaining d = 0 then Inl ByteLimit
      else rbind (reader_ReadByte d) (\<lambda>(b, d').
        Inr (b, d'\<lparr>remaining := remaining d' - 1\<rparr>)))"

fun length_digits :: "int \<Rightarrow> nat \<Rightarrow> bytes \<Rightarrow> resp_error + nat" where
  "length_digits mx n [] = Inr n"
| "length_digits mx n (b # bs) =
     (if b < 48 \<or> b > 57 then Inl InvalidLength
      else let digit = unat (b - 48) in
        if int n > mx div 10 \<or> int n = mx div 10 \<and> int digit > mx mod 10 then Inl DeclaredLimit
        else length_digits mx (n * 10 + digit) bs)"

definition dec_length :: "Decoder \<Rightarrow> byte \<Rightarrow> int \<Rightarrow> resp_error + (nat \<times> Decoder)" where
  "dec_length d marker mx =
     rbind (reader_ReadSlice d 10) (\<lambda>(line, d1).
       if int (length line) > remaining d1 then Inl ByteLimit
       else let d2 = d1\<lparr>remaining := remaining d1 - int (length line)\<rparr> in
       if length line < 4 \<or> line ! 0 \<noteq> marker
       then (if length line > 0 \<and> line ! 0 \<noteq> marker then Inl (ExpectedMarker marker)
             else Inl LengthTerminator)
       else if line ! (length line - 2) \<noteq> 13 then Inl LengthTerminator
       else let digits = take (length line - 3) (drop 1 line) in
       if length digits = 0 then Inl LengthTerminator
       else if length digits > 20 then Inl InvalidLength
       else rbind (length_digits mx 0 digits) (\<lambda>n. Inr (n, d2)))"

definition bulk :: "Decoder \<Rightarrow> resp_error + (bytes \<times> Decoder)" where
  "bulk d =
     rbind (dec_length d 36 (MaxBulkBytes (limits d))) (\<lambda>(n, d1).
       if remaining d1 < 2 \<or> int n > remaining d1 - 2 then Inl ByteLimit
       else rbind (reader_ReadFull d1 n) (\<lambda>(payload, d2).
         rbind (readByte (d2\<lparr>remaining := remaining d2 - int n\<rparr>)) (\<lambda>(a, d3).
           rbind (readByte d3) (\<lambda>(b, d4).
             if a \<noteq> 13 \<or> b \<noteq> 10 then Inl BulkTerminator else Inr (payload, d4)))))"

fun bulks :: "nat \<Rightarrow> Decoder \<Rightarrow> resp_error + (bytes list \<times> Decoder)" where
  "bulks 0 d = Inr ([], d)"
| "bulks (Suc k) d =
     rbind (bulk d) (\<lambda>(x, d1). rbind (bulks k d1) (\<lambda>(xs, d2). Inr (x # xs, d2)))"

text \<open>The deferred function of \<open>ReadCommand\<close> turns an end of input inside a request into
  \<^verbatim>\<open>io.ErrUnexpectedEOF\<close>.\<close>

definition unexpected :: "resp_error + 'a \<Rightarrow> resp_error + 'a" where
  "unexpected r = (case r of Inl ReadEOF \<Rightarrow> Inl UnexpectedEOF | _ \<Rightarrow> r)"

definition ReadCommand :: "Decoder \<Rightarrow> resp_error + (bytes list \<times> Decoder)" where
  "ReadCommand d0 =
     (let d = d0\<lparr>remaining := MaxRequestBytes (limits d0)\<rparr> in
      rbind (reader_Peek d 1) (\<lambda>_.
        unexpected
          (rbind (dec_length d 42 (MaxArguments (limits d))) (\<lambda>(n, d1).
             if n = 0 then Inl EmptyArray
             else if int n > remaining d1 div 6 then Inl ByteLimit
             else bulks n d1))))"

definition Parse :: "bytes \<Rightarrow> resp_error + bytes list" where
  "Parse data =
     (if int (length data) > MaxRequestBytes DefaultLimits then Inl ByteLimit
      else rbind (NewDecoder data 4096 ReadEOF DefaultLimits) (\<lambda>d.
        rbind (if data \<noteq> [] \<and> data ! 0 = 36
               then rbind (bulk (d\<lparr>remaining := MaxRequestBytes DefaultLimits\<rparr>))
                      (\<lambda>(v, d'). Inr ([v], d'))
               else ReadCommand d) (\<lambda>(args, d').
          if reader_Peek d' 1 \<noteq> Inl ReadEOF then Inl TrailingBytes else Inr args)))"

subsection \<open>Frames already in the buffer\<close>

text \<open>The digit loop the five fast paths share: \<open>None\<close> is the early return, otherwise the
  position after the loop, the number read and the count of digits.\<close>

function scanLen :: "int \<Rightarrow> bytes \<Rightarrow> nat \<Rightarrow> nat \<Rightarrow> nat \<Rightarrow> (nat \<times> nat \<times> nat) option" where
  "scanLen mx buf pos n digits =
     (if pos < length buf then
        let b = buf ! pos in
        if b = 13 then
          (if digits = 0 \<or> pos + 1 \<ge> length buf \<or> buf ! (pos + 1) \<noteq> 10 then None
           else Some (pos + 2, n, digits))
        else if b < 48 \<or> b > 57 \<or> digits \<ge> 20 then None
        else let digit = unat (b - 48) in
          if int n > mx div 10 \<or> int n = mx div 10 \<and> int digit > mx mod 10 then None
          else scanLen mx buf (pos + 1) (n * 10 + digit) (digits + 1)
      else Some (pos, n, digits))"
  by pat_completeness auto
termination
  by (relation "measure (\<lambda>(mx, buf, pos, n, digits). length buf - pos)") auto

declare scanLen.simps [simp del]

definition parseBulk :: "Limits \<Rightarrow> bytes \<Rightarrow> nat \<Rightarrow> (nat \<times> nat \<times> nat) option" where
  "parseBulk l buf pos =
     (if pos \<ge> length buf \<or> buf ! pos \<noteq> 36 then None
      else case scanLen (MaxBulkBytes l) buf (pos + 1) 0 0 of
        None \<Rightarrow> None
      | Some (p, n, digits) \<Rightarrow>
          if digits = 0 \<or> p + n + 2 > length buf then None
          else if buf ! (p + n) \<noteq> 13 \<or> buf ! (p + n + 1) \<noteq> 10 then None
          else Some (p, n, p + n + 2))"

text \<open>\<open>bytes.EqualFold\<close> against an ASCII upper-case name. Unicode simple folding puts U+017F (long
  s, bytes C5 BF) in the orbit of S and U+212A (Kelvin sign, bytes E2 84 AA) in the orbit of K.\<close>

fun EqualFold :: "bytes \<Rightarrow> bytes \<Rightarrow> bool" where
  "EqualFold [] t = (t = [])"
| "EqualFold (b # s) [] = False"
| "EqualFold (b # s) (c # t) =
     (if b < 128 then (b = c \<or> 65 \<le> c \<and> c \<le> 90 \<and> b = c + 32) \<and> EqualFold s t
      else if c = 83 \<and> b = 0xC5 then (case s of x # s' \<Rightarrow> x = 0xBF \<and> EqualFold s' t | [] \<Rightarrow> False)
      else if c = 75 \<and> b = 0xE2
        then (case s of x # y # s' \<Rightarrow> x = 0x84 \<and> y = 0xAA \<and> EqualFold s' t | _ \<Rightarrow> False)
      else False)"

text \<open>The bytes a fast path looks at: what is buffered, cut at the request limit.\<close>

definition peekBuffered :: "Decoder \<Rightarrow> nat \<Rightarrow> nat \<Rightarrow> bytes option" where
  "peekBuffered d buffered least =
     (if buffered < least then None
      else let k = (if int buffered > MaxRequestBytes (limits d)
                    then nat (MaxRequestBytes (limits d)) else buffered) in
      case reader_Peek d k of Inl _ \<Rightarrow> None | Inr buf \<Rightarrow> Some buf)"

definition ReadBufferedGET :: "Decoder \<Rightarrow> nat \<Rightarrow> (bytes \<times> Decoder) option" where
  "ReadBufferedGET d buffered =
     (case peekBuffered d buffered 19 of
        None \<Rightarrow> None
      | Some buf \<Rightarrow>
          if length buf < 17 \<or>
             buf ! 0 \<noteq> 42 \<or> buf ! 1 \<noteq> 50 \<or> buf ! 2 \<noteq> 13 \<or> buf ! 3 \<noteq> 10 \<or>
             buf ! 4 \<noteq> 36 \<or> buf ! 5 \<noteq> 51 \<or> buf ! 6 \<noteq> 13 \<or> buf ! 7 \<noteq> 10 \<or>
             \<not> ((buf ! 8 = 71 \<or> buf ! 8 = 103) \<and> (buf ! 9 = 69 \<or> buf ! 9 = 101) \<and>
                (buf ! 10 = 84 \<or> buf ! 10 = 116)) \<or>
             buf ! 11 \<noteq> 13 \<or> buf ! 12 \<noteq> 10 \<or> buf ! 13 \<noteq> 36
          then None
          else case scanLen (MaxBulkBytes (limits d)) buf 14 0 0 of
            None \<Rightarrow> None
          | Some (i, keyLen, digits) \<Rightarrow>
              if digits = 0 \<or> i > length buf then None
              else let frameLen = i + keyLen + 2 in
              if frameLen > length buf \<or> int frameLen > MaxRequestBytes (limits d) then None
              else if buf ! (i + keyLen) \<noteq> 13 \<or> buf ! (i + keyLen + 1) \<noteq> 10 then None
              else if MaxArguments (limits d) < 2 then None
              else Some (take keyLen (drop i buf), reader_Discard d frameLen))"

definition ReadBufferedSET :: "Decoder \<Rightarrow> nat \<Rightarrow> (bytes \<times> bytes \<times> Decoder) option" where
  "ReadBufferedSET d buffered =
     (case peekBuffered d buffered 25 of
        None \<Rightarrow> None
      | Some buf \<Rightarrow>
          if length buf < 13 \<or>
             buf ! 0 \<noteq> 42 \<or> buf ! 1 \<noteq> 51 \<or> buf ! 2 \<noteq> 13 \<or> buf ! 3 \<noteq> 10 \<or>
             buf ! 4 \<noteq> 36 \<or> buf ! 5 \<noteq> 51 \<or> buf ! 6 \<noteq> 13 \<or> buf ! 7 \<noteq> 10 \<or>
             \<not> ((buf ! 8 = 83 \<or> buf ! 8 = 115) \<and> (buf ! 9 = 69 \<or> buf ! 9 = 101) \<and>
                (buf ! 10 = 84 \<or> buf ! 10 = 116)) \<or>
             buf ! 11 \<noteq> 13 \<or> buf ! 12 \<noteq> 10
          then None
          else if MaxArguments (limits d) < 3 then None
          else case parseBulk (limits d) buf 13 of
            None \<Rightarrow> None
          | Some (keyStart, keyLen, pos) \<Rightarrow>
              (case parseBulk (limits d) buf pos of
                 None \<Rightarrow> None
               | Some (valueStart, valueLen, frameLen) \<Rightarrow>
                   if int frameLen > MaxRequestBytes (limits d) then None
                   else Some (take keyLen (drop keyStart buf),
                              take valueLen (drop valueStart buf),
                              reader_Discard d frameLen)))"

text \<open>\<open>ReadBufferedSADD\<close> and \<open>ReadBufferedSISMEMBER\<close> have the same body up to the command name
  and the least number of buffered bytes.\<close>

definition readBufferedPair ::
    "bytes \<Rightarrow> nat \<Rightarrow> Decoder \<Rightarrow> nat \<Rightarrow> (bytes \<times> bytes \<times> Decoder) option" where
  "readBufferedPair name least d buffered =
     (case peekBuffered d buffered least of
        None \<Rightarrow> None
      | Some buf \<Rightarrow>
          if length buf < 14 \<or>
             buf ! 0 \<noteq> 42 \<or> buf ! 1 \<noteq> 51 \<or> buf ! 2 \<noteq> 13 \<or> buf ! 3 \<noteq> 10
          then None
          else case parseBulk (limits d) buf 4 of
            None \<Rightarrow> None
          | Some (commandStart, commandLen, pos) \<Rightarrow>
              if commandLen \<noteq> length name \<or>
                 \<not> EqualFold (take commandLen (drop commandStart buf)) name
              then None
              else if MaxArguments (limits d) < 3 then None
              else (case parseBulk (limits d) buf pos of
                 None \<Rightarrow> None
               | Some (keyStart, keyLen, pos2) \<Rightarrow>
                   (case parseBulk (limits d) buf pos2 of
                      None \<Rightarrow> None
                    | Some (memberStart, memberLen, frameLen) \<Rightarrow>
                        if int frameLen > MaxRequestBytes (limits d) then None
                        else Some (take keyLen (drop keyStart buf),
                                   take memberLen (drop memberStart buf),
                                   reader_Discard d frameLen))))"

definition cmd_HSET :: bytes where "cmd_HSET = [72, 83, 69, 84]"
definition cmd_RPUSH :: bytes where "cmd_RPUSH = [82, 80, 85, 83, 72]"
definition cmd_SADD :: bytes where "cmd_SADD = [83, 65, 68, 68]"
definition cmd_ZADD :: bytes where "cmd_ZADD = [90, 65, 68, 68]"
definition cmd_SISMEMBER :: bytes where
  "cmd_SISMEMBER = [83, 73, 83, 77, 69, 77, 66, 69, 82]"

definition ReadBufferedSADD :: "Decoder \<Rightarrow> nat \<Rightarrow> (bytes \<times> bytes \<times> Decoder) option" where
  "ReadBufferedSADD = readBufferedPair cmd_SADD 24"

definition ReadBufferedSISMEMBER :: "Decoder \<Rightarrow> nat \<Rightarrow> (bytes \<times> bytes \<times> Decoder) option" where
  "ReadBufferedSISMEMBER = readBufferedPair cmd_SISMEMBER 29"

fun mutationArgs :: "Limits \<Rightarrow> bytes \<Rightarrow> nat \<Rightarrow> nat \<Rightarrow> (bytes list \<times> nat) option" where
  "mutationArgs l buf 0 pos = Some ([], pos)"
| "mutationArgs l buf (Suc k) pos =
     (case parseBulk l buf pos of
        None \<Rightarrow> None
      | Some (start, n, next) \<Rightarrow>
          (case mutationArgs l buf k next of
             None \<Rightarrow> None
           | Some (args, pos') \<Rightarrow> Some (take n (drop start buf) # args, pos')))"

definition mutationCommand :: "nat \<Rightarrow> bytes \<Rightarrow> (bytes \<times> nat) option" where
  "mutationCommand arrayCount command =
     (if arrayCount = 4 \<and> EqualFold command cmd_HSET then Some (cmd_HSET, 3)
      else if arrayCount = 3 \<and> EqualFold command cmd_RPUSH then Some (cmd_RPUSH, 2)
      else if arrayCount = 3 \<and> EqualFold command cmd_SADD then Some (cmd_SADD, 2)
      else if arrayCount = 4 \<and> EqualFold command cmd_ZADD then Some (cmd_ZADD, 3)
      else None)"

definition ReadBufferedNativeMutation :: "Decoder \<Rightarrow> nat \<Rightarrow> (bytes \<times> bytes list \<times> Decoder) option" where
  "ReadBufferedNativeMutation d buffered =
     (case peekBuffered d buffered 24 of
        None \<Rightarrow> None
      | Some buf \<Rightarrow>
          if length buf < 13 \<or> buf ! 0 \<noteq> 42 \<or> buf ! 2 \<noteq> 13 \<or> buf ! 3 \<noteq> 10 then None
          else let arrayCount = unat (buf ! 1 - 48) in
          if buf ! 1 < 48 \<or> buf ! 1 > 57 \<or> (arrayCount \<noteq> 3 \<and> arrayCount \<noteq> 4) then None
          else case parseBulk (limits d) buf 4 of
            None \<Rightarrow> None
          | Some (commandStart, commandLen, pos) \<Rightarrow>
              (case mutationCommand arrayCount (take commandLen (drop commandStart buf)) of
                 None \<Rightarrow> None
               | Some (cmd, argc) \<Rightarrow>
                   if MaxArguments (limits d) < int arrayCount then None
                   else (case mutationArgs (limits d) buf argc pos of
                      None \<Rightarrow> None
                    | Some (args, pos') \<Rightarrow>
                        if int pos' > MaxRequestBytes (limits d) then None
                        else Some (cmd, args, reader_Discard d pos'))))"

subsection \<open>Reply formatters\<close>

definition formatBulkString :: "bytes \<Rightarrow> bytes" where
  "formatBulkString v = 36 # format_int (int (length v)) @ [13, 10] @ v @ [13, 10]"

definition resp_array :: "bytes list \<Rightarrow> bytes" where
  "resp_array items = 42 # format_int (int (length items)) @ [13, 10] @ concat items"

subsection \<open>Length lines\<close>

lemma digit_guard:
  assumes "0 \<le> mx" and "d \<le> 9"
  shows "(int n > mx div 10 \<or> int n = mx div 10 \<and> int d > mx mod 10) \<longleftrightarrow> int (n * 10 + d) > mx"
  using assms by (auto; presburger)

lemma is_digit_guard: "(b < 48 \<or> b > 57) \<longleftrightarrow> \<not> is_digit b"
  by (auto simp: is_digit_def)

lemma digit_val_le: "is_digit b \<Longrightarrow> digit_val b \<le> 9"
  by (auto simp: is_digit_unat digit_val_def unat_sub word_le_nat_alt)

lemma digits_val_simps [simp]:
  "digits_val n [] = n"
  "digits_val n (b # bs) = digits_val (n * 10 + digit_val b) bs"
  by (simp_all add: digits_val_def)

lemma digits_val_ge: "n \<le> digits_val n bs"
proof (induction bs arbitrary: n)
  case (Cons b bs)
  show ?case using Cons [of "n * 10 + digit_val b"] by simp
qed simp

lemma length_digits_ok:
  assumes "\<forall>b \<in> set bs. is_digit b" and "int (digits_val n bs) \<le> mx"
  shows "length_digits mx n bs = Inr (digits_val n bs)"
  using assms
proof (induction bs arbitrary: n)
  case (Cons b bs)
  have "0 \<le> mx" using Cons.prems(2) by linarith
  moreover have "int (n * 10 + digit_val b) \<le> mx"
    using digits_val_ge [of "n * 10 + digit_val b" bs] Cons.prems(2) by simp
  ultimately show ?case
    using Cons digit_val_le [of b] digit_guard [of mx "digit_val b" n]
    by (auto simp: is_digit_guard Let_def digit_val_def)
qed simp

lemma length_digits_sound:
  assumes "length_digits mx n bs = Inr m" and "0 \<le> mx" and "bs \<noteq> [] \<or> int n \<le> mx"
  shows "(\<forall>b \<in> set bs. is_digit b) \<and> m = digits_val n bs \<and> int m \<le> mx"
  using assms
proof (induction bs arbitrary: n)
  case (Cons b bs)
  then have d: "is_digit b" by (auto simp: is_digit_guard split: if_splits)
  then have g: "\<not> (int n > mx div 10 \<or> int n = mx div 10 \<and> int (digit_val b) > mx mod 10)"
    and rest: "length_digits mx (n * 10 + digit_val b) bs = Inr m"
    using Cons.prems(1) by (auto simp: is_digit_guard Let_def digit_val_def split: if_splits)
  then have "int (n * 10 + digit_val b) \<le> mx"
    using digit_guard [OF Cons.prems(2) digit_val_le [OF d], of n] by linarith
  with Cons.IH [OF rest Cons.prems(2)] d show ?case by simp
qed simp

lemma takeWhile_line:
  assumes "\<forall>b \<in> set ds. is_digit b" and "m \<noteq> 10"
  shows "takeWhile (\<lambda>b. b \<noteq> 10) (m # ds @ 13 # 10 # rest) = m # ds @ [13]"
proof -
  have "\<forall>b \<in> set (m # ds @ [13]). b \<noteq> 10" using assms by (auto simp: is_digit_def)
  then have "takeWhile (\<lambda>b. b \<noteq> 10) ((m # ds @ [13]) @ 10 # rest) = m # ds @ [13]"
    by (subst takeWhile_append2) auto
  then show ?thesis by simp
qed

lemma dec_length_line:
  assumes "pending d = m # ds @ 13 # 10 # rest"
    and "\<forall>b \<in> set ds. is_digit b" and "m \<noteq> 10"
    and "1 \<le> length ds" and "length ds \<le> 20" and "length ds + 3 \<le> bufSize d"
    and "int (length ds) + 3 \<le> remaining d" and "int (digits_val 0 ds) \<le> mx"
  shows "dec_length d m mx = Inr (digits_val 0 ds,
    d\<lparr>pending := rest, remaining := remaining d - (int (length ds) + 3)\<rparr>)"
proof -
  let ?line = "m # ds @ [13, 10]"
  have "reader_ReadSlice d 10 = Inr (?line, d\<lparr>pending := rest\<rparr>)"
    using assms(1,6) takeWhile_line [OF assms(2,3), of rest] by (simp add: reader_ReadSlice_def)
  moreover have "?line ! (length ?line - 2) = 13" by (simp add: nth_append)
  moreover have "take (length ?line - 3) (drop 1 ?line) = ds" by simp
  moreover have "length_digits mx 0 ds = Inr (digits_val 0 ds)"
    by (rule length_digits_ok [OF assms(2,8)])
  ultimately show ?thesis
    using assms(4,5,7) unfolding dec_length_def by (auto simp: Let_def)
qed

lemma dec_length_sound:
  assumes "dec_length d m mx = Inr (n, d')" and "0 \<le> mx"
  shows "int n \<le> mx" and "0 \<le> remaining d'"
    and "\<exists>line. pending d = line @ pending d' \<and> remaining d' = remaining d - int (length line)
      \<and> 4 \<le> length line"
    and "limits d' = limits d" and "bufSize d' = bufSize d" and "endErr d' = endErr d"
proof -
  obtain line d1 where rs: "reader_ReadSlice d 10 = Inr (line, d1)"
    and a: "int (length line) \<le> remaining d1" "4 \<le> length line"
    and ld: "length_digits mx 0 (take (length line - 3) (drop 1 line)) = Inr n"
    and ne: "take (length line - 3) (drop 1 line) \<noteq> []"
    and d': "d' = d1\<lparr>remaining := remaining d1 - int (length line)\<rparr>"
    using assms(1) unfolding dec_length_def by (auto simp: go_res Let_def not_less split: if_splits)
  have d1: "line @ pending d1 = pending d" "remaining d1 = remaining d" "limits d1 = limits d"
    "bufSize d1 = bufSize d" "endErr d1 = endErr d"
    using rs by (auto simp: reader_ReadSlice_def Let_def split: if_splits)
  show "int n \<le> mx" using length_digits_sound [OF ld assms(2)] ne by blast
  show "0 \<le> remaining d'" "limits d' = limits d" "bufSize d' = bufSize d" "endErr d' = endErr d"
    using a d' d1 by simp_all
  show "\<exists>line. pending d = line @ pending d' \<and> remaining d' = remaining d - int (length line)
      \<and> 4 \<le> length line"
    using d' d1 a by (intro exI [of _ line]) simp
qed

subsection \<open>Frames\<close>

text \<open>\<open>bulk_frame l sz f v\<close>: the bytes \<open>f\<close> frame the bulk string \<open>v\<close> within the limits \<open>l\<close>, and
  the length line fits in a buffer of \<open>sz\<close> bytes. The length may carry leading zeros.\<close>

definition bulk_frame :: "Limits \<Rightarrow> nat \<Rightarrow> bytes \<Rightarrow> bytes \<Rightarrow> bool" where
  "bulk_frame l sz f v \<longleftrightarrow>
     (\<exists>ds. f = 36 # ds @ 13 # 10 # v @ [13, 10] \<and> (\<forall>b \<in> set ds. is_digit b)
       \<and> digits_val 0 ds = length v \<and> 1 \<le> length ds \<and> length ds \<le> 20 \<and> length ds + 3 \<le> sz
       \<and> int (length v) \<le> MaxBulkBytes l)"

lemma bulk_frame_length: "bulk_frame l sz f v \<Longrightarrow> length v + 6 \<le> length f"
  by (auto simp: bulk_frame_def)

lemma readByte_Cons:
  "pending d = b # bs \<Longrightarrow> remaining d > 0 \<Longrightarrow>
    readByte d = Inr (b, d\<lparr>pending := bs, remaining := remaining d - 1\<rparr>)"
  by (simp add: readByte_def reader_ReadByte_def)

lemma bulk_frame_bulk:
  assumes f: "bulk_frame (limits d) (bufSize d) f v" and p: "pending d = f @ rest"
    and r: "int (length f) \<le> remaining d"
  shows "bulk d = Inr (v, d\<lparr>pending := rest, remaining := remaining d - int (length f)\<rparr>)"
proof -
  obtain ds where ds: "f = 36 # ds @ 13 # 10 # v @ [13, 10]" "\<forall>b \<in> set ds. is_digit b"
    "digits_val 0 ds = length v" "1 \<le> length ds" "length ds \<le> 20" "length ds + 3 \<le> bufSize d"
    "int (length v) \<le> MaxBulkBytes (limits d)"
    using f by (auto simp: bulk_frame_def)
  have pd: "pending d = 36 # ds @ 13 # 10 # v @ 13 # 10 # rest" using p ds(1) by simp
  let ?r = "remaining d - (int (length ds) + 3)"
  have "dec_length d 36 (MaxBulkBytes (limits d))
      = Inr (length v, d\<lparr>pending := v @ 13 # 10 # rest, remaining := ?r\<rparr>)"
    using dec_length_line [OF pd ds(2) _ ds(4,5,6)] ds(3,7) r ds(1) by simp
  moreover have "int (length v) + 2 \<le> ?r" using r ds(1) by simp
  ultimately show ?thesis
    using r ds(1) by (simp add: bulk_def reader_ReadFull_def readByte_Cons)
qed

lemma bulks_frames:
  assumes "list_all2 (bulk_frame l sz) fs vs" and "limits d = l" and "bufSize d = sz"
    and "pending d = concat fs @ rest" and "int (length (concat fs)) \<le> remaining d"
  shows "bulks (length vs) d
    = Inr (vs, d\<lparr>pending := rest, remaining := remaining d - int (length (concat fs))\<rparr>)"
  using assms
proof (induction fs vs arbitrary: d rule: list_all2_induct)
  case Nil
  then show ?case by simp
next
  case (Cons f fs v vs)
  let ?d1 = "d\<lparr>pending := concat fs @ rest, remaining := remaining d - int (length f)\<rparr>"
  have "bulk d = Inr (v, ?d1)"
    using Cons.hyps(1) Cons.prems by (intro bulk_frame_bulk) auto
  moreover have "bulks (length vs) ?d1
      = Inr (vs, ?d1\<lparr>pending := rest, remaining := remaining ?d1 - int (length (concat fs))\<rparr>)"
    using Cons.prems by (intro Cons.IH) auto
  ultimately show ?case by (simp add: algebra_simps)
qed

lemma frames_length: "list_all2 (bulk_frame l sz) fs vs \<Longrightarrow> 6 * length vs \<le> length (concat fs)"
  by (induction rule: list_all2_induct) (auto dest: bulk_frame_length)

text \<open>The request that carries the arguments \<open>vs\<close>, framed by \<open>fs\<close>.\<close>

lemma ReadCommand_frames:
  assumes fs: "list_all2 (bulk_frame (limits d) (bufSize d)) fs vs" and ne: "vs \<noteq> []"
    and p: "pending d = 42 # ds @ 13 # 10 # concat fs @ rest"
    and ds: "\<forall>b \<in> set ds. is_digit b" "1 \<le> length ds" "length ds \<le> 20"
      "length ds + 3 \<le> bufSize d" "digits_val 0 ds = length vs"
    and n: "int (length vs) \<le> MaxArguments (limits d)"
    and total: "int (length ds + 3 + length (concat fs)) \<le> MaxRequestBytes (limits d)"
  shows "ReadCommand d = Inr (vs, d\<lparr>pending := rest,
    remaining := MaxRequestBytes (limits d) - int (length ds + 3 + length (concat fs))\<rparr>)"
proof -
  let ?d = "d\<lparr>remaining := MaxRequestBytes (limits d)\<rparr>"
  let ?r = "MaxRequestBytes (limits d) - (int (length ds) + 3)"
  have "reader_Peek ?d 1 = Inr [42]" using p ds(4) by (simp add: reader_Peek_def)
  moreover have "dec_length ?d 42 (MaxArguments (limits d))
      = Inr (length vs, ?d\<lparr>pending := concat fs @ rest, remaining := ?r\<rparr>)"
    using dec_length_line [of ?d 42 ds "concat fs @ rest"] p ds n total by simp
  moreover have "bulks (length vs) (?d\<lparr>pending := concat fs @ rest, remaining := ?r\<rparr>)
      = Inr (vs, d\<lparr>pending := rest, remaining := ?r - int (length (concat fs))\<rparr>)"
    using total by (subst bulks_frames [OF fs]) auto
  moreover have "int (length vs) \<le> ?r div 6" using frames_length [OF fs] total by linarith
  ultimately show ?thesis
    using ne by (auto simp: ReadCommand_def unexpected_def Let_def algebra_simps)
qed

subsection \<open>Round trip with the reply formatters\<close>

lemma length_dec_bytes_20: "n < 10 ^ 20 \<Longrightarrow> length (dec_bytes n) \<le> 20"
  using length_dec_bytes [of n 19] by simp

lemma formatBulkString_frame:
  assumes "int (length v) \<le> MaxBulkBytes l" and "length v < 10 ^ 20" and "23 \<le> sz"
  shows "bulk_frame l sz (formatBulkString v) v"
  unfolding bulk_frame_def formatBulkString_def
  using assms length_dec_bytes_20 [OF assms(2)] dec_bytes_digits [of "length v"]
  by (intro exI [of _ "dec_bytes (length v)"])
     (auto simp: format_int_def digits_val_dec_bytes Suc_le_eq)

lemma formatBulkString_frames:
  assumes "\<forall>v \<in> set vs. int (length v) \<le> MaxBulkBytes l \<and> length v < 10 ^ 20" and "23 \<le> sz"
  shows "list_all2 (bulk_frame l sz) (map formatBulkString vs) vs"
  using assms by (induction vs) (auto intro: formatBulkString_frame)

lemma ReadCommand_resp_array:
  assumes sz: "23 \<le> bufSize d" and ne: "vs \<noteq> []"
    and p: "pending d = resp_array (map formatBulkString vs) @ rest"
    and b: "\<forall>v \<in> set vs. int (length v) \<le> MaxBulkBytes (limits d)"
    and n: "int (length vs) \<le> MaxArguments (limits d)"
    and total: "int (length (resp_array (map formatBulkString vs))) \<le> MaxRequestBytes (limits d)"
    and small: "MaxRequestBytes (limits d) < 2 ^ 63"
  shows "\<exists>d'. ReadCommand d = Inr (vs, d') \<and> d'\<lparr>remaining := remaining d\<rparr> = d\<lparr>pending := rest\<rparr>"
proof -
  let ?fs = "map formatBulkString vs"
  have len: "length (concat ?fs) < 2 ^ 63" using total small by (simp add: resp_array_def)
  have vlen: "\<forall>v \<in> set vs. length v < 10 ^ 20"
  proof
    fix v assume "v \<in> set vs"
    then have "length (formatBulkString v) \<le> length (concat ?fs)"
      by (induction vs) auto
    then show "length v < 10 ^ 20" using len by (simp add: formatBulkString_def)
  qed
  have fs: "list_all2 (bulk_frame (limits d) (bufSize d)) ?fs vs"
    using b vlen sz by (intro formatBulkString_frames) auto
  have nlen: "length vs < 10 ^ 20" using frames_length [OF fs] len by simp
  have "ReadCommand d = Inr (vs, d\<lparr>pending := rest, remaining := MaxRequestBytes (limits d)
      - int (length (dec_bytes (length vs)) + 3 + length (concat ?fs))\<rparr>)"
    using p total sz dec_bytes_digits [of "length vs"] length_dec_bytes_20 [OF nlen] n
    by (intro ReadCommand_frames [OF fs ne])
       (auto simp: resp_array_def format_int_def digits_val_dec_bytes Suc_le_eq)
  then show ?thesis by simp
qed

subsection \<open>What an accepted request satisfies\<close>

text \<open>\<open>consumed d d' k\<close>: the step from \<open>d\<close> to \<open>d'\<close> took \<open>k\<close> bytes off the stream, charged them
  against the request budget and changed nothing else.\<close>

definition consumed :: "Decoder \<Rightarrow> Decoder \<Rightarrow> nat \<Rightarrow> bool" where
  "consumed d d' k \<longleftrightarrow> k \<le> length (pending d)
     \<and> d' = d\<lparr>pending := drop k (pending d), remaining := remaining d - int k\<rparr>"

lemma consumed_trans: "consumed d d1 j \<Longrightarrow> consumed d1 d2 k \<Longrightarrow> consumed d d2 (j + k)"
  by (auto simp: consumed_def add.commute)

lemma dec_length_consumed:
  assumes "dec_length d m mx = Inr (n, d')" and "0 \<le> mx"
  shows "\<exists>k. consumed d d' k \<and> int n \<le> mx \<and> 0 \<le> remaining d'"
proof -
  obtain line where line: "pending d = line @ pending d'"
      "remaining d' = remaining d - int (length line)"
    using dec_length_sound(3) [OF assms] by blast
  then have "consumed d d' (length line)"
    using dec_length_sound(4-6) [OF assms] by (simp add: consumed_def)
  then show ?thesis using dec_length_sound(1,2) [OF assms] by blast
qed

lemma readByte_consumed:
  "readByte d = Inr (b, d') \<Longrightarrow> 0 \<le> remaining d \<Longrightarrow> consumed d d' 1 \<and> 0 \<le> remaining d'"
  by (auto simp: readByte_def reader_ReadByte_def consumed_def split: if_splits list.splits)

lemma bulk_consumed:
  assumes "bulk d = Inr (v, d')" and "0 \<le> MaxBulkBytes (limits d)"
  shows "\<exists>k. consumed d d' k \<and> int (length v) \<le> MaxBulkBytes (limits d) \<and> 0 \<le> remaining d'"
proof -
  obtain n d1 d2 a d3 b where 1: "dec_length d 36 (MaxBulkBytes (limits d)) = Inr (n, d1)"
    and 2: "reader_ReadFull d1 n = Inr (v, d2)" and g: "int n \<le> remaining d1 - 2"
    and 3: "readByte (d2\<lparr>remaining := remaining d2 - int n\<rparr>) = Inr (a, d3)"
    and 4: "readByte d3 = Inr (b, d')"
    using assms(1) unfolding bulk_def by (auto simp: go_res not_less split: prod.splits)
  obtain k where k: "consumed d d1 k" "int n \<le> MaxBulkBytes (limits d)"
    using dec_length_consumed [OF 1 assms(2)] by blast
  let ?d2 = "d2\<lparr>remaining := remaining d2 - int n\<rparr>"
  have c2: "consumed d1 ?d2 n" "length v = n" and r: "0 \<le> remaining ?d2"
    using 2 g by (auto simp: reader_ReadFull_def consumed_def split: if_splits)
  have "consumed ?d2 d3 1" "0 \<le> remaining d3" using readByte_consumed [OF 3 r] by auto
  moreover have "consumed d3 d' 1" "0 \<le> remaining d'" using readByte_consumed [OF 4] calculation by auto
  ultimately show ?thesis using consumed_trans k c2 by metis
qed

lemma bulks_consumed:
  assumes "bulks n d = Inr (vs, d')" and "0 \<le> MaxBulkBytes (limits d)" and "0 \<le> remaining d"
  shows "\<exists>k. consumed d d' k \<and> length vs = n \<and> 0 \<le> remaining d'
    \<and> (\<forall>v \<in> set vs. int (length v) \<le> MaxBulkBytes (limits d))"
  using assms
proof (induction n arbitrary: d vs)
  case 0
  then show ?case by (auto simp: consumed_def)
next
  case (Suc n)
  then obtain v d1 vs' where 1: "bulk d = Inr (v, d1)" and 2: "bulks n d1 = Inr (vs', d')"
    and vs: "vs = v # vs'"
    by (auto simp: go_res)
  obtain j where j: "consumed d d1 j" "int (length v) \<le> MaxBulkBytes (limits d)" "0 \<le> remaining d1"
    using bulk_consumed [OF 1 Suc.prems(2)] by blast
  then have lim: "limits d1 = limits d" by (simp add: consumed_def)
  obtain k where "consumed d1 d' k" "length vs' = n" "0 \<le> remaining d'"
    "\<forall>v \<in> set vs'. int (length v) \<le> MaxBulkBytes (limits d)"
    using Suc.IH [OF 2] Suc.prems(2) j(3) lim by auto
  then show ?case using consumed_trans [OF j(1)] j(2) vs by auto
qed

lemma unexpected_Inr [simp]: "unexpected r = Inr x \<longleftrightarrow> r = Inr x"
  by (auto simp: unexpected_def split: sum.splits resp_error.splits)

lemma unexpected_not_EOF [simp]: "unexpected r \<noteq> Inl ReadEOF"
  by (auto simp: unexpected_def split: sum.splits resp_error.splits)

lemma Validate_ok:
  "Validate l = Inr () \<longleftrightarrow> 4 \<le> MaxRequestBytes l \<and> 0 \<le> MaxBulkBytes l
     \<and> MaxBulkBytes l \<le> MaxRequestBytes l \<and> 1 \<le> MaxArguments l"
  by (auto simp: Validate_def)

lemma ReadCommand_within_limits:
  assumes "ReadCommand d = Inr (args, d')" and "Validate (limits d) = Inr ()"
  shows "\<exists>k. pending d = take k (pending d) @ pending d' \<and> int k \<le> MaxRequestBytes (limits d)
    \<and> 1 \<le> length args \<and> int (length args) \<le> MaxArguments (limits d)
    \<and> (\<forall>v \<in> set args. int (length v) \<le> MaxBulkBytes (limits d))"
proof -
  let ?d = "d\<lparr>remaining := MaxRequestBytes (limits d)\<rparr>"
  have l: "0 \<le> MaxArguments (limits d)" "0 \<le> MaxBulkBytes (limits d)"
    using assms(2) by (auto simp: Validate_ok)
  obtain n d1 where 1: "dec_length ?d 42 (MaxArguments (limits d)) = Inr (n, d1)" and n: "n \<noteq> 0"
    and 2: "bulks n d1 = Inr (args, d')"
    using assms(1) unfolding ReadCommand_def by (auto simp: go_res Let_def)
  obtain j where j: "consumed ?d d1 j" "int n \<le> MaxArguments (limits d)" "0 \<le> remaining d1"
    using dec_length_consumed [OF 1 l(1)] by blast
  then have lim: "limits d1 = limits d" by (simp add: consumed_def)
  obtain k where k: "consumed d1 d' k" "length args = n" "0 \<le> remaining d'"
    "\<forall>v \<in> set args. int (length v) \<le> MaxBulkBytes (limits d)"
    using bulks_consumed [OF 2] l(2) j(3) lim by auto
  have c: "consumed ?d d' (j + k)" by (rule consumed_trans [OF j(1) k(1)])
  have "pending d = take (j + k) (pending d) @ pending d'" using c by (simp add: consumed_def)
  moreover have "int (j + k) \<le> MaxRequestBytes (limits d)"
    using c k(3) by (simp add: consumed_def)
  ultimately show ?thesis using j(2) k(2,4) n by (intro exI [of _ "j + k"]) auto
qed

lemma ReadCommand_EOF:
  "1 \<le> bufSize d \<Longrightarrow> ReadCommand d = Inl ReadEOF \<longleftrightarrow> pending d = [] \<and> endErr d = ReadEOF"
  by (cases "pending d") (auto simp: ReadCommand_def Let_def reader_Peek_def)

subsection \<open>The fast paths agree with \<open>ReadCommand\<close>\<close>

lemma scanLen_frame:
  assumes "scanLen mx buf pos n k = Some (p, m, k')" and "0 \<le> mx" and "p + m + 2 \<le> length buf"
    and "k \<le> 20" and "int n \<le> mx"
  shows "\<exists>ds. drop pos buf = ds @ 13 # 10 # drop p buf \<and> (\<forall>b \<in> set ds. is_digit b)
    \<and> m = digits_val n ds \<and> k' = k + length ds \<and> 1 \<le> k' \<and> k' \<le> 20 \<and> int m \<le> mx
    \<and> p = pos + length ds + 2"
  using assms
proof (induction mx buf pos n k rule: scanLen.induct)
  case (1 mx buf pos n k)
  note eq = scanLen.simps [of mx buf pos n k]
  have pos: "pos < length buf" using "1.prems"(1,3) eq by (auto split: if_splits)
  then have dr: "drop pos buf = buf ! pos # drop (Suc pos) buf" by (simp add: Cons_nth_drop_Suc)
  show ?case
  proof (cases "buf ! pos = 13")
    case True
    then have "Suc pos < length buf" "buf ! Suc pos = 10" "k \<noteq> 0" "p = pos + 2" "m = n" "k' = k"
      using "1.prems"(1) pos eq by (auto simp: Let_def split: if_splits)
    then show ?thesis
      using True dr "1.prems"(4,5) Cons_nth_drop_Suc [of "Suc pos" buf]
      by (intro exI [of _ "[]"]) simp
  next
    case False
    let ?dv = "unat (buf ! pos - 48)"
    have g: "\<not> (buf ! pos < 48 \<or> 57 < buf ! pos \<or> 20 \<le> k)"
      "\<not> (int n > mx div 10 \<or> int n = mx div 10 \<and> int ?dv > mx mod 10)"
      and rec: "scanLen mx buf (pos + 1) (n * 10 + ?dv) (k + 1) = Some (p, m, k')"
      using "1.prems"(1) pos False eq by (auto simp: Let_def split: if_splits)
    have d: "is_digit (buf ! pos)" using g(1) by (auto simp: is_digit_def not_less)
    have "\<not> int (n * 10 + ?dv) > mx"
      using g(2) digit_guard [OF "1.prems"(2) digit_val_le [OF d], of n]
      unfolding digit_val_def by blast
    then have "int (n * 10 + ?dv) \<le> mx" by (rule leI)
    then obtain ds where "drop (pos + 1) buf = ds @ 13 # 10 # drop p buf" "\<forall>b \<in> set ds. is_digit b"
      "m = digits_val (n * 10 + ?dv) ds" "k' = k + 1 + length ds" "k' \<le> 20" "int m \<le> mx"
      "p = pos + 1 + length ds + 2"
      using "1.IH" [OF pos refl False _ refl] g rec "1.prems"(2,3) by fastforce
    then show ?thesis
      using dr d by (intro exI [of _ "buf ! pos # ds"]) (simp add: digit_val_def)
  qed
qed

lemma parseBulk_frame:
  assumes "parseBulk l buf pos = Some (p, n, nx)" and "0 \<le> MaxBulkBytes l"
  shows "\<exists>f. bulk_frame l (length buf) f (take n (drop p buf)) \<and> drop pos buf = f @ drop nx buf
    \<and> nx = pos + length f \<and> nx \<le> length buf"
proof -
  obtain dg where pos: "pos < length buf" "buf ! pos = 36"
    and sl: "scanLen (MaxBulkBytes l) buf (pos + 1) 0 0 = Some (p, n, dg)"
    and fit: "p + n + 2 \<le> length buf" and crlf: "buf ! (p + n) = 13" "buf ! (p + n + 1) = 10"
    and nx: "nx = p + n + 2"
    using assms(1) by (auto simp: parseBulk_def split: if_splits option.splits)
  obtain ds where ds: "drop (pos + 1) buf = ds @ 13 # 10 # drop p buf" "\<forall>b \<in> set ds. is_digit b"
    "n = digits_val 0 ds" "1 \<le> length ds" "length ds \<le> 20" "int n \<le> MaxBulkBytes l"
    "p = pos + 1 + length ds + 2"
    using scanLen_frame [OF sl assms(2) fit] assms(2) by auto
  let ?v = "take n (drop p buf)"
  let ?f = "36 # ds @ 13 # 10 # ?v @ [13, 10]"
  have v: "length ?v = n" using fit by simp
  have "drop p buf = ?v @ drop (p + n) buf" by (simp add: add.commute flip: drop_drop)
  also have "drop (p + n) buf = 13 # 10 # drop nx buf"
    using crlf fit nx Cons_nth_drop_Suc [of "p + n" buf] Cons_nth_drop_Suc [of "Suc (p + n)" buf]
    by simp
  finally have "drop pos buf = ?f @ drop nx buf"
    using pos ds(1) Cons_nth_drop_Suc [of pos buf] by simp
  moreover have "bulk_frame l (length buf) ?f ?v"
    using ds v fit by (auto simp: bulk_frame_def)
  moreover have "nx = pos + length ?f" "nx \<le> length buf" using nx ds(7) v fit by auto
  ultimately show ?thesis by blast
qed

lemma bulk_frame_mono: "bulk_frame l sz f v \<Longrightarrow> sz \<le> sz' \<Longrightarrow> bulk_frame l sz' f v"
  unfolding bulk_frame_def by fastforce

lemma frames_mono:
  "list_all2 (bulk_frame l sz) fs vs \<Longrightarrow> sz \<le> sz' \<Longrightarrow> list_all2 (bulk_frame l sz') fs vs"
  by (erule list_all2_mono) (rule bulk_frame_mono)

lemma peekBuffered_Some:
  assumes "peekBuffered d buffered least = Some buf" and "0 \<le> MaxRequestBytes (limits d)"
  shows "buf = take (length buf) (pending d)" and "length buf \<le> bufSize d"
    and "int (length buf) \<le> MaxRequestBytes (limits d)"
  using assms by (auto simp: peekBuffered_def reader_Peek_def Let_def split: if_splits sum.splits)

text \<open>A buffered prefix that frames a whole request is what \<open>ReadCommand\<close> reads.\<close>

lemma ReadCommand_buffered:
  assumes pk: "peekBuffered d buffered least = Some buf" and l: "Validate (limits d) = Inr ()"
    and hdr: "take 4 buf = [42, c, 13, 10]" "is_digit c" "4 \<le> length buf"
    and fs: "list_all2 (bulk_frame (limits d) (length buf)) fs vs"
    and body: "drop 4 buf = concat fs @ drop frameLen buf" and fl: "frameLen = 4 + length (concat fs)"
    and n: "digit_val c = length vs" "vs \<noteq> []" "int (length vs) \<le> MaxArguments (limits d)"
  shows "\<exists>r. ReadCommand d = Inr (vs, r) \<and> r\<lparr>remaining := remaining d\<rparr> = reader_Discard d frameLen"
proof -
  have lim: "0 \<le> MaxRequestBytes (limits d)" using l by (simp add: Validate_ok)
  note pk' = peekBuffered_Some [OF pk lim]
  have le: "frameLen \<le> length buf"
  proof -
    have "length (drop 4 buf) = length (concat fs) + length (drop frameLen buf)" using body by simp
    then show ?thesis using fl hdr(3) by simp
  qed
  obtain tl where pd: "pending d = buf @ tl" using pk'(1) by (metis append_take_drop_id)
  have "buf = 42 # c # 13 # 10 # concat fs @ drop frameLen buf"
    using append_take_drop_id [of 4 buf] hdr(1) body by simp
  from arg_cong [OF this, of "\<lambda>x. x @ tl"]
  have p: "pending d = 42 # [c] @ 13 # 10 # concat fs @ drop frameLen (pending d)"
    using le by (simp add: pd)
  have "ReadCommand d = Inr (vs, d\<lparr>pending := drop frameLen (pending d), remaining :=
      MaxRequestBytes (limits d) - int (length [c] + 3 + length (concat fs))\<rparr>)"
    using hdr n le fl pk'(2,3)
    by (intro ReadCommand_frames [OF frames_mono [OF fs pk'(2)] n(2) p]) auto
  then show ?thesis by (auto simp: reader_Discard_def)
qed

lemma take_4: "4 \<le> length xs \<Longrightarrow> take 4 xs = [xs ! 0, xs ! 1, xs ! 2, xs ! 3]"
  by (auto simp: numeral_eq_Suc Suc_le_length_iff)

lemma drop_4_13:
  "13 \<le> length xs \<Longrightarrow> drop 4 xs
    = [xs ! 4, xs ! 5, xs ! 6, xs ! 7, xs ! 8, xs ! 9, xs ! 10, xs ! 11, xs ! 12] @ drop 13 xs"
  by (auto simp: numeral_eq_Suc Suc_le_length_iff)

lemma digit_bytes [simp]: "is_digit 50" "is_digit 51" "is_digit 52"
  "digit_val 50 = 2" "digit_val 51 = 3" "digit_val 52 = 4"
  by (simp_all add: is_digit_def digit_val_def)

lemma name3_frame:
  "3 \<le> MaxBulkBytes l \<Longrightarrow> 4 \<le> sz \<Longrightarrow> bulk_frame l sz [36, 51, 13, 10, a, b, c, 13, 10] [a, b, c]"
  unfolding bulk_frame_def by (rule exI [of _ "[51]"]) simp

text \<open>A bulk limit below three rejects a request at the length of its three-byte command name.\<close>

lemma ReadCommand_name_limit:
  assumes pk: "peekBuffered d buffered least = Some buf" and l: "Validate (limits d) = Inr ()" and b3: "\<not> 3 \<le> MaxBulkBytes (limits d)"
    and hdr: "buf = 42 # c # 13 # 10 # 36 # 51 # 13 # 10 # rest" "is_digit c" "0 < digit_val c"
    and n: "int (digit_val c) \<le> MaxArguments (limits d)" "6 * digit_val c + 4 \<le> length buf"
  shows "ReadCommand d = Inl DeclaredLimit"
proof -
  have lim: "0 \<le> MaxRequestBytes (limits d)" using l by (simp add: Validate_ok)
  note pk' = peekBuffered_Some [OF pk lim]
  obtain tl where pd: "pending d = buf @ tl" using pk'(1) by (metis append_take_drop_id)
  let ?d = "d\<lparr>remaining := MaxRequestBytes (limits d)\<rparr>"
  let ?d1 = "?d\<lparr>pending := 36 # 51 # 13 # 10 # rest @ tl, remaining := MaxRequestBytes (limits d) - 4\<rparr>"
  have sz: "8 \<le> bufSize d" "8 \<le> MaxRequestBytes (limits d)" using hdr(1) pk'(2,3) by simp_all
  have peek: "reader_Peek ?d 1 = Inr [42]" using sz by (simp add: reader_Peek_def pd hdr(1))
  have count: "dec_length ?d 42 (MaxArguments (limits d)) = Inr (digit_val c, ?d1)"
    using dec_length_line [of ?d 42 "[c]" "36 # 51 # 13 # 10 # rest @ tl" "MaxArguments (limits d)"] sz hdr(2) n(1) by (simp add: pd hdr(1))
  have slice: "reader_ReadSlice ?d1 10 = Inr ([36, 51, 13, 10], ?d1\<lparr>pending := rest @ tl\<rparr>)" using sz by (simp add: reader_ReadSlice_def)
  have "length_digits (MaxBulkBytes (limits d)) 0 [51] = Inl DeclaredLimit" using b3 l by (simp add: Validate_ok)
  then have "bulk ?d1 = Inl DeclaredLimit" using sz slice by (simp add: bulk_def dec_length_def)
  then have "bulks (digit_val c) ?d1 = Inl DeclaredLimit" using hdr(3) by (cases "digit_val c") simp_all
  moreover have "int (digit_val c) \<le> (MaxRequestBytes (limits d) - 4) div 6" using n(2) pk'(3) by linarith
  ultimately show ?thesis using peek count hdr(3) by (simp add: ReadCommand_def unexpected_def Let_def)
qed

lemma header_8: "13 \<le> length xs \<Longrightarrow> xs = xs ! 0 # xs ! 1 # xs ! 2 # xs ! 3 # xs ! 4 # xs ! 5 # xs ! 6 # xs ! 7 # drop 8 xs"
  by (auto simp: numeral_eq_Suc Suc_le_length_iff)

lemma ReadBufferedGET_ReadCommand:
  assumes get: "ReadBufferedGET d buffered = Some (key, d')"
    and l: "Validate (limits d) = Inr ()"
  shows "if 3 \<le> MaxBulkBytes (limits d)
    then \<exists>c r. ReadCommand d = Inr ([c, key], r) \<and> r\<lparr>remaining := remaining d\<rparr> = d' \<and> EqualFold c [71, 69, 84]
    else ReadCommand d = Inl DeclaredLimit"
proof -
  obtain buf i n dg where pk: "peekBuffered d buffered 19 = Some buf" and len: "17 \<le> length buf"
    and h: "buf ! 0 = 42" "buf ! 1 = 50" "buf ! 2 = 13" "buf ! 3 = 10" "buf ! 4 = 36" "buf ! 5 = 51"
      "buf ! 6 = 13" "buf ! 7 = 10" "buf ! 11 = 13" "buf ! 12 = 10" "buf ! 13 = 36"
      "buf ! 8 = 71 \<or> buf ! 8 = 103" "buf ! 9 = 69 \<or> buf ! 9 = 101"
      "buf ! 10 = 84 \<or> buf ! 10 = 116"
    and sl: "scanLen (MaxBulkBytes (limits d)) buf 14 0 0 = Some (i, n, dg)" "dg \<noteq> 0"
    and fit: "i + n + 2 \<le> length buf" "buf ! (i + n) = 13" "buf ! (i + n + 1) = 10"
    and a: "2 \<le> MaxArguments (limits d)"
    and res: "key = take n (drop i buf)" "d' = reader_Discard d (i + n + 2)"
    using get unfolding ReadBufferedGET_def Let_def
    by (simp only: go_res de_Morgan_disj not_not not_less) auto
  have "parseBulk (limits d) buf 13 = Some (i, n, i + n + 2)"
    using len h sl fit by (simp add: parseBulk_def)
  then obtain f where f: "bulk_frame (limits d) (length buf) f key"
      "drop 13 buf = f @ drop (i + n + 2) buf" "i + n + 2 = 13 + length f"
    using parseBulk_frame l res(1) by (metis Validate_ok)
  let ?c = "[buf ! 8, buf ! 9, buf ! 10]"
  let ?g = "[36, 51, 13, 10, buf ! 8, buf ! 9, buf ! 10, 13, 10]"
  have small: "ReadCommand d = Inl DeclaredLimit" if b3: "\<not> 3 \<le> MaxBulkBytes (limits d)"
    by (rule ReadCommand_name_limit [OF pk l b3, where c = 50 and rest = "drop 8 buf"])
       (use header_8 [of buf] len h a f(3) fit(1) bulk_frame_length [OF f(1)] in auto)
  have "\<exists>r. ReadCommand d = Inr ([?c, key], r)
      \<and> r\<lparr>remaining := remaining d\<rparr> = reader_Discard d (i + n + 2)" if b3: "3 \<le> MaxBulkBytes (limits d)"
  proof (rule ReadCommand_buffered [OF pk l, where c = 50 and fs = "[?g, f]"])
    show "take 4 buf = [42, 50, 13, 10]" using take_4 [of buf] len h by simp
    show "list_all2 (bulk_frame (limits d) (length buf)) [?g, f] [?c, key]"
      using name3_frame [OF b3] len f(1) by simp
    show "drop 4 buf = concat [?g, f] @ drop (i + n + 2) buf"
      using drop_4_13 [of buf] len h f(2) by simp
  qed (use len a f(3) in auto)
  moreover have "EqualFold ?c [71, 69, 84]" using h by auto
  ultimately show ?thesis using res(2) small by auto
qed

lemma ReadBufferedSET_ReadCommand:
  assumes set: "ReadBufferedSET d buffered = Some (key, val, d')"
    and l: "Validate (limits d) = Inr ()"
  shows "if 3 \<le> MaxBulkBytes (limits d)
    then \<exists>c r. ReadCommand d = Inr ([c, key, val], r) \<and> r\<lparr>remaining := remaining d\<rparr> = d' \<and> EqualFold c [83, 69, 84]
    else ReadCommand d = Inl DeclaredLimit"
proof -
  obtain buf p1 n1 x1 p2 n2 x2 where pk: "peekBuffered d buffered 25 = Some buf"
    and len: "13 \<le> length buf"
    and h: "buf ! 0 = 42" "buf ! 1 = 51" "buf ! 2 = 13" "buf ! 3 = 10" "buf ! 4 = 36" "buf ! 5 = 51"
      "buf ! 6 = 13" "buf ! 7 = 10" "buf ! 11 = 13" "buf ! 12 = 10"
      "buf ! 8 = 83 \<or> buf ! 8 = 115" "buf ! 9 = 69 \<or> buf ! 9 = 101"
      "buf ! 10 = 84 \<or> buf ! 10 = 116"
    and pb: "parseBulk (limits d) buf 13 = Some (p1, n1, x1)"
      "parseBulk (limits d) buf x1 = Some (p2, n2, x2)"
    and a: "3 \<le> MaxArguments (limits d)"
    and res: "key = take n1 (drop p1 buf)" "val = take n2 (drop p2 buf)" "d' = reader_Discard d x2"
    using set unfolding ReadBufferedSET_def
    by (simp only: go_res de_Morgan_disj not_not not_less option.inject prod.inject) blast
  have nn: "0 \<le> MaxBulkBytes (limits d)" using l by (simp add: Validate_ok)
  obtain f1 where f1: "bulk_frame (limits d) (length buf) f1 key" "drop 13 buf = f1 @ drop x1 buf"
      "x1 = 13 + length f1"
    using parseBulk_frame [OF pb(1) nn] res by auto
  obtain f2 where f2: "bulk_frame (limits d) (length buf) f2 val" "drop x1 buf = f2 @ drop x2 buf"
      "x2 = x1 + length f2"
    using parseBulk_frame [OF pb(2) nn] res by auto
  let ?c = "[buf ! 8, buf ! 9, buf ! 10]"
  let ?g = "[36, 51, 13, 10, buf ! 8, buf ! 9, buf ! 10, 13, 10]"
  have "length buf - 13 = length f1 + (length f2 + (length buf - x2))" using arg_cong [OF f1(2), of length] f2(2) by simp
  then have "25 \<le> length buf" using len bulk_frame_length [OF f1(1)] bulk_frame_length [OF f2(1)] by linarith
  then have small: "ReadCommand d = Inl DeclaredLimit" if b3: "\<not> 3 \<le> MaxBulkBytes (limits d)"
    by (intro ReadCommand_name_limit [OF pk l b3, where c = 51 and rest = "drop 8 buf"]) (use header_8 [of buf] h a in auto)
  have "\<exists>r. ReadCommand d = Inr ([?c, key, val], r)
      \<and> r\<lparr>remaining := remaining d\<rparr> = reader_Discard d x2" if b3: "3 \<le> MaxBulkBytes (limits d)"
  proof (rule ReadCommand_buffered [OF pk l, where c = 51 and fs = "[?g, f1, f2]"])
    show "take 4 buf = [42, 51, 13, 10]" using take_4 [of buf] len h by simp
    show "list_all2 (bulk_frame (limits d) (length buf)) [?g, f1, f2] [?c, key, val]"
      using name3_frame [OF b3] len f1(1) f2(1) by simp
    show "drop 4 buf = concat [?g, f1, f2] @ drop x2 buf"
      using drop_4_13 [of buf] len h f1(2) f2(2) by simp
  qed (use len a f1(3) f2(3) in auto)
  moreover have "EqualFold ?c [83, 69, 84]" using h by auto
  ultimately show ?thesis using res(3) small by auto
qed

lemma mutationArgs_2: "mutationArgs l buf 2 pos = mutationArgs l buf (Suc (Suc 0)) pos"
  by (simp add: numeral_2_eq_2)

lemma mutationArgs_frames:
  assumes "mutationArgs l buf k pos = Some (args, pos')" and "0 \<le> MaxBulkBytes l"
  shows "\<exists>fs. list_all2 (bulk_frame l (length buf)) fs args \<and> length args = k
    \<and> drop pos buf = concat fs @ drop pos' buf \<and> pos' = pos + length (concat fs)"
  using assms
proof (induction k arbitrary: pos args)
  case 0
  then show ?case by auto
next
  case (Suc k)
  then obtain p n nx args' where pb: "parseBulk l buf pos = Some (p, n, nx)"
    and rec: "mutationArgs l buf k nx = Some (args', pos')" and args: "args = take n (drop p buf) # args'"
    by (auto split: option.splits)
  obtain f where f: "bulk_frame l (length buf) f (take n (drop p buf))"
      "drop pos buf = f @ drop nx buf" "nx = pos + length f"
    using parseBulk_frame [OF pb Suc.prems(2)] by auto
  obtain fs where fs: "list_all2 (bulk_frame l (length buf)) fs args'" "length args' = k"
      "drop nx buf = concat fs @ drop pos' buf" "pos' = nx + length (concat fs)"
    using Suc.IH [OF rec Suc.prems(2)] by auto
  show ?case using f fs args by (intro exI [of _ "f # fs"]) simp
qed

text \<open>The pair and mutation fast paths read the command name with \<open>parseBulk\<close> too.\<close>

lemma ReadCommand_parsed:
  assumes pk: "peekBuffered d buffered least = Some buf" and l: "Validate (limits d) = Inr ()"
    and len: "4 \<le> length buf" and h: "buf ! 0 = 42" "is_digit (buf ! 1)" "buf ! 2 = 13" "buf ! 3 = 10"
    and pb: "parseBulk (limits d) buf 4 = Some (p0, n0, x0)"
    and ma: "mutationArgs (limits d) buf k x0 = Some (args, x)"
    and n: "digit_val (buf ! 1) = Suc k" "int (Suc k) \<le> MaxArguments (limits d)"
  shows "\<exists>r. ReadCommand d = Inr (take n0 (drop p0 buf) # args, r)
    \<and> r\<lparr>remaining := remaining d\<rparr> = reader_Discard d x"
proof -
  have nn: "0 \<le> MaxBulkBytes (limits d)" using l by (simp add: Validate_ok)
  have "mutationArgs (limits d) buf (Suc k) 4 = Some (take n0 (drop p0 buf) # args, x)"
    using pb ma by simp
  then obtain fs where "list_all2 (bulk_frame (limits d) (length buf)) fs (take n0 (drop p0 buf) # args)"
      "length args = k" "drop 4 buf = concat fs @ drop x buf" "x = 4 + length (concat fs)"
    using mutationArgs_frames [OF _ nn, of buf "Suc k" 4] by auto
  then show ?thesis
    using take_4 [OF len] h n len
    by (intro ReadCommand_buffered [OF pk l, where c = "buf ! 1" and fs = fs]) auto
qed

lemma readBufferedPair_ReadCommand:
  assumes rp: "readBufferedPair name least d buffered = Some (key, mem, d')"
    and l: "Validate (limits d) = Inr ()"
  shows "\<exists>c r. ReadCommand d = Inr ([c, key, mem], r) \<and> r\<lparr>remaining := remaining d\<rparr> = d'
    \<and> EqualFold c name \<and> length c = length name"
proof -
  obtain buf p0 n0 x0 p1 n1 x1 p2 n2 x2 where pk: "peekBuffered d buffered least = Some buf"
    and h: "14 \<le> length buf" "buf ! 0 = 42" "buf ! 1 = 51" "buf ! 2 = 13" "buf ! 3 = 10"
    and pb: "parseBulk (limits d) buf 4 = Some (p0, n0, x0)"
      "parseBulk (limits d) buf x0 = Some (p1, n1, x1)"
      "parseBulk (limits d) buf x1 = Some (p2, n2, x2)"
    and c: "n0 = length name" "EqualFold (take n0 (drop p0 buf)) name"
    and a: "3 \<le> MaxArguments (limits d)"
    and res: "key = take n1 (drop p1 buf)" "mem = take n2 (drop p2 buf)" "d' = reader_Discard d x2"
    using rp unfolding readBufferedPair_def
    by (simp only: go_res de_Morgan_disj not_not not_less option.inject prod.inject) blast
  have "mutationArgs (limits d) buf 2 x0 = Some ([key, mem], x2)"
    using pb res by (simp add: mutationArgs_2)
  then obtain r where "ReadCommand d = Inr ([take n0 (drop p0 buf), key, mem], r)"
      "r\<lparr>remaining := remaining d\<rparr> = d'"
    using ReadCommand_parsed [OF pk l _ _ _ _ _ pb(1)] h a res(3) by fastforce
  moreover have "length (take n0 (drop p0 buf)) = length name"
    using pb(1) c(1) by (auto simp: parseBulk_def split: if_splits option.splits)
  ultimately show ?thesis using c by blast
qed

lemma mutationCommand_Some:
  assumes "mutationCommand k command = Some (cmd, argc)"
  shows "EqualFold command cmd" and "k = Suc argc" and "argc = 2 \<or> argc = 3"
    and "(cmd, argc) \<in> {(cmd_HSET, 3), (cmd_RPUSH, 2), (cmd_SADD, 2), (cmd_ZADD, 3)}"
  using assms by (auto simp: mutationCommand_def split: if_splits)

lemma ReadBufferedNativeMutation_ReadCommand:
  assumes rm: "ReadBufferedNativeMutation d buffered = Some (cmd, args, d')"
    and l: "Validate (limits d) = Inr ()"
  shows "\<exists>c r. ReadCommand d = Inr (c # args, r) \<and> r\<lparr>remaining := remaining d\<rparr> = d'
    \<and> EqualFold c cmd
    \<and> (cmd, length args) \<in> {(cmd_HSET, 3), (cmd_RPUSH, 2), (cmd_SADD, 2), (cmd_ZADD, 3)}"
proof -
  obtain buf p0 n0 x0 argc x where pk: "peekBuffered d buffered 24 = Some buf"
    and h: "13 \<le> length buf" "buf ! 0 = 42" "buf ! 2 = 13" "buf ! 3 = 10"
    and dg: "\<not> buf ! 1 < 48" "\<not> buf ! 1 > 57"
    and pb: "parseBulk (limits d) buf 4 = Some (p0, n0, x0)"
    and mc: "mutationCommand (digit_val (buf ! 1)) (take n0 (drop p0 buf)) = Some (cmd, argc)"
    and a: "int (digit_val (buf ! 1)) \<le> MaxArguments (limits d)"
    and ma: "mutationArgs (limits d) buf argc x0 = Some (args, x)"
    and res: "d' = reader_Discard d x"
    using rm unfolding ReadBufferedNativeMutation_def Let_def digit_val_def
    by (simp only: go_res de_Morgan_disj not_not not_less option.inject prod.inject) blast
  note mc' = mutationCommand_Some [OF mc]
  have dig: "is_digit (buf ! 1)" using dg is_digit_guard by blast
  have nn: "0 \<le> MaxBulkBytes (limits d)" using l by (simp add: Validate_ok)
  have "length args = argc" using mutationArgs_frames [OF ma nn] by blast
  moreover obtain r where "ReadCommand d = Inr (take n0 (drop p0 buf) # args, r)"
      "r\<lparr>remaining := remaining d\<rparr> = d'"
    using ReadCommand_parsed [OF pk l _ _ dig _ _ pb ma] h mc'(2) a res by auto
  ultimately show ?thesis using mc' by blast
qed

subsection \<open>\<open>Parse\<close>\<close>

lemma NewDecoder_default:
  "NewDecoder input sz e DefaultLimits
    = Inr \<lparr>pending = input, bufSize = sz, endErr = e, limits = DefaultLimits, remaining = 0\<rparr>"
  by (simp add: NewDecoder_def Validate_def DefaultLimits_def)

lemma Parse_resp_array:
  assumes "vs \<noteq> []" and "length vs \<le> 1024" and "\<forall>v \<in> set vs. length v \<le> 32 * 2 ^ 20"
    and "length (resp_array (map formatBulkString vs)) \<le> 64 * 2 ^ 20"
  shows "Parse (resp_array (map formatBulkString vs)) = Inr vs"
proof -
  let ?data = "resp_array (map formatBulkString vs)"
  let ?d = "\<lparr>pending = ?data, bufSize = 4096, endErr = ReadEOF, limits = DefaultLimits, remaining = 0\<rparr>"
  obtain d' where d': "ReadCommand ?d = Inr (vs, d')" "d'\<lparr>remaining := 0\<rparr> = ?d\<lparr>pending := []\<rparr>"
    using ReadCommand_resp_array [of ?d vs "[]"] assms
    by (auto simp: DefaultLimits_def simp del: of_nat_diff)
  have "pending d' = [] \<and> bufSize d' = 4096 \<and> endErr d' = ReadEOF"
    using d'(2) by (cases d') simp
  then have "reader_Peek d' 1 = Inl ReadEOF" by (simp add: reader_Peek_def)
  moreover have "?data \<noteq> []" "?data ! 0 \<noteq> 36" by (simp_all add: resp_array_def)
  moreover have "int (length ?data) \<le> MaxRequestBytes DefaultLimits"
    using assms(4) by (simp add: DefaultLimits_def)
  ultimately show ?thesis using d'(1) by (simp add: Parse_def NewDecoder_default)
qed

lemma Parse_formatBulkString:
  assumes "length v \<le> 32 * 2 ^ 20"
  shows "Parse (formatBulkString v) = Inr [v]"
proof -
  let ?d = "\<lparr>pending = formatBulkString v, bufSize = 4096, endErr = ReadEOF, limits = DefaultLimits,
    remaining = MaxRequestBytes DefaultLimits\<rparr>"
  have f: "bulk_frame DefaultLimits 4096 (formatBulkString v) v"
    using assms by (intro formatBulkString_frame) (auto simp: DefaultLimits_def)
  have len: "int (length (formatBulkString v)) \<le> MaxRequestBytes DefaultLimits"
    using assms length_dec_bytes_20 [of "length v"]
    by (simp add: formatBulkString_def format_int_def DefaultLimits_def)
  have "bulk ?d = Inr (v, ?d\<lparr>pending := [], remaining := remaining ?d - int (length (formatBulkString v))\<rparr>)"
    using f len by (intro bulk_frame_bulk) auto
  then show ?thesis
    using len by (simp add: Parse_def NewDecoder_default reader_Peek_def)
       (simp add: formatBulkString_def)
qed

subsection \<open>Properties\<close>

definition ex_limits :: Limits where
  "ex_limits = \<lparr>MaxRequestBytes = 64, MaxBulkBytes = 16, MaxArguments = 4\<rparr>"

definition ex_decoder :: "bytes \<Rightarrow> Decoder" where
  "ex_decoder input = \<lparr>pending = input, bufSize = 4096, endErr = ReadEOF, limits = ex_limits, remaining = 0\<rparr>"

lemmas ex_simps = ex_limits_def ex_decoder_def

text \<open>C5: a request built by the server's own formatters, \<open>array\<close> of \<open>formatBulkString\<close>, is read
  back by \<open>ReadCommand\<close> as exactly its arguments whatever follows it on the connection, and exactly
  the bytes of the request are consumed, as long as it is within the limits.\<close>

theorem ReadCommand_roundtrip:
  assumes "23 \<le> bufSize d" and "vs \<noteq> []"
    and "pending d = resp_array (map formatBulkString vs) @ rest"
    and "\<forall>v \<in> set vs. int (length v) \<le> MaxBulkBytes (limits d)"
    and "int (length vs) \<le> MaxArguments (limits d)"
    and "int (length (resp_array (map formatBulkString vs))) \<le> MaxRequestBytes (limits d)"
    and "MaxRequestBytes (limits d) < 2 ^ 63"
  shows "\<exists>d'. ReadCommand d = Inr (vs, d') \<and> d'\<lparr>remaining := remaining d\<rparr> = d\<lparr>pending := rest\<rparr>"
  using assms by (rule ReadCommand_resp_array)

theorem ReadCommand_roundtrip_witness:
  "\<exists>d'. ReadCommand (ex_decoder (resp_array (map formatBulkString [[71, 69, 84], [107]]) @ [42]))
      = Inr ([[71, 69, 84], [107]], d') \<and> pending d' = [42]"
proof -
  let ?vs = "[[71, 69, 84], [107]] :: bytes list"
  let ?d = "ex_decoder (resp_array (map formatBulkString ?vs) @ [42])"
  obtain d' where "ReadCommand ?d = Inr (?vs, d')" "d'\<lparr>remaining := remaining ?d\<rparr> = ?d\<lparr>pending := [42]\<rparr>"
    using ReadCommand_roundtrip [of ?d ?vs "[42]"]
    by (auto simp: ex_simps resp_array_def formatBulkString_def format_int_def dec_bytes.simps)
  then show ?thesis by (cases d') (auto simp: ex_decoder_def)
qed

text \<open>C6: whatever bytes arrive, a request that \<open>ReadCommand\<close> accepts has between one and
  \<open>MaxArguments\<close> arguments of at most \<open>MaxBulkBytes\<close> bytes each, and the bytes taken off the
  connection are a prefix of what was pending, no longer than \<open>MaxRequestBytes\<close>.\<close>

theorem ReadCommand_bounded:
  assumes "ReadCommand d = Inr (args, d')" and "Validate (limits d) = Inr ()"
  shows "\<exists>k. pending d = take k (pending d) @ pending d' \<and> int k \<le> MaxRequestBytes (limits d)
    \<and> 1 \<le> length args \<and> int (length args) \<le> MaxArguments (limits d)
    \<and> (\<forall>v \<in> set args. int (length v) \<le> MaxBulkBytes (limits d))"
  using assms by (rule ReadCommand_within_limits)

definition ex_ping :: bytes where
  "ex_ping = [42, 49, 13, 10, 36, 52, 13, 10, 80, 73, 78, 71, 13, 10]"

theorem ReadCommand_bounded_witness:
  "\<exists>d' k. ReadCommand (ex_decoder (ex_ping @ [1])) = Inr ([[80, 73, 78, 71]], d')
    \<and> ex_ping @ [1] = take k (ex_ping @ [1]) @ pending d' \<and> int k \<le> 64"
proof -
  let ?d = "ex_decoder (ex_ping @ [1])"
  obtain d' where r: "ReadCommand ?d = Inr ([[80, 73, 78, 71]], d')"
    by (simp add: ex_simps ex_ping_def ReadCommand_def Let_def reader_Peek_def dec_length_def
        reader_ReadSlice_def bulk_def reader_ReadFull_def readByte_def reader_ReadByte_def unexpected_def)
  have "Validate (limits ?d) = Inr ()" by (simp add: Validate_def ex_simps)
  from ReadCommand_bounded [OF r this] show ?thesis using r by (auto simp: ex_simps)
qed

text \<open>C14: \<open>ReadCommand\<close> reports a clean end of stream exactly when the connection ended and no
  byte of a new request had arrived; a connection that ends inside a request is never reported as a
  clean end.\<close>

theorem ReadCommand_clean_EOF:
  assumes "1 \<le> bufSize d"
  shows "ReadCommand d = Inl ReadEOF \<longleftrightarrow> pending d = [] \<and> endErr d = ReadEOF"
  using assms by (rule ReadCommand_EOF)

theorem ReadCommand_clean_EOF_witness:
  "ReadCommand (ex_decoder []) = Inl ReadEOF \<and> ReadCommand (ex_decoder [42]) \<noteq> Inl ReadEOF"
  using ReadCommand_clean_EOF [of "ex_decoder []"] ReadCommand_clean_EOF [of "ex_decoder [42]"]
  by (simp add: ex_simps)

text \<open>C15: Let the buffered GET fast path accept under validated limits. If \<open>MaxBulkBytes\<close> is at least 3, \<open>ReadCommand\<close> on the
  same decoder succeeds with a GET (in any letter case) of the same key and leaves the same decoder. If it is smaller, which
  \<open>Validate\<close> allows, \<open>ReadCommand\<close> rejects the request at the length of the command name, which the fast path does not check.\<close>

theorem ReadBufferedGET_agrees:
  assumes "ReadBufferedGET d buffered = Some (key, d')" and "Validate (limits d) = Inr ()"
  shows "if 3 \<le> MaxBulkBytes (limits d)
    then \<exists>c r. ReadCommand d = Inr ([c, key], r) \<and> r\<lparr>remaining := remaining d\<rparr> = d' \<and> EqualFold c [71, 69, 84]
    else ReadCommand d = Inl DeclaredLimit"
  using assms by (rule ReadBufferedGET_ReadCommand)

definition ex_get :: bytes where
  "ex_get = [42, 50, 13, 10, 36, 51, 13, 10, 103, 69, 116, 13, 10, 36, 49, 13, 10, 107, 13, 10]"

text \<open>The same decoder under limits that allow bulk strings of one byte only.\<close>

definition ex_small :: "bytes \<Rightarrow> Decoder" where
  "ex_small input = (ex_decoder input)\<lparr>limits := ex_limits\<lparr>MaxBulkBytes := 1\<rparr>\<rparr>"

theorem ReadBufferedGET_agrees_witness:
  "(\<exists>c r. ReadBufferedGET (ex_decoder ex_get) 20 = Some ([107], ex_decoder []) \<and> ReadCommand (ex_decoder ex_get) = Inr ([c, [107]], r))
   \<and> ReadBufferedGET (ex_small ex_get) 20 = Some ([107], ex_small []) \<and> ReadCommand (ex_small ex_get) = Inl DeclaredLimit"
proof -
  have g: "ReadBufferedGET (ex_decoder ex_get) 20 = Some ([107], ex_decoder [])" "ReadBufferedGET (ex_small ex_get) 20 = Some ([107], ex_small [])"
    by (simp_all add: ReadBufferedGET_def ex_simps ex_small_def ex_get_def peekBuffered_def reader_Peek_def
        scanLen.simps reader_Discard_def Let_def)
  then show ?thesis
    using ReadBufferedGET_agrees [OF g(1)] ReadBufferedGET_agrees [OF g(2)] by (auto simp: ex_simps ex_small_def Validate_def)
qed

text \<open>C16: Let the buffered SET fast path accept under validated limits. If \<open>MaxBulkBytes\<close> is at least 3, \<open>ReadCommand\<close> on the
  same decoder succeeds with a SET (in any letter case) of the same key and value and leaves the same decoder. If it is
  smaller, \<open>ReadCommand\<close> rejects the request at the length of the command name, which the fast path does not check.\<close>

theorem ReadBufferedSET_agrees:
  assumes "ReadBufferedSET d buffered = Some (key, val, d')" and "Validate (limits d) = Inr ()"
  shows "if 3 \<le> MaxBulkBytes (limits d)
    then \<exists>c r. ReadCommand d = Inr ([c, key, val], r) \<and> r\<lparr>remaining := remaining d\<rparr> = d' \<and> EqualFold c [83, 69, 84]
    else ReadCommand d = Inl DeclaredLimit"
  using assms by (rule ReadBufferedSET_ReadCommand)

definition ex_set :: bytes where
  "ex_set = [42, 51, 13, 10, 36, 51, 13, 10, 83, 69, 84, 13, 10, 36, 49, 13, 10, 107, 13, 10,
     36, 48, 13, 10, 13, 10]"

theorem ReadBufferedSET_agrees_witness:
  "(\<exists>c r. ReadBufferedSET (ex_decoder ex_set) 26 = Some ([107], [], ex_decoder []) \<and> ReadCommand (ex_decoder ex_set) = Inr ([c, [107], []], r))
   \<and> ReadBufferedSET (ex_small ex_set) 26 = Some ([107], [], ex_small []) \<and> ReadCommand (ex_small ex_set) = Inl DeclaredLimit"
proof -
  have g: "ReadBufferedSET (ex_decoder ex_set) 26 = Some ([107], [], ex_decoder [])" "ReadBufferedSET (ex_small ex_set) 26 = Some ([107], [], ex_small [])"
    by (simp_all add: ReadBufferedSET_def ex_simps ex_small_def ex_set_def peekBuffered_def reader_Peek_def
        scanLen.simps parseBulk_def reader_Discard_def Let_def)
  then show ?thesis
    using ReadBufferedSET_agrees [OF g(1)] ReadBufferedSET_agrees [OF g(2)] by (auto simp: ex_simps ex_small_def Validate_def)
qed

text \<open>C17: the single-member SADD and SISMEMBER fast paths accept only requests that \<open>ReadCommand\<close>
  reads as the same key and member under a name of the same length that folds to the command's, and
  they leave the same decoder.\<close>

theorem ReadBufferedPair_agrees:
  assumes "Validate (limits d) = Inr ()"
    and "cmd = cmd_SADD \<and> ReadBufferedSADD d buffered = Some (key, mem, d')
      \<or> cmd = cmd_SISMEMBER \<and> ReadBufferedSISMEMBER d buffered = Some (key, mem, d')"
  shows "\<exists>c r. ReadCommand d = Inr ([c, key, mem], r) \<and> r\<lparr>remaining := remaining d\<rparr> = d'
    \<and> EqualFold c cmd \<and> length c = length cmd"
  using assms readBufferedPair_ReadCommand
  unfolding ReadBufferedSADD_def ReadBufferedSISMEMBER_def by blast

definition ex_sadd :: bytes where
  "ex_sadd = [42, 51, 13, 10, 36, 52, 13, 10, 115, 65, 68, 68, 13, 10, 36, 49, 13, 10, 107, 13, 10,
     36, 49, 13, 10, 109, 13, 10]"

theorem ReadBufferedPair_agrees_witness:
  "\<exists>c r. ReadBufferedSADD (ex_decoder ex_sadd) 28 = Some ([107], [109], ex_decoder [])
    \<and> ReadCommand (ex_decoder ex_sadd) = Inr ([c, [107], [109]], r)"
proof -
  have g: "ReadBufferedSADD (ex_decoder ex_sadd) 28 = Some ([107], [109], ex_decoder [])"
    by (simp add: ReadBufferedSADD_def readBufferedPair_def ex_simps ex_sadd_def peekBuffered_def
        reader_Peek_def cmd_SADD_def scanLen.simps parseBulk_def reader_Discard_def Let_def)
  then show ?thesis
    using ReadBufferedPair_agrees [of "ex_decoder ex_sadd" cmd_SADD 28 "[107]" "[109]" "ex_decoder []"]
    by (auto simp: ex_simps Validate_def)
qed

text \<open>C18: the native-mutation fast path (HSET, RPUSH, SADD, ZADD) hands over exactly the arguments
  that \<open>ReadCommand\<close> reads, under a name that folds to the command it reports, with the argument
  count that command needs, and leaves the same decoder.\<close>

theorem ReadBufferedNativeMutation_agrees:
  assumes "ReadBufferedNativeMutation d buffered = Some (cmd, args, d')"
    and "Validate (limits d) = Inr ()"
  shows "\<exists>c r. ReadCommand d = Inr (c # args, r) \<and> r\<lparr>remaining := remaining d\<rparr> = d'
    \<and> EqualFold c cmd
    \<and> (cmd, length args) \<in> {(cmd_HSET, 3), (cmd_RPUSH, 2), (cmd_SADD, 2), (cmd_ZADD, 3)}"
  using assms by (rule ReadBufferedNativeMutation_ReadCommand)

theorem ReadBufferedNativeMutation_agrees_witness:
  "\<exists>c r. ReadBufferedNativeMutation (ex_decoder ex_sadd) 28
      = Some (cmd_SADD, [[107], [109]], ex_decoder [])
    \<and> ReadCommand (ex_decoder ex_sadd) = Inr (c # [[107], [109]], r)"
proof -
  have g: "ReadBufferedNativeMutation (ex_decoder ex_sadd) 28
      = Some (cmd_SADD, [[107], [109]], ex_decoder [])"
    by (simp add: ReadBufferedNativeMutation_def ex_simps ex_sadd_def peekBuffered_def
        reader_Peek_def mutationCommand_def cmd_SADD_def cmd_RPUSH_def scanLen.simps parseBulk_def
        reader_Discard_def Let_def mutationArgs_2)
  then show ?thesis
    using ReadBufferedNativeMutation_agrees [OF g] by (auto simp: ex_simps Validate_def)
qed

text \<open>C19: \<open>Parse\<close> inverts the formatters: a complete command array gives back its arguments, and
  a standalone bulk string gives back the one value.\<close>

theorem Parse_inverts_format:
  assumes "vs \<noteq> []" and "length vs \<le> 1024" and "\<forall>v \<in> set vs. length v \<le> 32 * 2 ^ 20"
    and "length (resp_array (map formatBulkString vs)) \<le> 64 * 2 ^ 20"
  shows "Parse (resp_array (map formatBulkString vs)) = Inr vs
    \<and> (\<forall>v \<in> set vs. Parse (formatBulkString v) = Inr [v])"
  using assms Parse_resp_array Parse_formatBulkString by simp

theorem Parse_inverts_format_witness:
  "Parse (resp_array (map formatBulkString [[80, 73, 78, 71], []])) = Inr [[80, 73, 78, 71], []]
    \<and> Parse (formatBulkString []) = Inr [[]]"
  using Parse_inverts_format [of "[[80, 73, 78, 71], []]"]
  by (simp add: resp_array_def formatBulkString_def format_int_def dec_bytes.simps)

end
