(* ===== verification/Glob.thy ===== *)
theory Glob
  imports Prelude
begin

text \<open>
  The byte-oriented glob matcher behind KEYS, SCAN and the MATCH options
  (\<^verbatim>\<open>internal/engine/glob.go\<close>). The model keeps the two cursors of the source: \<open>globMatch\<close> is the
  recursive closure \<^verbatim>\<open>match(pi, vi)\<close> and \<open>classLoop\<close> the loop over a character class. The
  specification reads the pattern as a list of tokens and says declaratively which byte strings a
  token list matches; the main lemma is that the backtracking matcher decides it.
\<close>

subsection \<open>The matcher\<close>

text \<open>One byte of a class, with its backslash escape, and one item of a class: a byte or a range.
  The item is given with the cursor after it and whether the byte \<open>v\<close> is in it.\<close>

definition classByte :: "bytes \<Rightarrow> nat \<Rightarrow> nat \<times> byte" where
  "classByte pattern pi =
     (if pattern ! pi = 92 \<and> pi + 1 < length pattern then (pi + 2, pattern ! (pi + 1))
      else (pi + 1, pattern ! pi))"

definition classItem :: "bytes \<Rightarrow> byte \<Rightarrow> nat \<Rightarrow> nat \<times> bool" where
  "classItem pattern v pi =
     (let (pi2, lo) = classByte pattern pi in
      if pi2 + 1 < length pattern \<and> pattern ! pi2 = 45 \<and> pattern ! (pi2 + 1) \<noteq> 93 then
        let (pi3, hi) = classByte pattern (pi2 + 1) in (pi3, lo \<le> hi \<and> lo \<le> v \<and> v \<le> hi)
      else (pi2, v = lo))"

lemma classItem_gt: "pi < fst (classItem pattern v pi)"
  by (simp add: classItem_def classByte_def Let_def)

function classLoop :: "bytes \<Rightarrow> byte \<Rightarrow> nat \<Rightarrow> bool \<Rightarrow> nat \<times> bool \<times> bool" where
  "classLoop pattern v pi matched =
     (if pi < length pattern then
        if pattern ! pi = 93 then (pi + 1, matched, True)
        else classLoop pattern v (fst (classItem pattern v pi))
               (if snd (classItem pattern v pi) then True else matched)
      else (pi, matched, False))"
  by pat_completeness auto
termination
  by (relation "measure (\<lambda>(pattern, v, pi, matched). length pattern - pi)")
     (auto intro!: diff_less_mono2 classItem_gt)

declare classLoop.simps [simp del]

function skipStars :: "bytes \<Rightarrow> nat \<Rightarrow> nat" where
  "skipStars pattern pi =
     (if pi < length pattern \<and> pattern ! pi = 42 then skipStars pattern (pi + 1) else pi)"
  by pat_completeness auto
termination
  by (relation "measure (\<lambda>(pattern, pi). length pattern - pi)") auto

declare skipStars.simps [simp del]

lemma skipStars_ge: "pi \<le> skipStars pattern pi"
proof (induction pattern pi rule: skipStars.induct)
  case (1 pattern pi)
  then show ?case
    by (cases "pi < length pattern \<and> pattern ! pi = 42") (auto simp: skipStars.simps [of pattern pi])
qed

lemma skipStars_gt:
  "pi < length pattern \<Longrightarrow> pattern ! pi = 42 \<Longrightarrow> pi < skipStars pattern pi"
  using skipStars_ge [of "pi + 1" pattern] by (simp add: skipStars.simps [of pattern pi])

lemma classLoop_ge: "pi \<le> fst (classLoop pattern v pi matched)"
proof (induction pattern v pi matched rule: classLoop.induct)
  case (1 pattern v pi matched)
  show ?case
  proof (cases "pi < length pattern \<and> pattern ! pi \<noteq> 93")
    case True
    then show ?thesis
      using 1 classItem_gt [of pi pattern v] by (subst classLoop.simps) auto
  next
    case False
    then show ?thesis by (subst classLoop.simps) auto
  qed
qed

definition classNegated :: "bytes \<Rightarrow> nat \<Rightarrow> bool" where
  "classNegated pattern pi \<longleftrightarrow> pi + 1 < length pattern
     \<and> (pattern ! (pi + 1) = 94 \<or> pattern ! (pi + 1) = 33)"

definition classAt :: "bytes \<Rightarrow> byte \<Rightarrow> nat \<Rightarrow> nat \<times> bool \<times> bool" where
  "classAt pattern v pi =
     classLoop pattern v (if classNegated pattern pi then pi + 2 else pi + 1) False"

lemma classAt_gt: "pi < fst (classAt pattern v pi)"
  using classLoop_ge [of "pi + 2" pattern v False] classLoop_ge [of "pi + 1" pattern v False]
  by (auto simp: classAt_def)

function globMatch :: "bytes \<Rightarrow> bytes \<Rightarrow> nat \<Rightarrow> nat \<Rightarrow> bool" where
  "globMatch pattern v pi vi =
     (if pi < length pattern then
        if pattern ! pi = 42 then
          let pi' = skipStars pattern pi in
          if pi' \<ge> length pattern then True
          else list_ex (\<lambda>k. globMatch pattern v pi' k) [vi ..< Suc (length v)]
        else if pattern ! pi = 63 then
          (if vi \<ge> length v then False else globMatch pattern v (pi + 1) (vi + 1))
        else if pattern ! pi = 92 then
          (if pi + 1 \<ge> length pattern then
             (if vi \<ge> length v \<or> v ! vi \<noteq> 92 then False
              else globMatch pattern v (pi + 1) (vi + 1))
           else if vi \<ge> length v \<or> v ! vi \<noteq> pattern ! (pi + 1) then False
           else globMatch pattern v (pi + 2) (vi + 1))
        else if pattern ! pi = 91 then
          (if vi \<ge> length v then False
           else if \<not> snd (snd (classAt pattern (v ! vi) pi)) then
             (if v ! vi \<noteq> 91 then False else globMatch pattern v (pi + 1) (vi + 1))
           else if fst (snd (classAt pattern (v ! vi) pi)) = classNegated pattern pi then False
           else globMatch pattern v (fst (classAt pattern (v ! vi) pi)) (vi + 1))
        else (if vi \<ge> length v \<or> v ! vi \<noteq> pattern ! pi then False
              else globMatch pattern v (pi + 1) (vi + 1))
      else vi = length v)"
  by pat_completeness auto
termination
  by (relation "measure (\<lambda>(pattern, v, pi, vi). length pattern - pi)") 
     (auto intro!: diff_less_mono2 skipStars_gt classAt_gt)

declare globMatch.simps [simp del]

definition redisGlobMatch :: "bytes \<Rightarrow> bytes \<Rightarrow> bool" where
  "redisGlobMatch pattern v = globMatch pattern v 0 0"

subsection \<open>Patterns as tokens\<close>

datatype token = Star | AnyByte | Lit byte | ByteClass bool "(byte \<times> byte) list"

text \<open>A class as the documentation describes it: escapes, ranges, single bytes, up to the closing
  bracket. \<open>None\<close> is a class that is never closed.\<close>

fun spec_byte :: "byte \<Rightarrow> bytes \<Rightarrow> byte \<times> bytes" where
  "spec_byte b [] = (b, [])"
| "spec_byte b (c # p) = (if b = 92 then (c, p) else (b, c # p))"

lemma spec_byte_length: "length (snd (spec_byte b p)) \<le> length p"
  by (cases p) auto

definition spec_range :: "bytes \<Rightarrow> bool" where
  "spec_range p \<longleftrightarrow> 1 < length p \<and> p ! 0 = 45 \<and> p ! 1 \<noteq> 93"

function spec_class :: "bytes \<Rightarrow> ((byte \<times> byte) list \<times> bytes) option" where
  "spec_class [] = None"
| "spec_class (b # p) =
     (if b = 93 then Some ([], p)
      else if spec_range (snd (spec_byte b p)) then
        map_option
          (apfst ((#) (fst (spec_byte b p),
            fst (spec_byte (snd (spec_byte b p) ! 1) (drop 2 (snd (spec_byte b p)))))))
          (spec_class (snd (spec_byte (snd (spec_byte b p) ! 1) (drop 2 (snd (spec_byte b p))))))
      else map_option (apfst ((#) (fst (spec_byte b p), fst (spec_byte b p))))
             (spec_class (snd (spec_byte b p))))"
  by pat_completeness auto
termination
proof (relation "measure length", goal_cases)
  case (2 b p)
  then show ?case
    using spec_byte_length [of b p]
      spec_byte_length [of "snd (spec_byte b p) ! 1" "drop 2 (snd (spec_byte b p))"] by auto
next
  case (3 b p)
  then show ?case using spec_byte_length [of b p] by auto
qed simp

lemma spec_class_length: "spec_class p = Some (rs, rest) \<Longrightarrow> length rest < length p"
proof (induction p arbitrary: rs rule: spec_class.induct)
  case 1
  then show ?case by simp
next
  case (2 b p)
  then show ?case
    using spec_byte_length [of b p]
      spec_byte_length [of "snd (spec_byte b p) ! 1" "drop 2 (snd (spec_byte b p))"]
    by (fastforce split: if_splits)
qed

definition spec_negated :: "bytes \<Rightarrow> bool" where
  "spec_negated p \<longleftrightarrow> p \<noteq> [] \<and> (p ! 0 = 94 \<or> p ! 0 = 33)"

function tokens :: "bytes \<Rightarrow> token list" where
  "tokens [] = []"
| "tokens (b # p) =
     (if b = 42 then Star # tokens p
      else if b = 63 then AnyByte # tokens p
      else if b = 92 then (case p of [] \<Rightarrow> [Lit 92] | c # p' \<Rightarrow> Lit c # tokens p')
      else if b = 91 then
        (case spec_class (if spec_negated p then drop 1 p else p) of
           None \<Rightarrow> Lit 91 # tokens p
         | Some (rs, rest) \<Rightarrow> ByteClass (spec_negated p) rs # tokens rest)
      else Lit b # tokens p)"
  by pat_completeness auto
termination
  by (relation "measure length") (auto dest!: spec_class_length split: if_splits)

fun in_class :: "(byte \<times> byte) list \<Rightarrow> byte \<Rightarrow> bool" where
  "in_class [] c \<longleftrightarrow> False"
| "in_class ((lo, hi) # rs) c \<longleftrightarrow> (lo \<le> c \<and> c \<le> hi) \<or> in_class rs c"

inductive matches :: "token list \<Rightarrow> bytes \<Rightarrow> bool" where
  m_Nil: "matches [] []"
| m_Star: "matches ts w \<Longrightarrow> matches (Star # ts) (u @ w)"
| m_Any: "matches ts w \<Longrightarrow> matches (AnyByte # ts) (c # w)"
| m_Lit: "matches ts w \<Longrightarrow> matches (Lit c # ts) (c # w)"
| m_Class: "matches ts w \<Longrightarrow> in_class rs c \<noteq> neg
    \<Longrightarrow> matches (ByteClass neg rs # ts) (c # w)"

inductive_simps matches_simps [simp]:
  "matches [] w" "matches (AnyByte # ts) w" "matches (Lit c # ts) w" "matches (ByteClass neg rs # ts) w"

inductive_cases matches_StarE: "matches (Star # ts) w"

lemma matches_Star: "matches (Star # ts) w \<longleftrightarrow> (\<exists>k \<le> length w. matches ts (drop k w))"
proof
  assume "matches (Star # ts) w"
  then obtain u w' where "w = u @ w'" "matches ts w'" by (rule matches_StarE)
  then show "\<exists>k \<le> length w. matches ts (drop k w)" by (intro exI [of _ "length u"]) simp
next
  assume "\<exists>k \<le> length w. matches ts (drop k w)"
  then obtain k where "matches ts (drop k w)" by blast
  then have "matches (Star # ts) (take k w @ drop k w)" by (rule m_Star)
  then show "matches (Star # ts) w" by simp
qed

lemma matches_Star_Star: "matches (Star # Star # ts) w \<longleftrightarrow> matches (Star # ts) w"
proof
  assume "matches (Star # Star # ts) w"
  then obtain k where "k \<le> length w" "matches (Star # ts) (drop k w)" by (auto simp: matches_Star)
  then obtain j where "j \<le> length w - k" "matches ts (drop j (drop k w))"
    by (auto simp: matches_Star)
  then show "matches (Star # ts) w"
    using \<open>k \<le> length w\<close> unfolding matches_Star by (intro exI [of _ "j + k"]) auto
next
  assume "matches (Star # ts) w"
  then have "matches (Star # Star # ts) ([] @ w)" by (rule m_Star)
  then show "matches (Star # Star # ts) w" by simp
qed

subsection \<open>The matcher decides the token semantics\<close>

lemma drop_nth: "i < length xs \<Longrightarrow> drop i xs = xs ! i # drop (Suc i) xs"
  by (simp add: Cons_nth_drop_Suc)

lemma classByte_spec:
  "pi < length pattern \<Longrightarrow>
    spec_byte (pattern ! pi) (drop (Suc pi) pattern)
      = (snd (classByte pattern pi), drop (fst (classByte pattern pi)) pattern)"
  by (cases "Suc pi < length pattern") (auto simp: classByte_def drop_nth [of "Suc pi"])

lemma spec_range_drop:
  "spec_range (drop i p) \<longleftrightarrow> i + 1 < length p \<and> p ! i = 45 \<and> p ! (i + 1) \<noteq> 93"
  by (auto simp: spec_range_def)

lemma classItem_spec:
  assumes "pi < length pattern" and "pattern ! pi \<noteq> 93"
  shows "\<exists>lo hi. spec_class (drop pi pattern)
      = map_option (apfst ((#) (lo, hi))) (spec_class (drop (fst (classItem pattern v pi)) pattern))
    \<and> snd (classItem pattern v pi) = (lo \<le> v \<and> v \<le> hi)"
proof -
  let ?i = "fst (classByte pattern pi)" and ?lo = "snd (classByte pattern pi)"
  note b = classByte_spec [OF assms(1)]
  show ?thesis
  proof (cases "spec_range (drop ?i pattern)")
    case True
    then have r: "?i + 1 < length pattern" by (simp add: spec_range_drop)
    have "spec_class (drop pi pattern)
        = map_option (apfst ((#) (?lo, snd (classByte pattern (?i + 1)))))
            (spec_class (drop (fst (classByte pattern (?i + 1))) pattern))"
      using True assms b r classByte_spec [OF r]
      by (simp add: drop_nth [OF assms(1)] numeral_2_eq_2 add.commute)
    moreover have "classItem pattern v pi = (fst (classByte pattern (?i + 1)),
        ?lo \<le> snd (classByte pattern (?i + 1)) \<and> ?lo \<le> v \<and> v \<le> snd (classByte pattern (?i + 1)))"
      using True by (simp add: classItem_def spec_range_drop case_prod_beta)
    ultimately show ?thesis by fastforce
  next
    case False
    have "spec_class (drop pi pattern)
        = map_option (apfst ((#) (?lo, ?lo))) (spec_class (drop ?i pattern))"
      using False assms b by (simp add: drop_nth [OF assms(1)])
    moreover have "classItem pattern v pi = (?i, v = ?lo)"
      using False by (auto simp: classItem_def spec_range_drop case_prod_beta)
    ultimately show ?thesis by fastforce
  qed
qed

lemma classLoop_spec:
  "(spec_class (drop pi pattern) = None \<longrightarrow> \<not> snd (snd (classLoop pattern v pi matched)))
   \<and> (\<forall>rs rest. spec_class (drop pi pattern) = Some (rs, rest) \<longrightarrow>
        classLoop pattern v pi matched = (length pattern - length rest,
          matched \<or> in_class rs v, True)
        \<and> drop (length pattern - length rest) pattern = rest)"
proof (induction pattern v pi matched rule: classLoop.induct)
  case (1 pattern v pi matched)
  note eq = classLoop.simps [of pattern v pi matched]
  show ?case
  proof (cases "pi < length pattern")
    case False
    then show ?thesis by (simp add: eq)
  next
    case pi: True
    show ?thesis
    proof (cases "pattern ! pi = 93")
      case True
      then show ?thesis using pi by (simp add: eq drop_nth [OF pi])
    next
      case False
      let ?pi = "fst (classItem pattern v pi)"
      let ?m = "if snd (classItem pattern v pi) then True else matched"
      obtain lo hi where sc: "spec_class (drop pi pattern)
          = map_option (apfst ((#) (lo, hi))) (spec_class (drop ?pi pattern))"
        and hit: "snd (classItem pattern v pi) = (lo \<le> v \<and> v \<le> hi)"
        using classItem_spec [OF pi False] by blast
      have e: "classLoop pattern v pi matched = classLoop pattern v ?pi ?m"
        using pi False by (simp add: eq)
      show ?thesis
        using "1.IH" [OF pi False] unfolding e sc
        by (cases "spec_class (drop ?pi pattern)") (auto simp: hit)
    qed
  qed
qed

lemma classAt_spec:
  assumes "pi < length pattern"
  defines "p \<equiv> drop (Suc pi) pattern"
  shows "spec_class (if spec_negated p then drop 1 p else p) = None
      \<Longrightarrow> \<not> snd (snd (classAt pattern c pi))"
    and "spec_class (if spec_negated p then drop 1 p else p) = Some (rs, rest)
      \<Longrightarrow> snd (snd (classAt pattern c pi))
        \<and> fst (snd (classAt pattern c pi)) = in_class rs c
        \<and> drop (fst (classAt pattern c pi)) pattern = rest"
    and "classNegated pattern pi = spec_negated p"
proof -
  show neg: "classNegated pattern pi = spec_negated p"
    using assms by (auto simp: classNegated_def spec_negated_def)
  let ?st = "if classNegated pattern pi then pi + 2 else pi + 1"
  have st: "(if spec_negated p then drop 1 p else p) = drop ?st pattern"
    using neg by (auto simp: p_def)
  note sp = classLoop_spec [where pattern = pattern and v = c and pi = ?st and matched = False]
  show "spec_class (if spec_negated p then drop 1 p else p) = None
      \<Longrightarrow> \<not> snd (snd (classAt pattern c pi))"
    using sp unfolding st classAt_def by blast
  show "spec_class (if spec_negated p then drop 1 p else p) = Some (rs, rest)
      \<Longrightarrow> snd (snd (classAt pattern c pi))
        \<and> fst (snd (classAt pattern c pi)) = in_class rs c
        \<and> drop (fst (classAt pattern c pi)) pattern = rest"
    using sp unfolding st classAt_def by auto
qed

lemma skipStars_tokens:
  "pi < length pattern \<Longrightarrow> pattern ! pi = 42 \<Longrightarrow>
    matches (tokens (drop pi pattern)) w
      \<longleftrightarrow> matches (Star # tokens (drop (skipStars pattern pi) pattern)) w"
proof (induction pattern pi arbitrary: w rule: skipStars.induct)
  case (1 pattern pi)
  have t: "tokens (drop pi pattern) = Star # tokens (drop (Suc pi) pattern)"
    using "1.prems" by (simp add: drop_nth)
  have s: "skipStars pattern pi = skipStars pattern (Suc pi)"
    using "1.prems" by (simp add: skipStars.simps [of pattern pi])
  let ?ts = "tokens (drop (skipStars pattern (Suc pi)) pattern)"
  show ?case
  proof (cases "Suc pi < length pattern \<and> pattern ! Suc pi = 42")
    case True
    then have "matches (tokens (drop (Suc pi) pattern)) u \<longleftrightarrow> matches (Star # ?ts) u" for u
      using "1.IH" "1.prems" by simp
    then have "matches (Star # tokens (drop (Suc pi) pattern)) w \<longleftrightarrow> matches (Star # Star # ?ts) w"
      by (simp add: matches_Star [of "tokens _"] matches_Star [of "Star # _"])
    then show ?thesis unfolding t s matches_Star_Star .
  next
    case False
    then have "skipStars pattern (Suc pi) = Suc pi" by (subst skipStars.simps) auto
    then show ?thesis unfolding t s by simp
  qed
qed

lemma globMatch_matches:
  "vi \<le> length v \<Longrightarrow> globMatch pattern v pi vi \<longleftrightarrow> matches (tokens (drop pi pattern)) (drop vi v)"
proof (induction pattern v pi vi rule: globMatch.induct)
  case (1 pattern v pi vi)
  note eq = globMatch.simps [of pattern v pi vi]
  show ?case
  proof (cases "pi < length pattern")
    case False
    then show ?thesis using "1.prems" by (auto simp: eq)
  next
    case pi: True
    note d = drop_nth [OF pi]
    note IH = "1.IH" [OF pi]
    show ?thesis
    proof (cases "pattern ! pi = 42")
      case True
      let ?pi = "skipStars pattern pi"
      have m: "matches (tokens (drop pi pattern)) (drop vi v)
          \<longleftrightarrow> (\<exists>k \<le> length v - vi. matches (tokens (drop ?pi pattern)) (drop k (drop vi v)))"
        by (simp add: skipStars_tokens [OF pi True] matches_Star)
      show ?thesis
      proof (cases "?pi < length pattern")
        case False
        then show ?thesis using pi True unfolding m by (auto simp: eq intro: exI [of _ "length v - vi"])
      next
        case lt: True
        have rec: "globMatch pattern v ?pi k \<longleftrightarrow> matches (tokens (drop ?pi pattern)) (drop k v)"
          if "vi \<le> k" "k \<le> length v" for k
          using IH(1) [OF True refl] lt that by (cases "k = length v") auto
        have "globMatch pattern v pi vi \<longleftrightarrow> (\<exists>k. vi \<le> k \<and> k \<le> length v \<and> globMatch pattern v ?pi k)"
          using pi True lt by (auto simp: eq list_ex_iff Let_def less_Suc_eq_le)
        also have "\<dots> \<longleftrightarrow> (\<exists>k. vi \<le> k \<and> k \<le> length v \<and> matches (tokens (drop ?pi pattern)) (drop k v))"
          using rec by blast
        also have "\<dots> \<longleftrightarrow> matches (tokens (drop pi pattern)) (drop vi v)"
          unfolding m
        proof (intro iffI; elim exE conjE)
          fix k assume "vi \<le> k" "k \<le> length v" "matches (tokens (drop ?pi pattern)) (drop k v)"
          then show "\<exists>j \<le> length v - vi. matches (tokens (drop ?pi pattern)) (drop j (drop vi v))"
            by (intro exI [of _ "k - vi"]) auto
        next
          fix j assume "j \<le> length v - vi" "matches (tokens (drop ?pi pattern)) (drop j (drop vi v))"
          then show "\<exists>k. vi \<le> k \<and> k \<le> length v \<and> matches (tokens (drop ?pi pattern)) (drop k v)"
            using "1.prems" by (intro exI [of _ "j + vi"]) auto
        qed
        finally show ?thesis .
      qed
    next
      case ns: False
      show ?thesis
      proof (cases "vi < length v")
        case False
        then have "drop vi v = []" by simp
        then show ?thesis using pi ns False
          by (auto simp: eq d split: list.splits option.splits if_splits)
      next
        case vi: True
        note dv = drop_nth [OF vi]
        let ?p = "drop (Suc pi) pattern"
        consider (any) "pattern ! pi = 63" | (esc) "pattern ! pi = 92" | (cls) "pattern ! pi = 91"
          | (lit) "pattern ! pi \<notin> {42, 63, 92, 91}" using ns by auto
        then show ?thesis
        proof cases
          case any
          then show ?thesis using pi vi IH(2) [OF ns any] by (simp add: eq d dv)
        next
          case esc
          then have e: "pattern ! pi \<noteq> 63" by simp
          show ?thesis
          proof (cases "Suc pi < length pattern")
            case True
            then show ?thesis
              using pi vi esc IH(4) [OF ns e esc] by (auto simp: eq d dv drop_nth [OF True])
          next
            case False
            then show ?thesis using pi vi esc IH(3) [OF ns e esc] by (auto simp: eq d dv)
          qed
        next
          case cls
          note ca = classAt_spec(1,2) [OF pi, where c = "v ! vi"] classAt_spec(3) [OF pi]
          show ?thesis
          proof (cases "spec_class (if spec_negated ?p then drop 1 ?p else ?p)")
            case None
            then show ?thesis using pi vi ns cls ca(1) IH(5) by (auto simp: eq d dv)
          next
            case (Some r)
            then obtain rs rest where r: "r = (rs, rest)" by (cases r)
            then show ?thesis
              using pi vi ns cls ca(2) [OF Some [unfolded r]] ca(3) Some IH(6) by (auto simp: eq d dv)
          qed
        next
          case lit
          then show ?thesis using pi vi IH(7) by (auto simp: eq d dv)
        qed
      qed
    qed
  qed
qed

subsection \<open>Properties\<close>

text \<open>C7: the glob matcher is correct and complete for the documented pattern language: it accepts a
  byte string exactly when the token list of the pattern matches it, with a star standing for any
  run of bytes, an unterminated class for a literal bracket and a trailing backslash for itself.\<close>

theorem redisGlobMatch_correct:
  "redisGlobMatch pattern v \<longleftrightarrow> matches (tokens pattern) v"
  by (simp add: redisGlobMatch_def globMatch_matches)

end
