(* ===== verification/KeyPack.thy ===== *)
theory KeyPack
  imports Prelude
begin

text \<open>
  Key records of the index (\<^verbatim>\<open>internal/index/keypack.go\<close> and the record helpers of
  \<^verbatim>\<open>internal/index/table.go\<close>). A key is logged raw, as a varint length and its bytes, or, when its
  tail is a hex string and that saves space, in an escaped form that stores two hex digits per byte.
  Offsets into the log are modelled by handing the functions the rest of the log from the record on.
  \<open>None\<close> is the result of a read that leaves the log or meets a varint that does not decode; no
  record written by this code gives it.
\<close>

subsection \<open>Hex tables\<close>

definition hexNibble :: "byte \<Rightarrow> byte" where
  "hexNibble c = (if 48 \<le> c \<and> c \<le> 57 then c - 48
     else if 97 \<le> c \<and> c \<le> 102 then c - 97 + 10
     else if 65 \<le> c \<and> c \<le> 70 then c - 65 + 10 else - 1)"

definition hexClass :: "byte \<Rightarrow> byte" where
  "hexClass c = (if 48 \<le> c \<and> c \<le> 57 then 1
     else if 97 \<le> c \<and> c \<le> 102 then 2
     else if 65 \<le> c \<and> c \<le> 70 then 4 else 0)"

definition hexLower :: bytes where
  "hexLower = [48, 49, 50, 51, 52, 53, 54, 55, 56, 57, 97, 98, 99, 100, 101, 102]"

definition hexUpper :: bytes where
  "hexUpper = [48, 49, 50, 51, 52, 53, 54, 55, 56, 57, 65, 66, 67, 68, 69, 70]"

definition hexPairLower :: "byte \<Rightarrow> byte \<times> byte" where
  "hexPairLower i = (hexLower ! unat (drop_bit 4 i), hexLower ! unat (i AND 15))"

definition hexPairUpper :: "byte \<Rightarrow> byte \<times> byte" where
  "hexPairUpper i = (hexUpper ! unat (drop_bit 4 i), hexUpper ! unat (i AND 15))"

definition hexWord :: "byte \<times> byte \<Rightarrow> u16" where
  "hexWord p = (ucast (fst p) OR push_bit 8 (ucast (snd p)))"

subsection \<open>Analysis of a key\<close>

fun uvarintLen :: "nat \<Rightarrow> nat" where
  "uvarintLen n = (if n \<ge> 128 then Suc (uvarintLen (n div 128)) else 1)"

declare uvarintLen.simps [simp del]

definition recordBytes :: "nat \<Rightarrow> nat" where
  "recordBytes keyLen = uvarintLen keyLen + keyLen"

record packedKey =
  pk_flags :: byte
  pk_prefix :: bytes
  pk_digits :: bytes
  pk_size :: nat

text \<open>The scan for the longest run of hex digits at the end of the key.\<close>

fun hexTail :: "bytes \<Rightarrow> nat \<Rightarrow> byte \<Rightarrow> nat \<times> byte" where
  "hexTail key 0 seen = (0, seen)"
| "hexTail key (Suc s) seen =
     (if hexClass (key ! s) = 0 then (Suc s, seen) else hexTail key s (seen OR hexClass (key ! s)))"

definition seenFrom :: "bytes \<Rightarrow> nat \<Rightarrow> byte" where
  "seenFrom key s = foldl (\<lambda>a i. a OR hexClass (key ! i)) 0 [s ..< length key]"

definition packKey :: "bytes \<Rightarrow> packedKey option" where
  "packKey key =
     (let n = length key in
      if n < 16 then None
      else let (s0, seen0) = hexTail key n 0 in
      if n - s0 < 16 then None
      else let (s, seen) = (if (n - s0) mod 2 = 1 then (s0 + 1, seenFrom key (s0 + 1)) else (s0, seen0));
               digits = drop s key in
      if length digits > 128 then None
      else let has0x = (s \<ge> 2 \<and> key ! (s - 2) = 48 \<and> key ! (s - 1) = 120);
               end = (if has0x then s - 2 else s);
               flags = (if has0x then 4 else 0 :: byte) in
      if end > 255 then None
      else let flags = (if end > 0 then flags OR 8 else flags);
               flags = (if seen AND 2 \<noteq> 0 \<and> seen AND 4 \<noteq> 0 then flags OR 2
                        else if seen AND 4 \<noteq> 0 then flags OR 1 else flags);
               nbytes = length digits div 2;
               sz = 2 + uvarintLen nbytes + nbytes;
               sz = (if end > 0 then sz + (1 + end) else sz);
               sz = (if flags AND 3 = 2 then sz + (length digits + 7) div 8 else sz) in
      if sz \<ge> recordBytes n then None
      else Some \<lparr>pk_flags = flags, pk_prefix = take end key, pk_digits = digits, pk_size = sz\<rparr>)"

definition KeyRecordSize :: "bytes \<Rightarrow> nat" where
  "KeyRecordSize key =
     (if length key = 0 then 2
      else case packKey key of Some p \<Rightarrow> pk_size p | None \<Rightarrow> recordBytes (length key))"

definition PackedKeySize :: "bytes \<Rightarrow> nat option" where
  "PackedKeySize key = map_option pk_size (packKey key)"

subsection \<open>Writing a record\<close>

fun maskLoop :: "bytes \<Rightarrow> nat \<Rightarrow> bytes \<Rightarrow> bytes" where
  "maskLoop [] i msk = msk"
| "maskLoop (d # ds) i msk =
     maskLoop ds (Suc i)
       (if hexClass d = 4 then msk[i div 8 := msk ! (i div 8) OR push_bit (i mod 8) 1] else msk)"

definition payloadByte :: "byte \<Rightarrow> byte \<Rightarrow> byte" where
  "payloadByte a b = (push_bit 4 (hexNibble a) OR hexNibble b)"

definition appendTo :: "packedKey \<Rightarrow> bytes \<Rightarrow> bytes" where
  "appendTo p dst =
     (let nbytes = length (pk_digits p) div 2 in
      dst @ [0, pk_flags p]
        @ (if pk_flags p AND 8 \<noteq> 0 then word_of_nat (length (pk_prefix p)) # pk_prefix p else [])
        @ uvarint_put nbytes
        @ (if pk_flags p AND 3 = 2
           then maskLoop (pk_digits p) 0 (replicate ((length (pk_digits p) + 7) div 8) 0) else [])
        @ map (\<lambda>i. payloadByte (pk_digits p ! (2 * i)) (pk_digits p ! (2 * i + 1))) [0 ..< nbytes])"

text \<open>The bytes \<open>Table.appendKey\<close> adds to the log for a key.\<close>

definition keyRecordOf :: "bytes \<Rightarrow> bytes" where
  "keyRecordOf key =
     (case packKey key of
        Some p \<Rightarrow> appendTo p []
      | None \<Rightarrow> if length key = 0 then [0, 255] else uvarint_put (length key) @ key)"

subsection \<open>Reading a record\<close>

record packedParts =
  pp_flags :: byte
  pp_prefix :: bytes
  pp_mask :: bytes
  pp_payload :: bytes
  pp_total :: nat

definition parse :: "bytes \<Rightarrow> packedParts option" where
  "parse r =
     (if length r < 2 then None
      else let flags = r ! 1 in
      if flags = 255 then Some \<lparr>pp_flags = flags, pp_prefix = [], pp_mask = [], pp_payload = [], pp_total = 2\<rparr>
      else case (if flags AND 8 \<noteq> 0 then
                   (if length r < 3 then None
                    else let n = unat (r ! 2) in
                      map_option (\<lambda>p. (p, 3 + n)) (slice r 3 (3 + n)))
                 else Some ([], 2)) of
        None \<Rightarrow> None
      | Some (prefix, i) \<Rightarrow>
          let (nbytes, w) = uvarint_get (drop i r); i1 = i + nat w;
              m = (if flags AND 3 = 2 then (nbytes * 2 + 7) div 8 else 0) in
          if w \<le> 0 then None
          else case slice r i1 (i1 + m) of
            None \<Rightarrow> None
          | Some msk \<Rightarrow>
              (case slice r (i1 + m) (i1 + m + nbytes) of
                 None \<Rightarrow> None
               | Some payload \<Rightarrow>
                   Some \<lparr>pp_flags = flags, pp_prefix = prefix, pp_mask = msk, pp_payload = payload,
                      pp_total = i1 + m + nbytes\<rparr>))"

text \<open>The digits of a parsed record. Mixed case is written in lower case first and the flagged
  letters are then raised by clearing bit 5.\<close>

definition maskBits :: "packedParts \<Rightarrow> nat \<Rightarrow> byte" where
  "maskBits p j = drop_bit (2 * (j mod 4)) (pp_mask p ! (j div 4)) AND 3"

definition digitPair :: "packedParts \<Rightarrow> nat \<Rightarrow> byte \<times> byte" where
  "digitPair p j =
     (let (a, b) = (if pp_flags p AND 3 = 1 then hexPairUpper (pp_payload p ! j)
                    else hexPairLower (pp_payload p ! j)) in
      if pp_flags p AND 3 = 2
      then (a - push_bit 5 (maskBits p j AND 1), b - push_bit 5 (drop_bit 1 (maskBits p j)))
      else (a, b))"

definition parts_appendKey :: "packedParts \<Rightarrow> bytes \<Rightarrow> bytes" where
  "parts_appendKey p dst =
     (if pp_flags p = 255 then dst
      else dst @ pp_prefix p @ (if pp_flags p AND 4 \<noteq> 0 then [48, 120] else [])
        @ concat (map (\<lambda>j. [fst (digitPair p j), snd (digitPair p j)]) [0 ..< length (pp_payload p)]))"

definition keyLen :: "packedParts \<Rightarrow> nat" where
  "keyLen p =
     (if pp_flags p = 255 then 0
      else length (pp_prefix p) + 2 * length (pp_payload p) + (if pp_flags p AND 4 \<noteq> 0 then 2 else 0))"

text \<open>The 16-bit comparison of \<open>equals\<close>: one table word per payload byte, lowered by the mask.\<close>

definition wantWord :: "packedParts \<Rightarrow> nat \<Rightarrow> u16" where
  "wantWord p j =
     (let w = hexWord (if pp_flags p AND 3 = 1 then hexPairUpper (pp_payload p ! j)
                       else hexPairLower (pp_payload p ! j)) in
      if pp_flags p AND 3 = 2
      then w - (ucast (maskBits p j AND 1) * 32 + push_bit 13 (ucast (drop_bit 1 (maskBits p j))))
      else w)"

definition parts_equals :: "packedParts \<Rightarrow> bytes \<Rightarrow> bool" where
  "parts_equals p key =
     (if pp_flags p = 255 then length key = 0
      else let i = length (pp_prefix p); x = pp_flags p AND 4 \<noteq> 0 in
        if i + 2 * length (pp_payload p) + (if x then 2 else 0) \<noteq> length key then False
        else if pp_prefix p \<noteq> take i key then False
        else if x \<and> (key ! i \<noteq> 48 \<or> key ! (i + 1) \<noteq> 120) then False
        else let rest = drop (if x then i + 2 else i) key in
          list_all (\<lambda>j. hexWord (rest ! (2 * j), rest ! (2 * j + 1)) = wantWord p j)
            [0 ..< length (pp_payload p)])"

subsection \<open>Records in the log\<close>

definition rawHeader :: "bytes \<Rightarrow> (nat \<times> nat) option" where
  "rawHeader r =
     (case r of [] \<Rightarrow> None
      | b # _ \<Rightarrow>
          if b < 128 then Some (1, unat b)
          else let (v, w) = uvarint_get r in if w \<le> 0 then None else Some (nat w, v))"

definition recordLen :: "bytes \<Rightarrow> nat option" where
  "recordLen r =
     (case r of [] \<Rightarrow> None
      | b # _ \<Rightarrow>
          if b = 0 then map_option pp_total (parse r)
          else map_option (\<lambda>(w, n). w + n) (rawHeader r))"

definition keyAt :: "bytes \<Rightarrow> bytes option" where
  "keyAt r =
     (case r of [] \<Rightarrow> None
      | b # _ \<Rightarrow>
          if b = 0 then map_option (\<lambda>p. parts_appendKey p []) (parse r)
          else (case rawHeader r of None \<Rightarrow> None | Some (w, n) \<Rightarrow> slice r w (w + n)))"

definition keyEquals :: "bytes \<Rightarrow> bytes \<Rightarrow> bool option" where
  "keyEquals r key =
     (case r of [] \<Rightarrow> None
      | b # _ \<Rightarrow>
          if b = 0 then map_option (\<lambda>p. parts_equals p key) (parse r)
          else (case rawHeader r of None \<Rightarrow> None
            | Some (w, n) \<Rightarrow>
                if n \<noteq> length key then Some False
                else map_option (\<lambda>k. k = key) (slice r w (w + n))))"

definition KeyLen :: "bytes \<Rightarrow> nat option" where
  "KeyLen r =
     (case r of [] \<Rightarrow> None
      | b # _ \<Rightarrow> if b = 0 then map_option keyLen (parse r) else map_option snd (rawHeader r))"

text \<open>
  Iteration decodes packed keys into a chunk of backing memory; a new chunk replaces one that is
  full. The string handed out is the part of the chunk just written.
\<close>

record keyChunk =
  ck_buf :: bytes
  ck_cap :: nat

definition chunk_decode :: "keyChunk \<Rightarrow> bytes \<Rightarrow> (bytes \<times> keyChunk) option" where
  "chunk_decode c r =
     (case parse r of None \<Rightarrow> None
      | Some parts \<Rightarrow>
          if pp_flags parts = 255 then Some ([], c)
          else let n = length (pp_prefix parts) + 2 * length (pp_payload parts)
                       + (if pp_flags parts AND 4 \<noteq> 0 then 2 else 0);
                   c1 = (if ck_cap c - length (ck_buf c) < n
                         then \<lparr>ck_buf = [], ck_cap = (if n > 8192 then n else 8192)\<rparr> else c);
                   start = length (ck_buf c1);
                   buf = parts_appendKey parts (ck_buf c1) in
            map_option (\<lambda>k. (k, \<lparr>ck_buf = buf, ck_cap = ck_cap c1\<rparr>)) (slice buf start (start + n)))"

definition keyChunked :: "keyChunk \<Rightarrow> bytes \<Rightarrow> (bytes \<times> keyChunk) option" where
  "keyChunked c r =
     (case r of [] \<Rightarrow> None
      | b # _ \<Rightarrow> if b = 0 then chunk_decode c r else map_option (\<lambda>k. (k, c)) (keyAt r))"

subsection \<open>Hex digits\<close>

lemma byte_range:
  assumes "a \<le> unat c" "unat c < b"
  shows "c \<in> set (map word_of_nat [a ..< b] :: bytes)"
  using assms by (auto intro!: image_eqI [of _ _ "unat c"])

lemma hex_digit_range: "48 \<le> c \<and> c \<le> 57 \<Longrightarrow> c \<in> set (take 10 hexLower)"
  using byte_range [of 48 c 58] by (simp add: word_le_nat_alt hexLower_def upt_rec_numeral del: set_upt)

lemma hex_lower_range: "97 \<le> c \<and> c \<le> 102 \<Longrightarrow> c \<in> set (drop 10 hexLower)"
  using byte_range [of 97 c 103] by (simp add: word_le_nat_alt hexLower_def upt_rec_numeral del: set_upt)

lemma hex_upper_range: "65 \<le> c \<and> c \<le> 70 \<Longrightarrow> c \<in> set (drop 10 hexUpper)"
  using byte_range [of 65 c 71] by (simp add: word_le_nat_alt hexUpper_def upt_rec_numeral del: set_upt)

lemma hexClass_cases:
  assumes "hexClass c \<noteq> 0"
  obtains (digit) "hexClass c = 1" "c \<in> set (take 10 hexLower)"
    | (lower) "hexClass c = 2" "c \<in> set (drop 10 hexLower)"
    | (upper) "hexClass c = 4" "c \<in> set (drop 10 hexUpper)"
  using assms hex_digit_range hex_lower_range hex_upper_range
  unfolding hexClass_def by (auto split: if_splits)

lemma hex_digit_facts:
  "\<forall>c \<in> set (take 10 hexLower). hexNibble c < 16 \<and> hexLower ! unat (hexNibble c) = c \<and> hexUpper ! unat (hexNibble c) = c"
  by (simp add: hexLower_def hexUpper_def hexNibble_def)

lemma hex_lower_facts:
  "\<forall>c \<in> set (drop 10 hexLower). hexNibble c < 16 \<and> hexLower ! unat (hexNibble c) = c"
  by (simp add: hexLower_def hexNibble_def)

lemma hex_upper_facts:
  "\<forall>c \<in> set (drop 10 hexUpper). hexNibble c < 16 \<and> hexLower ! unat (hexNibble c) - 32 = c
     \<and> hexUpper ! unat (hexNibble c) = c"
  by (simp add: hexLower_def hexUpper_def hexNibble_def)

lemma hexNibble_less: "hexClass c \<noteq> 0 \<Longrightarrow> hexNibble c < 16"
  using hex_digit_facts hex_lower_facts hex_upper_facts by (elim hexClass_cases) blast+

lemma hexLower_nibble: "hexClass c \<noteq> 0 \<Longrightarrow> hexLower ! unat (hexNibble c) - (if hexClass c = 4 then 32 else 0) = c"
  using hex_digit_facts hex_lower_facts hex_upper_facts by (elim hexClass_cases) simp_all

lemma hexUpper_nibble: "hexClass c \<noteq> 0 \<Longrightarrow> hexClass c \<noteq> 2 \<Longrightarrow> hexUpper ! unat (hexNibble c) = c"
  using hex_digit_facts hex_upper_facts by (elim hexClass_cases) simp_all

lemma hexLower_ge:
  assumes "n < 16"
  shows "32 \<le> unat (hexLower ! n)"
proof -
  have "\<forall>c \<in> set hexLower. 32 \<le> unat c" by (simp add: hexLower_def)
  moreover have "hexLower ! n \<in> set hexLower" using assms by (intro nth_mem) (simp add: hexLower_def)
  ultimately show ?thesis by blast
qed

lemma byte_high_bit: 
  assumes "x < (16 :: byte)" "4 \<le> k" shows "\<not> bit x k"
proof -
  have "unat x < 2 ^ 4" using assms(1) by (simp add: word_less_nat_alt)
  also have "(2::nat) ^ 4 \<le> 2 ^ k" using assms(2) by (rule power_increasing) simp
  finally have "\<not> bit (unat x) k" by (simp add: bit_iff_odd)
  then show ?thesis by (simp add: bit_unsigned_iff)
qed

lemma nibble_split:
  assumes "x < (16 :: byte)" "y < 16"
  shows "drop_bit 4 (push_bit 4 x OR y) = x" "(push_bit 4 x OR y) AND 15 = y"
proof -
  have m: "(15 :: byte) = mask 4" by (simp add: mask_eq_exp_minus_1)
  have b: "k < 4" if "bit x k \<or> bit y k" for k
    using that byte_high_bit [OF assms(1), of k] byte_high_bit [OF assms(2), of k] by (cases "4 \<le> k") auto
  show "drop_bit 4 (push_bit 4 x OR y) = x"
    by (rule bit_eqI) (auto simp: bit_or_iff bit_drop_bit_eq bit_push_bit_iff dest: b [OF disjI1] b [OF disjI2])
  show "(push_bit 4 x OR y) AND 15 = y"
    unfolding m by (rule bit_eqI) (auto simp: bit_or_iff bit_and_iff bit_mask_iff bit_push_bit_iff dest: b [OF disjI1] b [OF disjI2])
qed


lemma payload_pairs:
  assumes "hexClass a \<noteq> 0" "hexClass b \<noteq> 0"
  shows "hexPairLower (payloadByte a b) = (hexLower ! unat (hexNibble a), hexLower ! unat (hexNibble b))"
    and "hexPairUpper (payloadByte a b) = (hexUpper ! unat (hexNibble a), hexUpper ! unat (hexNibble b))"
  unfolding hexPairLower_def hexPairUpper_def payloadByte_def
    nibble_split [OF hexNibble_less [OF assms(1)] hexNibble_less [OF assms(2)]] by simp_all

lemma length_maskLoop [simp]: "length (maskLoop ds i m) = length m"
  by (induction ds i m rule: maskLoop.induct) auto

lemma bit_maskLoop:
  assumes "q < length m" "k < 8"
  shows "bit (maskLoop ds i m ! q) k \<longleftrightarrow>
    bit (m ! q) k \<or> (i \<le> 8 * q + k \<and> 8 * q + k < i + length ds \<and> hexClass (ds ! (8 * q + k - i)) = 4)"
  using assms
proof (induction ds i m rule: maskLoop.induct)
  case (2 d ds i m)
  let ?m = "if hexClass d = 4 then m[i div 8 := m ! (i div 8) OR push_bit (i mod 8) 1] else m"
  have at: "i = 8 * q + k \<longleftrightarrow> i div 8 = q \<and> i mod 8 = k" using \<open>k < 8\<close> by auto
  have b: "bit (?m ! q) k \<longleftrightarrow> bit (m ! q) k \<or> (i = 8 * q + k \<and> hexClass d = 4)"
    using 2(2,3) unfolding at by (cases "i div 8 = q") (auto simp: bit_simps)
  have "bit (maskLoop (d # ds) i m ! q) k \<longleftrightarrow> bit (?m ! q) k \<or>
     (Suc i \<le> 8 * q + k \<and> 8 * q + k < Suc i + length ds \<and> hexClass (ds ! (8 * q + k - Suc i)) = 4)"
    using 2 by simp
  also have "\<dots> \<longleftrightarrow> bit (m ! q) k \<or> (i \<le> 8 * q + k \<and> 8 * q + k < i + length (d # ds) \<and> hexClass ((d # ds) ! (8 * q + k - i)) = 4)"
    unfolding b by (auto simp: nth_Cons' Suc_diff_Suc)
  finally show ?case .
qed auto

lemma byte_3: "(3 :: byte) = mask 2" and byte_1: "(1 :: byte) = mask 1"
  by (simp_all add: mask_eq_exp_minus_1)

lemma maskBits_lo: "maskBits p j AND 1 = of_bool (bit (pp_mask p ! (j div 4)) (2 * (j mod 4)))"
  unfolding maskBits_def by (rule bit_eqI) (auto simp: bit_simps byte_3 bit_1_iff)

lemma maskBits_hi: "drop_bit 1 (maskBits p j) = of_bool (bit (pp_mask p ! (j div 4)) (2 * (j mod 4) + 1))"
  unfolding maskBits_def byte_3 by (rule bit_eqI) (auto simp: bit_simps)

lemma raise_of_bool: "push_bit 5 (of_bool u :: byte) = (if u then 32 else 0)"
  by simp


subsection \<open>What the analysis finds\<close>

lemma bit_hexClass: "bit (hexClass c) 1 \<longleftrightarrow> hexClass c = 2" "bit (hexClass c) 2 \<longleftrightarrow> hexClass c = 4"
  by (auto simp: hexClass_def)

lemma byte_and_bit: "(w :: byte) AND 2 \<noteq> 0 \<longleftrightarrow> bit w 1" "w AND 4 \<noteq> 0 \<longleftrightarrow> bit w 2" "w AND 8 \<noteq> 0 \<longleftrightarrow> bit w 3"
  using and_exp_eq_0_iff_not_bit [of w 1] and_exp_eq_0_iff_not_bit [of w 2] and_exp_eq_0_iff_not_bit [of w 3]
  by simp_all

lemma hexTail_spec:
  assumes "hexTail key s seen = (s', seen')" "s \<le> length key"
  shows "s' \<le> s \<and> (\<forall>i. s' \<le> i \<and> i < s \<longrightarrow> hexClass (key ! i) \<noteq> 0)
    \<and> (\<forall>k. bit seen' k \<longleftrightarrow> bit seen k \<or> (\<exists>i. s' \<le> i \<and> i < s \<and> bit (hexClass (key ! i)) k))"
  using assms
proof (induction key s seen rule: hexTail.induct)
  case (2 key s seen)
  show ?case
  proof (cases "hexClass (key ! s) = 0")
    case True
    then show ?thesis using 2(2) by auto
  next
    case False
    then have "hexTail key s (seen OR hexClass (key ! s)) = (s', seen')" using 2(2) by simp
    note ih = 2(1) [OF False this]
    have s: "s' \<le> s" using ih 2(3) by simp
    then show ?thesis using ih 2(3) False by (auto simp: bit_simps less_Suc_eq)
  qed
qed auto

lemma seenFrom_spec:
  "bit (seenFrom key s) k \<longleftrightarrow> (\<exists>i. s \<le> i \<and> i < length key \<and> bit (hexClass (key ! i)) k)"
proof -
  have "bit (foldl (\<lambda>a i. a OR hexClass (key ! i)) a is) k \<longleftrightarrow> bit a k \<or> (\<exists>i \<in> set is. bit (hexClass (key ! i)) k)" for a "is"
    by (induction "is" arbitrary: a) (auto simp: bit_simps)
  then show ?thesis unfolding seenFrom_def by auto
qed

definition hex_flags :: "bool \<Rightarrow> bool \<Rightarrow> nat \<Rightarrow> byte" where
  "hex_flags x p c = (if x then 4 else 0) OR (if p then 8 else 0) OR (if c = 2 then 2 else if c = 1 then 1 else 0)"

lemma hex_flags_bits:
  "hex_flags x p c \<noteq> 255" "hex_flags x p c AND 4 \<noteq> 0 \<longleftrightarrow> x" "hex_flags x p c AND 8 \<noteq> 0 \<longleftrightarrow> p"
  "hex_flags x p c AND 3 = (if c = 2 then 2 else if c = 1 then 1 else 0)"
  by (simp_all add: hex_flags_def)

definition packed_ok :: "bytes \<Rightarrow> packedKey \<Rightarrow> bool" where
  "packed_ok key p \<longleftrightarrow>
     (\<exists>x c. pk_flags p = hex_flags x (pk_prefix p \<noteq> []) c
        \<and> key = pk_prefix p @ (if x then [48, 120] else []) @ pk_digits p
        \<and> length (pk_prefix p) \<le> 255 \<and> even (length (pk_digits p)) \<and> 16 \<le> length (pk_digits p)
        \<and> length (pk_digits p) \<le> 128 \<and> (\<forall>d \<in> set (pk_digits p). hexClass d \<noteq> 0)
        \<and> (c = 0 \<longrightarrow> (\<forall>d \<in> set (pk_digits p). hexClass d \<noteq> 4))
        \<and> (c = 1 \<longrightarrow> (\<forall>d \<in> set (pk_digits p). hexClass d \<noteq> 2)) \<and> c \<le> 2)
     \<and> pk_size p = length (appendTo p []) \<and> pk_size p < recordBytes (length key)"

lemma length_uvarint_put: "length (uvarint_put n) = uvarintLen n"
  by (induction n rule: uvarintLen.induct) (subst uvarintLen.simps, auto simp: uvarint_put_large)


lemma drop_as_map: "drop s xs = map ((!) xs) [s ..< length xs]"
  by (rule nth_equalityI) auto

lemma packKey_ok:
  assumes "packKey key = Some p"
  shows "packed_ok key p"
proof -
  let ?n = "length key"
  obtain s0 seen0 where ht: "hexTail key ?n 0 = (s0, seen0)" by fastforce
  define s where "s = (if (?n - s0) mod 2 = 1 then s0 + 1 else s0)"
  define seen where "seen = (if (?n - s0) mod 2 = 1 then seenFrom key (s0 + 1) else seen0)"
  define x where "x \<longleftrightarrow> s \<ge> 2 \<and> key ! (s - 2) = 48 \<and> key ! (s - 1) = 120"
  define e where "e = (if x then s - 2 else s)"
  define c where "c = (if seen AND 2 \<noteq> 0 \<and> seen AND 4 \<noteq> 0 then 2 else if seen AND 4 \<noteq> 0 then 1 else 0 :: nat)"
  define fl where "fl = hex_flags x (e > 0) c"
  define sz where "sz = 2 + uvarintLen ((?n - s) div 2) + (?n - s) div 2 + (if e > 0 then 1 + e else 0)
     + (if c = 2 then (?n - s + 7) div 8 else 0)"
  have r: "16 \<le> ?n" "16 \<le> ?n - s0" "?n - s \<le> 128" "e \<le> 255" "sz < recordBytes ?n"
    "p = \<lparr>pk_flags = fl, pk_prefix = take e key, pk_digits = drop s key, pk_size = sz\<rparr>"
  proof -
    have fl: "(if seen AND 2 \<noteq> 0 \<and> seen AND 4 \<noteq> 0 then (if e > 0 then (if x then 4 else 0) OR 8 else (if x then 4 else 0)) OR 2
       else if seen AND 4 \<noteq> 0 then (if e > 0 then (if x then 4 else 0) OR 8 else (if x then 4 else 0)) OR 1
       else (if e > 0 then (if x then 4 else 0) OR 8 else (if x then 4 else 0))) = fl"
      unfolding fl_def hex_flags_def c_def by auto
    have sel: "(if (?n - s0) mod 2 = 1 then (s0 + 1, seenFrom key (s0 + 1)) else (s0, seen0)) = (s, seen)"
      by (simp add: s_def seen_def)
    have c: "(fl AND 3 = 2) = (c = 2)" unfolding fl_def by (simp add: hex_flags_bits)
    have pk: "packKey key = (if ?n < 16 then None else if ?n - s0 < 16 then None
      else if ?n - s > 128 then None else if e > 255 then None else if sz \<ge> recordBytes ?n then None
      else Some \<lparr>pk_flags = fl, pk_prefix = take e key, pk_digits = drop s key, pk_size = sz\<rparr>)"
      unfolding packKey_def Let_def ht prod.case sel x_def [symmetric] e_def [symmetric] fl c sz_def
      by simp
    from assms show "16 \<le> ?n" "16 \<le> ?n - s0" "?n - s \<le> 128" "e \<le> 255" "sz < recordBytes ?n"
      "p = \<lparr>pk_flags = fl, pk_prefix = take e key, pk_digits = drop s key, pk_size = sz\<rparr>"
      unfolding pk by (simp_all only: go_res not_less not_le option.inject)
  qed
  have hs: "s0 \<le> ?n" "\<And>i. s0 \<le> i \<Longrightarrow> i < ?n \<Longrightarrow> hexClass (key ! i) \<noteq> 0"
    "\<And>k. bit seen0 k \<longleftrightarrow> (\<exists>i. s0 \<le> i \<and> i < ?n \<and> bit (hexClass (key ! i)) k)"
    using hexTail_spec [OF ht] by auto
  have sb: "s0 \<le> s" "s \<le> ?n" "even (?n - s)" "16 \<le> ?n - s"
    using r(2) hs(1) unfolding s_def by (auto split: if_splits, presburger+)
  have se: "bit seen k \<longleftrightarrow> (\<exists>d \<in> set (drop s key). bit (hexClass d) k)" for k
  proof -
    have "bit seen k \<longleftrightarrow> (\<exists>i. s \<le> i \<and> i < ?n \<and> bit (hexClass (key ! i)) k)"
      unfolding seen_def s_def by (auto simp: seenFrom_spec hs(3))
    also have "\<dots> \<longleftrightarrow> (\<exists>d \<in> set (drop s key). bit (hexClass d) k)"
      by (auto simp: drop_as_map)
    finally show ?thesis .
  qed
  have dig: "\<forall>d \<in> set (drop s key). hexClass d \<noteq> 0"
    using hs(2) sb by (auto simp: drop_as_map)
  have low: "c = 0 \<longrightarrow> (\<forall>d \<in> set (drop s key). hexClass d \<noteq> 4)"
    and up: "c = 1 \<longrightarrow> (\<forall>d \<in> set (drop s key). hexClass d \<noteq> 2)" and c2: "c \<le> 2"
    unfolding c_def using se by (auto simp: byte_and_bit bit_hexClass)
  have key: "key = take e key @ (if x then [48, 120] else []) @ drop s key"
  proof (cases x)
    case True
    then obtain t where t: "s = Suc (Suc t)" unfolding x_def by (metis One_nat_def Suc_1 add_2_eq_Suc le_Suc_ex)
    then have d: "drop (s - 2) key = [48, 120] @ drop s key"
      using sb(2) True by (simp add: Cons_nth_drop_Suc [symmetric] x_def)
    have "key = take (s - 2) key @ drop (s - 2) key" by simp
    also note d
    finally show ?thesis using True by (simp add: e_def)
  qed (simp add: e_def)
  have pre: "(take e key \<noteq> []) = (e > 0)" "length (take e key) = e" using sb r(1) by (auto simp: e_def)
  have "sz = length (appendTo p [])"
    unfolding r(6) appendTo_def fl_def sz_def Let_def using pre
    by (simp add: hex_flags_bits length_uvarint_put)
  moreover have sel: "pk_flags p = fl" "pk_prefix p = take e key" "pk_digits p = drop s key" "pk_size p = sz"
    "length (take e key) \<le> 255" "length (drop s key) \<le> 128" "even (length (drop s key))" "16 \<le> length (drop s key)"
    using r sb pre by simp_all
  ultimately show ?thesis
    unfolding packed_ok_def sel fl_def pre(1) using key sel(5-) dig low up c2 r(5) by blast
qed

lemma concat_pairs:
  "even (length d) \<Longrightarrow> concat (map (\<lambda>j. [d ! (2 * j), d ! (2 * j + 1)]) [0 ..< length d div 2]) = d"
proof (induction d rule: induct_list012)
  case (3 a b d)
  have "[0 ..< length (a # b # d) div 2] = 0 # map Suc [0 ..< length d div 2]"
    by (simp add: upt_conv_Cons map_Suc_upt del: upt_Suc)
  then show ?case using 3 by (simp add: comp_def)
qed auto

definition partsOf :: "packedKey \<Rightarrow> packedParts" where
  "partsOf p = \<lparr>pp_flags = pk_flags p, pp_prefix = pk_prefix p,
     pp_mask = (if pk_flags p AND 3 = 2
           then maskLoop (pk_digits p) 0 (replicate ((length (pk_digits p) + 7) div 8) 0) else []),
     pp_payload = map (\<lambda>i. payloadByte (pk_digits p ! (2 * i)) (pk_digits p ! (2 * i + 1))) [0 ..< length (pk_digits p) div 2],
     pp_total = pk_size p\<rparr>"


subsection \<open>Round trip of a packed record\<close>

lemma parse_appendTo:
  assumes "packed_ok key p"
  shows "parse (appendTo p [] @ rest) = Some (partsOf p)"
proof -
  obtain x c where fl: "pk_flags p = hex_flags x (pk_prefix p \<noteq> []) c" and len: "length (pk_prefix p) \<le> 255"
    "even (length (pk_digits p))" "length (pk_digits p) \<le> 128" and sz: "pk_size p = length (appendTo p [])"
    using assms unfolding packed_ok_def by auto
  let ?d = "pk_digits p" let ?n = "length (pk_digits p) div 2"
  define P where "P = (if pk_prefix p \<noteq> [] then word_of_nat (length (pk_prefix p)) # pk_prefix p else [])"
  define M where "M = pp_mask (partsOf p)"
  define Y where "Y = pp_payload (partsOf p)"
  have lM: "length M = (if pk_flags p AND 3 = 2 then (?n * 2 + 7) div 8 else 0)" using len(2) by (simp add: M_def partsOf_def)
  have lY: "length Y = ?n" by (simp add: Y_def partsOf_def)
  have app: "appendTo p [] = [0, pk_flags p] @ P @ uvarint_put ?n @ M @ Y"
    unfolding appendTo_def Let_def P_def M_def Y_def partsOf_def by (simp add: fl hex_flags_bits)
  let ?r = "appendTo p [] @ rest" let ?i = "2 + length P"
  have n: "?n < 2 ^ 64" using len by simp
  have ug: "uvarint_get (drop ?i ?r) = (?n, int (length (uvarint_put ?n)))"
    unfolding app using uvarint_get_put [OF n, of "M @ Y @ rest"] by simp
  have w0: "\<not> int (length (uvarint_put ?n)) \<le> 0" using length_uvarint_put_ge [of ?n] by linarith
  let ?i1 = "?i + length (uvarint_put ?n)"
  have sM: "slice ?r ?i1 (?i1 + length M) = Some M" 
    unfolding app using slice_append [of "[0, pk_flags p] @ P @ uvarint_put ?n" ?i1 M "length M" _ "Y @ rest"] by simp
  have sY: "slice ?r (?i1 + length M) (?i1 + length M + ?n) = Some Y" 
    unfolding app using slice_append [of "[0, pk_flags p] @ P @ uvarint_put ?n @ M" "?i1 + length M" Y ?n _ "rest"] lY by simp
  have pre: "(if pk_flags p AND 8 \<noteq> 0 then
                   (if length ?r < 3 then None
                    else let n = unat (?r ! 2) in
                      map_option (\<lambda>p. (p, 3 + n)) (slice ?r 3 (3 + n)))
                 else Some ([], 2)) = Some (pk_prefix p, ?i)"
    using len(1) slice_append [of "[0, pk_flags p, word_of_nat (length (pk_prefix p))]" 3 "pk_prefix p" "length (pk_prefix p)" _ "uvarint_put ?n @ M @ Y @ rest"]
    unfolding app Let_def by (cases "pk_prefix p = []") (simp_all add: P_def fl hex_flags_bits unat_word_of_nat8)
  have r1: "\<not> length ?r < 2" "?r ! 1 = pk_flags p" "pk_flags p \<noteq> 255" unfolding app by (simp_all add: fl hex_flags_bits)
  have tot: "?i1 + length M + ?n = pk_size p" unfolding sz app using lY by simp
  show ?thesis
    unfolding parse_def Let_def
    by (simp only: r1 if_False pre [unfolded Let_def] option.case prod.case ug nat_int w0
      lM [symmetric] sM sY [unfolded tot] tot) (simp add: partsOf_def M_def Y_def)
qed


lemma mixed_bit:
  assumes "pk_flags p AND 3 = 2" "k < length (pk_digits p)"
  shows "bit (pp_mask (partsOf p) ! (k div 8)) (k mod 8) \<longleftrightarrow> hexClass (pk_digits p ! k) = 4"
proof -
  have "k div 8 < (length (pk_digits p) + 7) div 8" using assms(2) by simp
  then show ?thesis
    using assms bit_maskLoop [of "k div 8" "replicate ((length (pk_digits p) + 7) div 8) 0" "k mod 8" "pk_digits p" 0]
    by (simp add: partsOf_def)
qed

lemma digitPair_partsOf:
  assumes "packed_ok key p" "j < length (pk_digits p) div 2"
  shows "digitPair (partsOf p) j = (pk_digits p ! (2 * j), pk_digits p ! (2 * j + 1))"
proof -
  let ?d = "pk_digits p" let ?a = "?d ! (2 * j)" let ?b = "?d ! (2 * j + 1)"
  obtain x c where fl: "pk_flags p = hex_flags x (pk_prefix p \<noteq> []) c"
    and ev: "even (length ?d)" and hex: "\<forall>d \<in> set ?d. hexClass d \<noteq> 0"
    and low: "c = 0 \<longrightarrow> (\<forall>d \<in> set ?d. hexClass d \<noteq> 4)"
    and up: "c = 1 \<longrightarrow> (\<forall>d \<in> set ?d. hexClass d \<noteq> 2)" and c2: "c \<le> 2"
    using assms(1) unfolding packed_ok_def by blast
  have k: "2 * j < length ?d" "2 * j + 1 < length ?d" using assms(2) ev by auto
  then have in_d: "?a \<in> set ?d" "?b \<in> set ?d" by (auto intro: nth_mem)
  then have cl: "hexClass ?a \<noteq> 0" "hexClass ?b \<noteq> 0" using hex by auto
  have pay: "pp_payload (partsOf p) ! j = payloadByte ?a ?b" using assms(2) by (simp add: partsOf_def)
  have fp: "pp_flags (partsOf p) = pk_flags p" by (simp add: partsOf_def)
  note tab = payload_pairs [OF cl] and lo = hexLower_nibble [OF cl(1)] hexLower_nibble [OF cl(2)]
    and hi = hexUpper_nibble [OF cl(1)] hexUpper_nibble [OF cl(2)]
  consider "c = 0" | "c = 1" | "c = 2" using c2 by linarith
  then show ?thesis
  proof cases
    case 1
    then show ?thesis using lo low in_d unfolding digitPair_def pay fp fl hex_flags_bits tab by auto
  next
    case 2
    then show ?thesis using hi up in_d unfolding digitPair_def pay fp fl hex_flags_bits tab by auto
  next
    case 3
    then have m: "pk_flags p AND 3 = 2" unfolding fl hex_flags_bits by simp
    have at: "(2 * j) div 8 = j div 4" "(2 * j) mod 8 = 2 * (j mod 4)"
      "(2 * j + 1) div 8 = j div 4" "(2 * j + 1) mod 8 = 2 * (j mod 4) + 1" by presburger+
    note b = mixed_bit [OF m k(1), unfolded at] mixed_bit [OF m k(2), unfolded at]
    show ?thesis using lo 3
      unfolding digitPair_def pay fp fl hex_flags_bits tab maskBits_lo maskBits_hi b raise_of_bool by simp
  qed
qed

lemma appendKey_partsOf:
  assumes "packed_ok key p"
  shows "parts_appendKey (partsOf p) [] = key"
proof -
  let ?d = "pk_digits p"
  obtain x c where fl: "pk_flags p = hex_flags x (pk_prefix p \<noteq> []) c"
    and ev: "even (length ?d)" and key: "key = pk_prefix p @ (if x then [48, 120] else []) @ ?d"
    using assms(1) unfolding packed_ok_def by blast
  have "concat (map (\<lambda>j. [fst (digitPair (partsOf p) j), snd (digitPair (partsOf p) j)]) [0 ..< length ?d div 2])
    = concat (map (\<lambda>j. [?d ! (2 * j), ?d ! (2 * j + 1)]) [0 ..< length ?d div 2])"
    by (rule arg_cong [where f = concat], rule map_cong) (auto simp: digitPair_partsOf [OF assms])
  also have "\<dots> = ?d" by (rule concat_pairs [OF ev])
  finally show ?thesis
    unfolding parts_appendKey_def key by (simp add: partsOf_def fl hex_flags_bits)
qed


lemma hexWord_nat: "hexWord p = word_of_nat (unat (fst p) + 256 * unat (snd p))"
proof -
  have "hexWord p = ucast (fst p) + push_bit 8 (ucast (snd p))"
    unfolding hexWord_def by (rule disjunctive_add [symmetric]) (auto simp: bit_simps dest: bit_imp_le_length)
  then show ?thesis by (simp add: push_bit_eq_mult of_nat_unat mult.commute)
qed

lemma hexWord_eq_iff: "hexWord p = hexWord q \<longleftrightarrow> p = q"
proof
  assume "hexWord p = hexWord q"
  moreover have b: "unat (fst p) < 256" "unat (snd p) < 256" "unat (fst q) < 256" "unat (snd q) < 256" by simp_all
  then have "unat (fst p) + 256 * unat (snd p) < 65536" "unat (fst q) + 256 * unat (snd q) < 65536"
    by linarith+
  ultimately have eq: "unat (fst p) + 256 * unat (snd p) = unat (fst q) + 256 * unat (snd q)"
    unfolding hexWord_nat word_of_nat_eq_iff by (simp add: take_bit_nat_eq_self)
  have "unat (fst p) = (unat (fst p) + 256 * unat (snd p)) mod 256" using b by simp
  also have "\<dots> = unat (fst q)" unfolding eq using b by simp
  finally show "p = q" using eq by (simp add: prod_eq_iff word_unat_eq_iff)
qed simp

lemma hexWord_lower:
  assumes "32 \<le> unat a" "32 \<le> unat b"
  shows "hexWord (a, b) - (ucast (of_bool u :: byte) * 32 + push_bit 13 (ucast (of_bool v :: byte)))
    = hexWord (a - (if u then 32 else 0), b - (if v then 32 else 0))"
proof -
  have a: "unat (a - (if u then 32 else 0)) = unat a - 32 * of_bool u"
    using assms(1) by (cases u) (simp_all add: unat_sub word_le_nat_alt)
  have b: "unat (b - (if v then 32 else 0)) = unat b - 32 * of_bool v"
    using assms(2) by (cases v) (simp_all add: unat_sub word_le_nat_alt)
  have "(ucast (of_bool u :: byte) * 32 + push_bit 13 (ucast (of_bool v :: byte)) :: u16)
    = word_of_nat (32 * of_bool u + 256 * (32 * of_bool v))"
    by (cases u; cases v) simp_all
  moreover have "32 * of_bool u + 256 * (32 * of_bool v) \<le> unat a + 256 * unat b"
    using assms by (cases u; cases v) simp_all
  ultimately have "hexWord (a, b) - (ucast (of_bool u :: byte) * 32 + push_bit 13 (ucast (of_bool v :: byte)))
    = word_of_nat (unat a + 256 * unat b - (32 * of_bool u + 256 * (32 * of_bool v)))"
    unfolding hexWord_nat by (simp add: of_nat_diff)
  also have "unat a + 256 * unat b - (32 * of_bool u + 256 * (32 * of_bool v))
    = (unat a - 32 * of_bool u) + 256 * (unat b - 32 * of_bool v)"
    using assms by (cases u; cases v) simp_all
  finally show ?thesis unfolding hexWord_nat by (simp add: a b)
qed

lemma hexPairLower_ge: "32 \<le> unat (fst (hexPairLower b))" "32 \<le> unat (snd (hexPairLower b))"
proof -
  have "unat (drop_bit 4 b) = unat b div 16" by (simp add: drop_bit_eq_div unat_div)
  then have "unat (drop_bit 4 b) < 16" using unat_byte_less [of b] by (simp only: less_mult_imp_div_less)
  moreover have "unat (b AND 15) \<le> unat (15 :: byte)"
    by (simp only: word_le_nat_alt [symmetric] word_and_le1)
  ultimately have "unat (drop_bit 4 b) < 16" "unat (b AND 15) < 16" by simp_all
  then show "32 \<le> unat (fst (hexPairLower b))" "32 \<le> unat (snd (hexPairLower b))"
    unfolding hexPairLower_def by (simp_all add: hexLower_ge)
qed

lemma wantWord_digitPair: "wantWord p j = hexWord (digitPair p j)"
proof -
  obtain a b where h: "hexPairLower (pp_payload p ! j) = (a, b)" by fastforce
  then have "32 \<le> unat a" "32 \<le> unat b" using hexPairLower_ge [of "pp_payload p ! j"] by simp_all
  note low = hexWord_lower [OF this]
  show ?thesis
    unfolding wantWord_def digitPair_def Let_def maskBits_lo maskBits_hi raise_of_bool h 
    using low by (simp add: h split: prod.split)
qed

lemma pairs_eq_iff:
  assumes "length r = 2 * n"
  shows "(\<forall>j < n. (r ! (2 * j), r ! (2 * j + 1)) = f j) \<longleftrightarrow>
    concat (map (\<lambda>j. [fst (f j), snd (f j)]) [0 ..< n]) = r"
  using assms
proof (induction n arbitrary: r f)
  case (Suc n)
  then obtain a b r' where r: "r = a # b # r'" by (cases r; cases "tl r") auto
  then have l: "length r' = 2 * n" using Suc by simp
  have up: "[0 ..< Suc n] = 0 # map Suc [0 ..< n]" by (simp add: upt_conv_Cons map_Suc_upt del: upt_Suc)
  show ?case
    unfolding up using Suc.IH [OF l, of "\<lambda>j. f (Suc j)"]
    by (auto simp: r comp_def All_less_Suc2 prod_eq_iff)
qed simp

lemma parts_equals_iff: "parts_equals p key \<longleftrightarrow> parts_appendKey p [] = key"
proof (cases "pp_flags p = 255")
  case False
  let ?n = "length (pp_payload p)" let ?i = "length (pp_prefix p)"
  let ?D = "concat (map (\<lambda>j. [fst (digitPair p j), snd (digitPair p j)]) [0 ..< ?n])"
  let ?x = "pp_flags p AND 4 \<noteq> 0"
  let ?X = "if ?x then [48, 120] else [] :: bytes"
  have lD: "length ?D = 2 * ?n" by (induction ?n) (simp_all add: length_concat comp_def sum_list_triv)
  have dec: "parts_appendKey p [] = pp_prefix p @ ?X @ ?D" using False by (simp add: parts_appendKey_def)
  show ?thesis
  proof (cases "length key = ?i + 2 * ?n + (if ?x then 2 else 0)")
    case True
    let ?r = "drop (?i + length ?X) key"
    have lr: "length ?r = 2 * ?n" using True by simp
    have "parts_equals p key \<longleftrightarrow> pp_prefix p = take ?i key \<and> ?X = take (length ?X) (drop ?i key)
       \<and> (\<forall>j < ?n. (?r ! (2 * j), ?r ! (2 * j + 1)) = digitPair p j)"
    proof -
      have t: "take (Suc (Suc 0)) (drop ?i key) = [key ! ?i, key ! (?i + 1)]" if ?x
        using True that by (simp add: take_Suc_conv_app_nth)
      have X: "(\<not> (?x \<and> (key ! ?i \<noteq> 48 \<or> key ! (?i + 1) \<noteq> 120))) \<longleftrightarrow> ?X = take (length ?X) (drop ?i key)"
        using t by (cases ?x) (simp_all add: eq_commute [of "48::byte"] eq_commute [of "120::byte"])
      have r: "(if ?x then ?i + 2 else ?i) = ?i + length ?X" by simp
      have nest: "\<And>a b. (if a then False else b) \<longleftrightarrow> \<not> a \<and> b" by simp
      show ?thesis
        unfolding parts_equals_def Let_def wantWord_digitPair hexWord_eq_iff r list_all_iff nest X
        by (simp only: \<open>pp_flags p \<noteq> 255\<close> if_False not_not True [symmetric] set_upt atLeastLessThan_iff Ball_def le0 simp_thms)
    qed
    also have "\<dots> \<longleftrightarrow> pp_prefix p = take ?i key \<and> ?X = take (length ?X) (drop ?i key) \<and> ?D = ?r"
      using pairs_eq_iff [OF lr] by simp
    also have "\<dots> \<longleftrightarrow> pp_prefix p @ ?X @ ?D = key"
      using append_eq_conv_conj [of "pp_prefix p" "?X @ ?D" key] append_eq_conv_conj [of ?X ?D "drop ?i key"] by (simp add: add.commute)
    finally show ?thesis unfolding dec .
  next
    case False
    then show ?thesis using \<open>pp_flags p \<noteq> 255\<close> lD unfolding dec by (auto simp: parts_equals_def Let_def)
  qed
qed (auto simp: parts_equals_def parts_appendKey_def)


subsection \<open>Records in the log\<close>

lemma unat_cont_byte: "unat (word_of_nat (n mod 128 + 128) :: byte) = n mod 128 + 128"
  unfolding unat_word_of_nat8 by (simp add: mod_less)

lemma rawHeader_put:
  assumes "n < 2 ^ 64"
  shows "rawHeader (uvarint_put n @ r) = Some (length (uvarint_put n), n)"
proof (cases "n < 128")
  case True
  then show ?thesis by (simp add: rawHeader_def byte_less_128 unat_word_of_nat8)
next
  case False
  have "\<not> (word_of_nat (n mod 128 + 128) :: byte) < 128"
    unfolding byte_less_128 unat_cont_byte by simp
  then show ?thesis
    using uvarint_get_put [OF assms, of r] False length_uvarint_put_ge [of n]
    by (simp add: rawHeader_def uvarint_put_large)
qed

lemma uvarint_put_hd:
  assumes "0 < n"
  shows "hd (uvarint_put n) \<noteq> 0"
proof (cases "n < 128")
  case True
  then show ?thesis using assms by (simp add: word_unat_eq_iff unat_word_of_nat8)
next
  case False
  then show ?thesis unfolding word_unat_eq_iff by (simp add: uvarint_put_large unat_cont_byte del: of_nat_add)
qed

text \<open>The three forms of a record and what the readers find in each.\<close>

lemma keyRecordOf_cases:
  obtains (packed) p t where "packKey key = Some p" "keyRecordOf key = 0 # t"
      "\<And>r. parse (0 # t @ r) = Some (partsOf p)" "parts_appendKey (partsOf p) [] = key"
      "pp_total (partsOf p) = Suc (length t)"
    | (empty) "packKey key = None" "key = []" "keyRecordOf key = [0, 255]"
    | (raw) "packKey key = None" "key \<noteq> []" "keyRecordOf key = uvarint_put (length key) @ key"
proof (cases "packKey key")
  case (Some p)
  note ok = packKey_ok [OF Some]
  obtain t where t: "appendTo p [] = 0 # t" by (simp add: appendTo_def Let_def)
  have "keyRecordOf key = 0 # t" by (simp add: keyRecordOf_def Some t)
  moreover have "pp_total (partsOf p) = Suc (length t)" using ok t by (simp add: packed_ok_def partsOf_def)
  ultimately show ?thesis using packed Some parse_appendTo [OF ok] appendKey_partsOf [OF ok] unfolding t by simp
next
  case None
  then show ?thesis using empty raw by (cases "key = []") (simp_all add: keyRecordOf_def)
qed

lemma packKey_Nil [simp]: "packKey [] = None"
  by (simp add: packKey_def)

lemma length_keyRecordOf: "length (keyRecordOf key) = KeyRecordSize key"
proof (cases "packKey key")
  case (Some p)
  then show ?thesis
    using packKey_ok [OF Some] by (auto simp: keyRecordOf_def KeyRecordSize_def packed_ok_def)
qed (simp add: keyRecordOf_def KeyRecordSize_def recordBytes_def length_uvarint_put)

lemma raw_record_hd:
  assumes "key \<noteq> []"
  shows "\<exists>b bs. uvarint_put (length key) @ key @ r = b # bs \<and> b \<noteq> 0"
  using uvarint_put_hd [of "length key"] assms by (cases "uvarint_put (length key)") auto

lemma parse_empty: "parse (0 # 255 # r) =
    Some \<lparr>pp_flags = 255, pp_prefix = [], pp_mask = [], pp_payload = [], pp_total = 2\<rparr>"
  by (simp add: parse_def)

lemma keyAt_record:
  assumes "length key < 2 ^ 64"
  shows "keyAt (keyRecordOf key @ r) = Some key"
proof (cases key rule: keyRecordOf_cases)
  case (packed p t)
  then show ?thesis by (simp add: keyAt_def)
next
  case empty
  then show ?thesis by (simp add: keyAt_def parse_empty parts_appendKey_def)
next
  case raw
  obtain b bs where e: "uvarint_put (length key) @ key @ r = b # bs" "b \<noteq> 0" using raw_record_hd [OF raw(2), of r] by blast
  have "slice (uvarint_put (length key) @ key @ r) (length (uvarint_put (length key))) (length (uvarint_put (length key)) + length key) = Some key"
    by (rule slice_append) simp_all
  then show ?thesis
    using rawHeader_put [OF assms, of "key @ r"] e by (simp add: keyAt_def raw(3))
qed

lemma recordLen_record:
  assumes "length key < 2 ^ 64"
  shows "recordLen (keyRecordOf key @ r) = Some (length (keyRecordOf key))"
proof (cases key rule: keyRecordOf_cases)
  case (packed p t)
  then show ?thesis by (simp add: recordLen_def)
next
  case empty
  then show ?thesis by (simp add: recordLen_def parse_empty)
next
  case raw
  obtain b bs where e: "uvarint_put (length key) @ key @ r = b # bs" "b \<noteq> 0" using raw_record_hd [OF raw(2), of r] by blast
  then show ?thesis
    using rawHeader_put [OF assms, of "key @ r"] by (simp add: recordLen_def raw(3))
qed

lemma keyEquals_record:
  assumes "length key < 2 ^ 64"
  shows "keyEquals (keyRecordOf key @ r) k = Some (key = k)"
proof (cases key rule: keyRecordOf_cases)
  case (packed p t)
  then show ?thesis by (simp add: keyEquals_def parts_equals_iff)
next
  case empty
  then show ?thesis by (auto simp: keyEquals_def parse_empty parts_equals_def)
next
  case raw
  obtain b bs where e: "uvarint_put (length key) @ key @ r = b # bs" "b \<noteq> 0" using raw_record_hd [OF raw(2), of r] by blast
  have "slice (uvarint_put (length key) @ key @ r) (length (uvarint_put (length key))) (length (uvarint_put (length key)) + length key) = Some key"
    by (rule slice_append) simp_all
  then show ?thesis
    using rawHeader_put [OF assms, of "key @ r"] e by (auto simp: keyEquals_def raw(3))
qed

lemma KeyLen_record:
  assumes "length key < 2 ^ 64"
  shows "KeyLen (keyRecordOf key @ r) = Some (length key)"
proof (cases key rule: keyRecordOf_cases)
  case (packed p t)
  have "keyLen (partsOf p) = length (parts_appendKey (partsOf p) [])"
    by (simp add: keyLen_def parts_appendKey_def length_concat comp_def sum_list_triv)
  then show ?thesis using packed by (simp add: KeyLen_def)
next
  case empty
  then show ?thesis by (simp add: KeyLen_def parse_empty keyLen_def)
next
  case raw
  obtain b bs where e: "uvarint_put (length key) @ key @ r = b # bs" "b \<noteq> 0" using raw_record_hd [OF raw(2), of r] by blast
  then show ?thesis
    using rawHeader_put [OF assms, of "key @ r"] by (simp add: KeyLen_def raw(3))
qed


lemma parts_appendKey_dst: "parts_appendKey p dst = dst @ parts_appendKey p []"
  by (simp add: parts_appendKey_def)

lemma length_parts_appendKey: "length (parts_appendKey p []) = keyLen p"
  by (simp add: keyLen_def parts_appendKey_def length_concat comp_def sum_list_triv)

lemma keyChunked_record:
  assumes "length key < 2 ^ 64" "length (ck_buf c) \<le> ck_cap c"
  obtains c' where "keyChunked c (keyRecordOf key @ r) = Some (key, c')"
    "length (ck_buf c') \<le> ck_cap c'" "take (length (ck_buf c)) (ck_buf c') = ck_buf c \<or> ck_buf c' = key"
proof (cases key rule: keyRecordOf_cases)
  case (packed p t)
  let ?p = "partsOf p"
  have fl: "pp_flags ?p \<noteq> 255"
    using packKey_ok [OF packed(1)] by (auto simp: packed_ok_def partsOf_def hex_flags_bits)
  have n: "length (pp_prefix ?p) + 2 * length (pp_payload ?p) + (if pp_flags ?p AND 4 \<noteq> 0 then 2 else 0) = length key"
    using length_parts_appendKey [of ?p] fl packed(4) by (simp add: keyLen_def)
  let ?c = "if ck_cap c - length (ck_buf c) < length key
            then \<lparr>ck_buf = [], ck_cap = (if length key > 8192 then length key else 8192)\<rparr> else c"
  have ap: "parts_appendKey ?p (ck_buf ?c) = ck_buf ?c @ key" using parts_appendKey_dst packed(4) by metis
  have sl: "slice (ck_buf ?c @ key) (length (ck_buf ?c)) (length (ck_buf ?c) + length key) = Some key"
    using slice_append [of "ck_buf ?c" _ key _ _ "[]"] by simp
  have "keyChunked c (keyRecordOf key @ r) = Some (key, \<lparr>ck_buf = ck_buf ?c @ key, ck_cap = ck_cap ?c\<rparr>)"
    using packed(2,3) fl unfolding keyChunked_def chunk_decode_def by (simp add: Let_def n ap sl del: if_split)
  then show ?thesis using that assms(2) by (auto split: if_splits)
next
  case empty
  then show ?thesis using that assms(2) by (simp add: keyChunked_def chunk_decode_def parse_empty)
next
  case raw
  obtain b bs where e: "uvarint_put (length key) @ key @ r = b # bs" "b \<noteq> 0" using raw_record_hd [OF raw(2), of r] by blast
  then show ?thesis using that assms keyAt_record [OF assms(1), of r] by (simp add: keyChunked_def raw(3))
qed

subsection \<open>Properties\<close>

text \<open>C20: A key record is read back exactly as it was written, whichever of the three forms (raw,
  empty or hex-packed) the writer chose and whatever follows it in the log: \<open>keyAt\<close> returns the key,
  \<open>KeyLen\<close> its length, \<open>recordLen\<close> the number of bytes the record occupies, and \<open>keyEquals\<close>
  accepts that key and no other.\<close>

theorem key_record_roundtrip:
  assumes "length key < 2 ^ 64"
  shows "keyAt (keyRecordOf key @ rest) = Some key
    \<and> KeyLen (keyRecordOf key @ rest) = Some (length key)
    \<and> recordLen (keyRecordOf key @ rest) = Some (length (keyRecordOf key))
    \<and> keyEquals (keyRecordOf key @ rest) key' = Some (key = key')"
  using assms by (simp add: keyAt_record KeyLen_record recordLen_record keyEquals_record)

theorem key_record_roundtrip_witness:
  "keyAt (keyRecordOf [107, 58, 49] @ [9]) = Some [107, 58, 49]
    \<and> keyEquals (keyRecordOf [107, 58, 49] @ [9]) [107, 58, 50] = Some False"
  using key_record_roundtrip [of "[107, 58, 49]" "[9]" "[107, 58, 50]"] by simp

text \<open>C21: The record of a key takes exactly \<open>KeyRecordSize\<close> bytes, the amount the engine charges for
  it. A packed record is strictly smaller than the raw one, and a key that is not packed takes its
  length prefix and its bytes (two bytes for the empty key).\<close>

theorem key_record_size:
  "length (keyRecordOf key) = KeyRecordSize key
    \<and> (case PackedKeySize key of
         Some n \<Rightarrow> KeyRecordSize key = n \<and> n < recordBytes (length key)
       | None \<Rightarrow> KeyRecordSize key = max 2 (recordBytes (length key)))"
proof (cases "packKey key")
  case None
  have "1 \<le> uvarintLen (length key)" by (subst uvarintLen.simps) simp
  then have "2 \<le> recordBytes (length key)" if "key \<noteq> []"
    using that unfolding recordBytes_def by (cases key) (simp_all add: trans_le_add1)
  moreover have "recordBytes 0 = 1" by (simp add: recordBytes_def uvarintLen.simps)
  ultimately show ?thesis using None by (auto simp: PackedKeySize_def KeyRecordSize_def length_keyRecordOf)
next
  case (Some p)
  then show ?thesis using packKey_ok [OF Some]
    by (auto simp: PackedKeySize_def KeyRecordSize_def length_keyRecordOf packed_ok_def)
qed

end
