(* ===== verification/IndexTable.thy ===== *)
theory IndexTable
  imports KeyPack "HOL-Library.Multiset"
begin

text \<open>
  The open-addressed index of \<^verbatim>\<open>internal/index/table.go\<close>. The seeded hash of the Go runtime
  (\<^verbatim>\<open>hash/maphash\<close>) is the parameter \<open>h\<close>; nothing is assumed of it. A panic, and a read of the
  key log that does not decode, is the result \<open>None\<close>. The header of every probe loop is
  \<open>probeSeq\<close>, the sequence of slot positions it visits, and the loop bodies recurse over it.
\<close>

subsection \<open>Slot words\<close>

definition liveBit :: u64 where
  "liveBit = push_bit 63 1"

definition slotTombstone :: u64 where
  "slotTombstone = 1"

definition fingerprintMask :: u64 where
  "fingerprintMask = 63"

definition valueMask :: u64 where
  "valueMask = push_bit 27 1 - 1"

definition offsetMask :: u64 where
  "offsetMask = push_bit 30 1 - 1"

definition maxLogBytes :: nat where
  "maxLogBytes = unat offsetMask + 1"

definition initialCapacity :: nat where
  "initialCapacity = 4"

definition slotSize :: nat where
  "slotSize = 8"

definition minCompactLogBytes :: nat where
  "minCompactLogBytes = 4096"

definition gradualGrowthMin :: nat where
  "gradualGrowthMin = 256"

definition tinyFilterBits :: "u64 \<Rightarrow> u32" where
  "tinyFilterBits hash =
     (push_bit (unat (hash AND 31)) 1 OR push_bit (unat (drop_bit 32 hash AND 31)) 1)"

definition hashFingerprint :: "u64 \<Rightarrow> u64" where
  "hashFingerprint hash = (drop_bit 58 hash AND fingerprintMask)"

definition slotWord :: "u64 \<Rightarrow> u32 \<Rightarrow> u32 \<Rightarrow> u64" where
  "slotWord fingerprint value offset =
     (liveBit OR push_bit 57 fingerprint OR push_bit 30 (ucast value) OR ucast offset)"

definition slotFingerprint :: "u64 \<Rightarrow> u64" where
  "slotFingerprint w = (drop_bit 57 w AND fingerprintMask)"

definition slotValue :: "u64 \<Rightarrow> u32" where
  "slotValue w = ucast (drop_bit 30 w AND valueMask)"

definition slotOffset :: "u64 \<Rightarrow> u32" where
  "slotOffset w = ucast (w AND offsetMask)"

definition isLive :: "u64 \<Rightarrow> bool" where
  "isLive w \<longleftrightarrow> w AND liveBit \<noteq> 0"

subsection \<open>The table\<close>

record table =
  t_slots :: "u64 list"
  t_log :: bytes
  t_logcap :: nat
  t_deadBytes :: nat
  t_count :: nat
  t_tinyFilter :: u32

definition New_table :: table where
  "New_table = \<lparr>t_slots = [], t_log = [], t_logcap = 0, t_deadBytes = 0, t_count = 0, t_tinyFilter = 0\<rparr>"

definition Len :: "table \<Rightarrow> nat" where
  "Len t = t_count t"

definition probeStart :: "table \<Rightarrow> u64 \<Rightarrow> nat" where
  "probeStart t hash =
     unat (drop_bit 32 (ucast (ucast hash :: u32) * word_of_nat (length (t_slots t)) :: u64))"

definition CapacityBytes :: "table \<Rightarrow> nat" where
  "CapacityBytes t = length (t_slots t) * slotSize"

definition KeyLogBytes :: "table \<Rightarrow> nat" where
  "KeyLogBytes t = t_logcap t"

definition logAt :: "table \<Rightarrow> u32 \<Rightarrow> bytes" where
  "logAt t offset = drop (unat offset) (t_log t)"

subsection \<open>Capacity\<close>

definition capacityAccepts :: "nat \<Rightarrow> nat \<Rightarrow> bool" where
  "capacityAccepts n capacity =
     (if capacity = initialCapacity then n \<le> capacity else n \<le> capacity * 8 div 10)"

function tightLoop :: "nat \<Rightarrow> nat \<Rightarrow> nat" where
  "tightLoop n capacity = (if capacityAccepts n capacity then capacity else tightLoop n (capacity + 8))"
  by pat_completeness auto
termination
  by (relation "measure (\<lambda>(n, capacity). 10 * n + 20 - capacity)")
    (auto simp: capacityAccepts_def initialCapacity_def split: if_splits)

declare tightLoop.simps [simp del]

definition tightCapacity :: "nat \<Rightarrow> nat" where
  "tightCapacity n =
     (if n \<le> initialCapacity then initialCapacity
      else tightLoop n (((n * 5 + 3) div 4 + 7) div 8 * 8))"

partial_function (option) capacityLoop :: "nat \<Rightarrow> nat \<Rightarrow> nat option" where
  "capacityLoop n capacity =
     (if capacityAccepts n capacity then Some capacity
      else if capacity < gradualGrowthMin then capacityLoop n (capacity * 2)
      else capacityLoop n (tightCapacity (n + n div 2)))"

definition capacityFor :: "table \<Rightarrow> nat \<Rightarrow> nat option" where
  "capacityFor t n =
     (if n = 0 then Some (length (t_slots t))
      else capacityLoop n (if length (t_slots t) = 0 then initialCapacity else length (t_slots t)))"

definition GrowthBytes :: "table \<Rightarrow> nat \<Rightarrow> nat option" where
  "GrowthBytes t additional =
     map_option (\<lambda>c. (c - length (t_slots t)) * slotSize) (capacityFor t (t_count t + additional))"

subsection \<open>Lookup\<close>

fun probeSeq :: "nat \<Rightarrow> nat \<Rightarrow> nat \<Rightarrow> nat list" where
  "probeSeq sz i 0 = []"
| "probeSeq sz i (Suc n) = (let i = (if i = sz then 0 else i) in i # probeSeq sz (i + 1) n)"

definition probes :: "table \<Rightarrow> u64 \<Rightarrow> nat list" where
  "probes t hash = probeSeq (length (t_slots t)) (probeStart t hash) (length (t_slots t))"

fun getLoop :: "table \<Rightarrow> bytes \<Rightarrow> u64 \<Rightarrow> nat list \<Rightarrow> u32 option option" where
  "getLoop t key fingerprint [] = Some None"
| "getLoop t key fingerprint (i # is) =
     (let w = t_slots t ! i in
      if w = 0 then Some None
      else if \<not> isLive w \<or> slotFingerprint w \<noteq> fingerprint then getLoop t key fingerprint is
      else case keyEquals (logAt t (slotOffset w)) key of
        None \<Rightarrow> None
      | Some True \<Rightarrow> Some (Some (slotValue w))
      | Some False \<Rightarrow> getLoop t key fingerprint is)"

definition tinyRejects :: "table \<Rightarrow> u64 \<Rightarrow> bool" where
  "tinyRejects t hash \<longleftrightarrow>
     length (t_slots t) = initialCapacity \<and> t_count t = initialCapacity
       \<and> t_tinyFilter t AND tinyFilterBits hash \<noteq> tinyFilterBits hash"

definition GetHashed :: "table \<Rightarrow> bytes \<Rightarrow> u64 \<Rightarrow> u32 option option" where
  "GetHashed t key hash =
     (if length (t_slots t) = 0 then Some None
      else if tinyRejects t hash then Some None
      else getLoop t key (hashFingerprint hash) (probes t hash))"

definition Get :: "(bytes \<Rightarrow> u64) \<Rightarrow> table \<Rightarrow> bytes \<Rightarrow> u32 option option" where
  "Get h t key = GetHashed t key (h key)"

subsection \<open>Placing keys\<close>

definition appendKey :: "table \<Rightarrow> bytes \<Rightarrow> (table \<times> u32) option" where
  "appendKey t key =
     (let need = (case packKey key of Some p \<Rightarrow> pk_size p
                  | None \<Rightarrow> if length key = 0 then 2 else recordBytes (length key)) in
      if length (t_log t) + need > maxLogBytes then None
      else let grow = (if length (t_log t) div 4 < 256 then 256 else length (t_log t) div 4);
               logcap = (if t_logcap t - length (t_log t) < need
                         then length (t_log t) + need + grow else t_logcap t) in
        Some (t\<lparr>t_log := t_log t @ keyRecordOf key, t_logcap := logcap\<rparr>,
              word_of_nat (length (t_log t))))"

fun placeLoop :: "u64 list \<Rightarrow> nat list \<Rightarrow> nat option \<Rightarrow> nat option" where
  "placeLoop slots [] deleted = deleted"
| "placeLoop slots (i # is) deleted =
     (let w = slots ! i in
      if w = 0 then Some (case deleted of Some d \<Rightarrow> d | None \<Rightarrow> i)
      else if isLive w then placeLoop slots is deleted
      else placeLoop slots is (case deleted of None \<Rightarrow> Some i | Some d \<Rightarrow> Some d))"

definition tinyAdd :: "table \<Rightarrow> u64 \<Rightarrow> table" where
  "tinyAdd t hash =
     (if length (t_slots t) = initialCapacity
      then t\<lparr>t_tinyFilter := t_tinyFilter t OR tinyFilterBits hash\<rparr> else t)"

definition placeKnownAbsent :: "table \<Rightarrow> u64 \<Rightarrow> u32 \<Rightarrow> u32 \<Rightarrow> table option" where
  "placeKnownAbsent t0 hash value offset =
     (let t = tinyAdd t0 hash; word = slotWord (hashFingerprint hash) value offset in
      case placeLoop (t_slots t) (probes t hash) None of
        None \<Rightarrow> None
      | Some i \<Rightarrow> Some (t\<lparr>t_slots := (t_slots t)[i := word], t_count := t_count t + 1\<rparr>))"

definition recordHash :: "(bytes \<Rightarrow> u64) \<Rightarrow> table \<Rightarrow> u32 \<Rightarrow> u64 option" where
  "recordHash h t offset = map_option h (keyAt (logAt t offset))"

fun replaceSlots :: "(bytes \<Rightarrow> u64) \<Rightarrow> u64 list \<Rightarrow> table \<Rightarrow> table option" where
  "replaceSlots h [] t = Some t"
| "replaceSlots h (w # ws) t =
     (if \<not> isLive w then replaceSlots h ws t
      else case recordHash h t (slotOffset w) of None \<Rightarrow> None
        | Some hash \<Rightarrow>
            (case placeKnownAbsent t hash (slotValue w) (slotOffset w) of None \<Rightarrow> None
             | Some t' \<Rightarrow> replaceSlots h ws t'))"

definition rebuildSlots :: "(bytes \<Rightarrow> u64) \<Rightarrow> table \<Rightarrow> nat \<Rightarrow> table option" where
  "rebuildSlots h t capacity =
     replaceSlots h (t_slots t)
       (t\<lparr>t_slots := replicate capacity 0, t_count := 0, t_tinyFilter := 0\<rparr>)"

fun packSlots :: "(bytes \<Rightarrow> u64) \<Rightarrow> bytes \<Rightarrow> u64 list \<Rightarrow> table \<Rightarrow> table option" where
  "packSlots h oldLog [] t = Some t"
| "packSlots h oldLog (w # ws) t =
     (if \<not> isLive w then packSlots h oldLog ws t
      else let offset = word_of_nat (length (t_log t)) :: u32; at = unat (slotOffset w) in
        case recordLen (drop at oldLog) of None \<Rightarrow> None
        | Some n \<Rightarrow>
            (case slice oldLog at (at + n) of None \<Rightarrow> None
             | Some r \<Rightarrow>
                 let t1 = t\<lparr>t_log := t_log t @ r\<rparr> in
                 (case recordHash h t1 offset of None \<Rightarrow> None
                  | Some hash \<Rightarrow>
                      (case placeKnownAbsent t1 hash (slotValue w) offset of None \<Rightarrow> None
                       | Some t' \<Rightarrow> packSlots h oldLog ws t'))))"

definition rebuildPacked :: "(bytes \<Rightarrow> u64) \<Rightarrow> table \<Rightarrow> nat \<Rightarrow> nat \<Rightarrow> table option" where
  "rebuildPacked h t capacity extra =
     packSlots h (t_log t) (t_slots t)
       \<lparr>t_slots = replicate capacity 0, t_log = [],
        t_logcap = length (t_log t) - t_deadBytes t + extra,
        t_deadBytes = 0, t_count = 0, t_tinyFilter = 0\<rparr>"

definition rebuild :: "(bytes \<Rightarrow> u64) \<Rightarrow> table \<Rightarrow> nat \<Rightarrow> table option" where
  "rebuild h t capacity =
     (if t_deadBytes t > minCompactLogBytes \<and> t_deadBytes t * 4 > length (t_log t)
      then rebuildPacked h t capacity 0 else rebuildSlots h t capacity)"

definition growForInsert :: "(bytes \<Rightarrow> u64) \<Rightarrow> table \<Rightarrow> table option" where
  "growForInsert h t =
     (case capacityFor t (t_count t + 1) of None \<Rightarrow> None
      | Some capacity \<Rightarrow> if capacity = length (t_slots t) then Some t else rebuild h t capacity)"

subsection \<open>Reserving\<close>

definition trimLog :: "table \<Rightarrow> nat \<Rightarrow> table" where
  "trimLog t extra =
     (let want = length (t_log t) + extra in
      if t_logcap t \<le> want then t else t\<lparr>t_logcap := want\<rparr>)"

definition ReserveKeys :: "(bytes \<Rightarrow> u64) \<Rightarrow> table \<Rightarrow> nat \<Rightarrow> nat \<Rightarrow> table option" where
  "ReserveKeys h t n0 keyLogBytes =
     (let n = (if n0 < t_count t then t_count t else n0) in
      if n = 0 then Some (t\<lparr>t_slots := [], t_log := [], t_logcap := 0, t_deadBytes := 0, t_tinyFilter := 0\<rparr>)
      else let capacity = tightCapacity n in
        if capacity \<noteq> length (t_slots t) \<or> t_deadBytes t > 0
        then rebuildPacked h t capacity keyLogBytes
        else Some (trimLog t keyLogBytes))"

definition Reserve :: "(bytes \<Rightarrow> u64) \<Rightarrow> table \<Rightarrow> nat \<Rightarrow> table option" where
  "Reserve h t n = ReserveKeys h t n 0"

definition Compact :: "(bytes \<Rightarrow> u64) \<Rightarrow> table \<Rightarrow> table option" where
  "Compact h t = Reserve h t (t_count t)"

subsection \<open>Inserting and deleting\<close>

definition checkValue :: "u32 \<Rightarrow> unit option" where
  "checkValue value = (if value > ucast valueMask then None else Some ())"

definition insertKnownAbsentHashed :: "table \<Rightarrow> bytes \<Rightarrow> u32 \<Rightarrow> u64 \<Rightarrow> table option" where
  "insertKnownAbsentHashed t key value hash =
     (case checkValue value of None \<Rightarrow> None
      | Some _ \<Rightarrow>
          (case appendKey t key of None \<Rightarrow> None
           | Some (t', offset) \<Rightarrow> placeKnownAbsent t' hash value offset))"

datatype insertAt = Existing nat | Fresh nat

fun insertLoop :: "table \<Rightarrow> bytes \<Rightarrow> u64 \<Rightarrow> nat list \<Rightarrow> nat option \<Rightarrow> insertAt option" where
  "insertLoop t key fingerprint [] deleted = map_option Fresh deleted"
| "insertLoop t key fingerprint (i # is) deleted =
     (let w = t_slots t ! i in
      if w = 0 then Some (Fresh (case deleted of Some d \<Rightarrow> d | None \<Rightarrow> i))
      else if isLive w then
        (if slotFingerprint w = fingerprint then
           (case keyEquals (logAt t (slotOffset w)) key of None \<Rightarrow> None
            | Some True \<Rightarrow> Some (Existing i)
            | Some False \<Rightarrow> insertLoop t key fingerprint is deleted)
         else insertLoop t key fingerprint is deleted)
      else insertLoop t key fingerprint is (case deleted of None \<Rightarrow> Some i | Some d \<Rightarrow> Some d))"

definition insertHashed :: "table \<Rightarrow> bytes \<Rightarrow> u32 \<Rightarrow> u64 \<Rightarrow> table option" where
  "insertHashed t0 key value hash =
     (case checkValue value of None \<Rightarrow> None
      | Some _ \<Rightarrow>
          let t = tinyAdd t0 hash; fingerprint = hashFingerprint hash in
          (case insertLoop t key fingerprint (probes t hash) None of
             None \<Rightarrow> None
           | Some (Existing i) \<Rightarrow>
               Some (t\<lparr>t_slots := (t_slots t)[i := slotWord fingerprint value (slotOffset (t_slots t ! i))]\<rparr>)
           | Some (Fresh i) \<Rightarrow>
               (case appendKey t key of None \<Rightarrow> None
                | Some (t', offset) \<Rightarrow>
                    Some (t'\<lparr>t_slots := (t_slots t')[i := slotWord fingerprint value offset],
                             t_count := t_count t' + 1\<rparr>))))"

definition Set :: "(bytes \<Rightarrow> u64) \<Rightarrow> table \<Rightarrow> bytes \<Rightarrow> u32 \<Rightarrow> table option" where
  "Set h t key value =
     (let hash = h key in
      case GetHashed t key hash of None \<Rightarrow> None
      | Some found \<Rightarrow>
          (case (if found = None then growForInsert h t else Some t) of None \<Rightarrow> None
           | Some t' \<Rightarrow> insertHashed t' key value hash))"

definition SetKnownHashed ::
    "(bytes \<Rightarrow> u64) \<Rightarrow> table \<Rightarrow> bytes \<Rightarrow> u32 \<Rightarrow> u64 \<Rightarrow> bool \<Rightarrow> table option" where
  "SetKnownHashed h t key value hash exists =
     (if exists then
        (case GetHashed t key hash of
           Some (Some _) \<Rightarrow> insertHashed t key value hash
         | _ \<Rightarrow> None)
      else
        (case growForInsert h t of None \<Rightarrow> None
         | Some t' \<Rightarrow> insertKnownAbsentHashed t' key value hash))"

fun deleteLoop :: "table \<Rightarrow> bytes \<Rightarrow> u64 \<Rightarrow> nat list \<Rightarrow> nat option option" where
  "deleteLoop t key fingerprint [] = Some None"
| "deleteLoop t key fingerprint (i # is) =
     (let w = t_slots t ! i in
      if w = 0 then Some None
      else if \<not> isLive w \<or> slotFingerprint w \<noteq> fingerprint then deleteLoop t key fingerprint is
      else case keyEquals (logAt t (slotOffset w)) key of
        None \<Rightarrow> None
      | Some True \<Rightarrow> Some (Some i)
      | Some False \<Rightarrow> deleteLoop t key fingerprint is)"

definition deleteHashed :: "(bytes \<Rightarrow> u64) \<Rightarrow> table \<Rightarrow> bytes \<Rightarrow> u64 \<Rightarrow> table option" where
  "deleteHashed h t key hash =
     (if length (t_slots t) = 0 then Some t
      else if tinyRejects t hash then Some t
      else case deleteLoop t key (hashFingerprint hash) (probes t hash) of
        None \<Rightarrow> None
      | Some None \<Rightarrow> Some t
      | Some (Some i) \<Rightarrow>
          (case recordLen (logAt t (slotOffset (t_slots t ! i))) of None \<Rightarrow> None
           | Some n \<Rightarrow>
               let t' = t\<lparr>t_deadBytes := t_deadBytes t + n,
                          t_slots := (t_slots t)[i := slotTombstone],
                          t_count := t_count t - 1\<rparr> in
               if t_count t' = 0
               then Some (t'\<lparr>t_tinyFilter := 0, t_log := [], t_logcap := 0, t_deadBytes := 0\<rparr>)
               else if t_deadBytes t' > minCompactLogBytes \<and> t_deadBytes t' * 3 > length (t_log t')
               then rebuildPacked h t' (length (t_slots t')) 0
               else Some t'))"

definition Delete :: "(bytes \<Rightarrow> u64) \<Rightarrow> table \<Rightarrow> bytes \<Rightarrow> table option" where
  "Delete h t key = deleteHashed h t key (h key)"

subsection \<open>Iteration\<close>

fun allLoop :: "table \<Rightarrow> keyChunk \<Rightarrow> u64 list \<Rightarrow> (bytes \<times> u32) list option" where
  "allLoop t chunk [] = Some []"
| "allLoop t chunk (w # ws) =
     (if isLive w then
        (case keyChunked chunk (logAt t (slotOffset w)) of None \<Rightarrow> None
         | Some (k, chunk') \<Rightarrow> map_option ((#) (k, slotValue w)) (allLoop t chunk' ws))
      else allLoop t chunk ws)"

text \<open>The pairs \<open>All\<close> yields when the caller never stops the iteration.\<close>

definition All_pairs :: "table \<Rightarrow> (bytes \<times> u32) list option" where
  "All_pairs t = allLoop t \<lparr>ck_buf = [], ck_cap = 0\<rparr> (t_slots t)"

definition AllRefs :: "table \<Rightarrow> (u32 \<times> u32) list" where
  "AllRefs t = map (\<lambda>w. (slotOffset w, slotValue w)) (filter isLive (t_slots t))"

fun sampleLoop ::
    "table \<Rightarrow> keyChunk \<Rightarrow> nat \<Rightarrow> nat \<Rightarrow> nat \<Rightarrow> bytes list \<Rightarrow> (bytes list \<times> nat) option" where
  "sampleLoop t chunk limit cursor 0 out = Some (out, cursor)"
| "sampleLoop t chunk limit cursor (Suc n) out =
     (let w = t_slots t ! cursor; cursor' = (cursor + 1) mod length (t_slots t) in
      if isLive w then
        (case keyChunked chunk (logAt t (slotOffset w)) of None \<Rightarrow> None
         | Some (k, chunk') \<Rightarrow>
             let out' = out @ [k] in
             if length out' = limit then Some (out', cursor')
             else sampleLoop t chunk' limit cursor' n out')
      else sampleLoop t chunk limit cursor' n out)"

definition Sample :: "table \<Rightarrow> nat \<Rightarrow> nat \<Rightarrow> nat \<Rightarrow> (bytes list \<times> nat) option" where
  "Sample t cursor budget limit =
     (if length (t_slots t) = 0 \<or> limit = 0 \<or> budget = 0 then Some ([], 0)
      else sampleLoop t \<lparr>ck_buf = [], ck_cap = 0\<rparr> limit (cursor mod length (t_slots t))
        (min budget (length (t_slots t))) [])"

end
