(* ===== verification/IndexCorrect.thy ===== *)
theory IndexCorrect
  imports IndexTable
begin

text \<open>
  Correctness of the index: the invariant of a table, that every operation keeps it, and that the
  table implements a finite map from keys to values.
\<close>

subsection \<open>Slot words\<close>

lemma masks: "fingerprintMask = mask 6" "valueMask = mask 27" "offsetMask = mask 30"
  by (simp_all add: fingerprintMask_def valueMask_def offsetMask_def mask_eq_exp_minus_1)

lemma isLive_bit: "isLive w \<longleftrightarrow> bit w 63"
  unfolding isLive_def liveBit_def
  using and_exp_eq_0_iff_not_bit [of w 63] by (simp only: push_bit_eq_mult mult_1) blast

lemma not_isLive_0 [simp]: "\<not> isLive 0" "\<not> isLive slotTombstone" "slotTombstone \<noteq> 0"
  by (simp_all add: isLive_bit slotTombstone_def bit_1_iff)

lemma take_bit_fingerprint [simp]: "take_bit 6 (hashFingerprint x) = hashFingerprint x"
  by (simp add: hashFingerprint_def masks take_bit_eq_mask [symmetric])

lemma fingerprint_high: "6 \<le> k \<Longrightarrow> \<not> bit (hashFingerprint x) k"
  by (simp add: hashFingerprint_def masks bit_simps)

lemma bit_liveBit: "bit liveBit n \<longleftrightarrow> n = 63"
  by (simp only: liveBit_def bit_push_bit_iff bit_1_iff possible_bit_word) auto

lemma bit_slotWord:
  "bit (slotWord fp v off) n \<longleftrightarrow>
    n < 64 \<and> (n = 63 \<or> 57 \<le> n \<and> bit fp (n - 57) \<or> 30 \<le> n \<and> bit v (n - 30) \<or> bit off n)"
  unfolding slotWord_def
  by (auto simp: bit_liveBit bit_or_iff bit_push_bit_iff bit_unsigned_iff dest: bit_imp_le_length)

lemma isLive_slotWord [simp]: "isLive (slotWord fp v off)"
  by (simp add: isLive_bit bit_slotWord)

lemma slotWord_nonzero [simp]: "slotWord fp v off \<noteq> 0"
  using isLive_slotWord not_isLive_0 by metis

lemma slotFingerprint_slotWord:
  assumes "unat v < 2 ^ 27" "unat off < 2 ^ 30"
  shows "slotFingerprint (slotWord (hashFingerprint x) v off) = hashFingerprint x"
proof (rule bit_eqI)
  fix n assume n: "possible_bit TYPE(64 word) n"
  show "bit (slotFingerprint (slotWord (hashFingerprint x) v off)) n \<longleftrightarrow> bit (hashFingerprint x) n"
    using bits_below [OF assms(1), of "57 + n - 30"] bits_below [OF assms(2), of "57 + n"] fingerprint_high [of n x]
    by (cases "n < 6") (auto simp: slotFingerprint_def masks bit_and_iff bit_drop_bit_eq bit_mask_iff bit_slotWord)
qed

lemma slotValue_slotWord:
  assumes "unat v < 2 ^ 27" "unat off < 2 ^ 30"
  shows "slotValue (slotWord fp v off) = v"
proof (rule bit_eqI)
  fix n assume n: "possible_bit TYPE(32 word) n"
  show "bit (slotValue (slotWord fp v off)) n \<longleftrightarrow> bit v n"
    using n bits_below [OF assms(1), of n] bits_below [OF assms(2), of "30 + n"]
    by (cases "n < 27") (auto simp: slotValue_def masks bit_and_iff bit_drop_bit_eq bit_mask_iff bit_slotWord bit_unsigned_iff)
qed

lemma slotOffset_slotWord:
  assumes "unat off < 2 ^ 30"
  shows "slotOffset (slotWord fp v off) = off"
proof (rule bit_eqI)
  fix n assume n: "possible_bit TYPE(32 word) n"
  show "bit (slotOffset (slotWord fp v off)) n \<longleftrightarrow> bit off n"
    using n bits_below [OF assms(1), of n]
    by (cases "n < 30") (auto simp: slotOffset_def masks bit_and_iff bit_mask_iff bit_slotWord bit_unsigned_iff)
qed

lemma slotValue_less: "unat (slotValue w) < 2 ^ 27"
proof -
  have "take_bit 27 (slotValue w) = slotValue w"
    by (rule bit_eqI) (auto simp: slotValue_def masks bit_simps)
  then have "take_bit 27 (unat (slotValue w)) = unat (slotValue w)" by (metis unsigned_take_bit_eq)
  then show ?thesis by (simp only: take_bit_nat_eq_self_iff)
qed

lemma slotOffset_less: "unat (slotOffset w) < 2 ^ 30"
proof -
  have "take_bit 30 (slotOffset w) = slotOffset w"
    by (rule bit_eqI) (auto simp: slotOffset_def masks bit_simps)
  then have "take_bit 30 (unat (slotOffset w)) = unat (slotOffset w)" by (metis unsigned_take_bit_eq)
  then show ?thesis by (simp only: take_bit_nat_eq_self_iff)
qed

lemma maxLogBytes_eq: "maxLogBytes = 2 ^ 30"
  by (simp add: maxLogBytes_def offsetMask_def)

lemma checkValue_iff: "checkValue v = (if unat v < 2 ^ 27 then Some () else None)"
  by (simp add: checkValue_def valueMask_def word_less_nat_alt)

subsection \<open>Capacity\<close>

lemma capacityAccepts_le: "capacityAccepts n c \<Longrightarrow> n \<le> c"
  by (auto simp: capacityAccepts_def split: if_splits)

lemma capacityAccepts_mono: "capacityAccepts n c \<Longrightarrow> m \<le> n \<Longrightarrow> capacityAccepts m c"
  by (auto simp: capacityAccepts_def split: if_splits)

abbreviation roundCapacity :: "nat \<Rightarrow> nat" where
  "roundCapacity n \<equiv> ((n * 5 + 3) div 4 + 7) div 8 * 8"

lemma roundCapacity_bounds: "10 * n \<le> 8 * roundCapacity n" "4 * roundCapacity n < 5 * n + 32"
proof -
  let ?a = "(n * 5 + 3) div 4"
  have "5 * n \<le> 4 * ?a" "4 * ?a \<le> 5 * n + 3" by linarith+
  moreover have "?a \<le> (?a + 7) div 8 * 8" "(?a + 7) div 8 * 8 \<le> ?a + 7" by linarith+
  ultimately show "10 * n \<le> 8 * roundCapacity n" "4 * roundCapacity n < 5 * n + 32" by linarith+
qed

lemma roundCapacity_accepts: "capacityAccepts n (roundCapacity n)"
proof -
  have "roundCapacity n \<noteq> 4"
  proof
    assume "roundCapacity n = 4"
    then have "(4 :: nat) mod 8 = 0" by (metis mod_mult_self2_is_0)
    then show False by simp
  qed
  then show ?thesis
    using roundCapacity_bounds(1) [of n]
    by (simp add: capacityAccepts_def initialCapacity_def less_eq_div_iff_mult_less_eq mult.commute)
qed

lemma tightCapacity_eq:
  "tightCapacity n = (if n \<le> initialCapacity then initialCapacity else roundCapacity n)"
  using roundCapacity_accepts [of n] by (simp add: tightCapacity_def tightLoop.simps)

lemma tightCapacity_accepts: "capacityAccepts n (tightCapacity n)"
  using roundCapacity_accepts [of n] by (simp add: tightCapacity_eq) (simp add: capacityAccepts_def)

lemma tightCapacity_ge: "initialCapacity \<le> tightCapacity n"
  using roundCapacity_bounds(1) [of n] by (auto simp: tightCapacity_eq initialCapacity_def)

lemma tightCapacity_le: "tightCapacity n \<le> 2 * n + 8"
  using roundCapacity_bounds(2) [of n] by (auto simp: tightCapacity_eq initialCapacity_def)

lemma capacityLoop_accepted: "capacityAccepts n c \<Longrightarrow> capacityLoop n c = Some c"
  by (subst capacityLoop.simps) simp

lemma capacityLoop_large:
  assumes "gradualGrowthMin \<le> c" "\<not> capacityAccepts n c"
  shows "capacityLoop n c = Some (tightCapacity (n + n div 2))" "c \<le> tightCapacity (n + n div 2)"
proof -
  let ?t = "tightCapacity (n + n div 2)"
  have acc: "capacityAccepts n ?t"
    using capacityAccepts_mono [OF tightCapacity_accepts] by simp
  then show "capacityLoop n c = Some ?t" using assms by (subst capacityLoop.simps) (simp add: capacityLoop_accepted)
  have "c * 8 div 10 < n" "4 < n" using assms by (auto simp: capacityAccepts_def initialCapacity_def gradualGrowthMin_def split: if_splits)
  then show "c \<le> ?t" using acc by (auto simp: capacityAccepts_def initialCapacity_def split: if_splits)
qed

lemma capacityLoop_returns:
  assumes "0 < c"
  obtains c' where "capacityLoop n c = Some c'" "capacityAccepts n c'" "c \<le> c'" "c' \<le> max c (3 * n + 512)"
proof -
  have "\<exists>c'. capacityLoop n c = Some c' \<and> capacityAccepts n c' \<and> c \<le> c' \<and> c' \<le> max c (3 * n + 512)"
    using assms
  proof (induction "gradualGrowthMin - c" arbitrary: c rule: less_induct)
    case less
    consider "capacityAccepts n c" | "\<not> capacityAccepts n c" "gradualGrowthMin \<le> c"
      | "\<not> capacityAccepts n c" "c < gradualGrowthMin" by linarith
    then show ?case
    proof cases
      case 1
      then show ?thesis by (simp add: capacityLoop_accepted)
    next
      case 2
      have "tightCapacity (n + n div 2) \<le> 2 * (n + n div 2) + 8" by (rule tightCapacity_le)
      also have "\<dots> \<le> 3 * n + 512" by simp
      finally show ?thesis
        using capacityLoop_large [OF 2(2,1)] capacityAccepts_mono [OF tightCapacity_accepts [of "n + n div 2"], of n] by simp
    next
      case 3
      then have "gradualGrowthMin - c * 2 < gradualGrowthMin - c" using less.prems by simp
      from less.hyps [OF this] less.prems obtain c' where
        "capacityLoop n (c * 2) = Some c'" "capacityAccepts n c'" "c * 2 \<le> c'" "c' \<le> max (c * 2) (3 * n + 512)" by auto
      moreover have "capacityLoop n c = capacityLoop n (c * 2)" using 3 by (subst capacityLoop.simps) simp
      ultimately show ?thesis using 3 by (intro exI [of _ c']) (auto simp: gradualGrowthMin_def)
    qed
  qed
  then show ?thesis using that by blast
qed

lemma capacityFor_returns:
  assumes "0 < n"
  obtains c where "capacityFor t n = Some c" "capacityAccepts n c" "length (t_slots t) \<le> c" "0 < c"
    "c \<le> max (length (t_slots t)) (3 * n + 512)"
proof -
  let ?c = "if length (t_slots t) = 0 then initialCapacity else length (t_slots t)"
  have "0 < ?c" by (simp add: initialCapacity_def)
  then obtain c where "capacityLoop n ?c = Some c" "capacityAccepts n c" "?c \<le> c" "c \<le> max ?c (3 * n + 512)"
    by (rule capacityLoop_returns)
  then show ?thesis using that [of c] assms by (auto simp: capacityFor_def initialCapacity_def split: if_splits)
qed

subsection \<open>Probe sequences\<close>

lemma probeSeq_nth: "i \<le> sz \<Longrightarrow> 0 < sz \<Longrightarrow> probeSeq sz i n = map (\<lambda>j. (i + j) mod sz) [0 ..< n]"
proof (induction sz i n rule: probeSeq.induct)
  case (2 sz i n)
  let ?i = "if i = sz then 0 else i"
  have i: "?i < sz" "?i = i mod sz" using 2(2,3) by auto
  have up: "[0 ..< Suc n] = 0 # map Suc [0 ..< n]" by (simp add: upt_conv_Cons map_Suc_upt del: upt_Suc)
  have "probeSeq sz (?i + 1) n = map (\<lambda>j. (?i + 1 + j) mod sz) [0 ..< n]"
    using 2(1) [OF refl] i(1) 2(3) by simp
  also have "(\<lambda>j. (?i + 1 + j) mod sz) = (\<lambda>j. (i + Suc j) mod sz)"
    unfolding i(2) by (metis add.assoc mod_add_left_eq plus_1_eq_Suc)
  finally show ?case unfolding up using i(2) by (simp add: Let_def comp_def)
qed simp


lemma probeSeq_rotate: "i < sz \<Longrightarrow> probeSeq sz i sz = rotate i [0 ..< sz]"
  by (rule nth_equalityI) (simp_all add: probeSeq_nth nth_rotate)

lemma probeStart_less:
  assumes "0 < length (t_slots t)" "length (t_slots t) < 2 ^ 32"
  shows "probeStart t hash < length (t_slots t)"
proof -
  let ?n = "length (t_slots t)" let ?x = "ucast hash :: u32"
  have x: "unat ?x < 2 ^ 32" using unsigned_less [of ?x, where ?'a = nat] by simp
  then have "unat ?x * ?n < 2 ^ 32 * 2 ^ 32" using assms by (intro mult_strict_mono) simp_all
  then have lt: "unat ?x * ?n < 2 ^ 64" by simp
  have ux: "unat (ucast ?x :: u64) = unat ?x" using x by (simp add: unsigned_ucast_eq unsigned_take_bit_eq take_bit_nat_eq_self)
  have un: "unat (word_of_nat ?n :: u64) = ?n" using assms(2) by (simp add: unsigned_of_nat take_bit_nat_eq_self)
  have "unat (ucast ?x * word_of_nat ?n :: u64) = unat ?x * ?n"
    unfolding unat_word_ariths ux un using lt by simp
  then have "probeStart t hash = unat ?x * ?n div 2 ^ 32"
    by (simp add: probeStart_def unsigned_drop_bit_eq drop_bit_eq_div take_bit_nat_eq_self unat_div)
  also have "\<dots> < ?n" using x assms(1) by (intro less_mult_imp_div_less) (simp add: mult.commute)
  finally show ?thesis .
qed

lemma probes_props:
  assumes "length (t_slots t) < 2 ^ 32"
  shows "set (probes t hash) = {..< length (t_slots t)}" "distinct (probes t hash)"
proof -
  have "probes t hash = (if length (t_slots t) = 0 then [] else rotate (probeStart t hash) [0 ..< length (t_slots t)])"
    using assms by (simp add: probes_def probeSeq_rotate probeStart_less)
  then show "set (probes t hash) = {..< length (t_slots t)}" "distinct (probes t hash)" by (auto simp: atLeast0LessThan)
qed


subsection \<open>The invariant\<close>

definition recordAt :: "bytes \<Rightarrow> nat \<Rightarrow> bytes \<Rightarrow> bool" where
  "recordAt log off k \<longleftrightarrow> length k < 2 ^ 64 \<and> (\<exists>r. drop off log = keyRecordOf k @ r)"

definition keyOf :: "bytes \<Rightarrow> u64 \<Rightarrow> bytes" where
  "keyOf log w = the (keyAt (drop (unat (slotOffset w)) log))"

definition entry :: "bytes \<Rightarrow> u64 \<Rightarrow> (bytes \<times> u32) option" where
  "entry log w = (if isLive w then Some (keyOf log w, slotValue w) else None)"

definition entries :: "table \<Rightarrow> (bytes \<times> u32) list" where
  "entries t = List.map_filter (entry (t_log t)) (t_slots t)"

definition tmap :: "table \<Rightarrow> bytes \<Rightarrow> u32 option" where
  "tmap t = map_of (entries t)"

definition slot_ok :: "(bytes \<Rightarrow> u64) \<Rightarrow> table \<Rightarrow> u64 \<Rightarrow> bool" where
  "slot_ok h t w \<longleftrightarrow> recordAt (t_log t) (unat (slotOffset w)) (keyOf (t_log t) w)
     \<and> slotFingerprint w = hashFingerprint (h (keyOf (t_log t) w))
     \<and> (length (t_slots t) = initialCapacity \<longrightarrow>
          t_tinyFilter t AND tinyFilterBits (h (keyOf (t_log t) w)) = tinyFilterBits (h (keyOf (t_log t) w)))"

definition reachable :: "(bytes \<Rightarrow> u64) \<Rightarrow> table \<Rightarrow> nat \<Rightarrow> bool" where
  "reachable h t i \<longleftrightarrow>
     (\<forall>j \<in> set (takeWhile (\<lambda>j. j \<noteq> i) (probes t (h (keyOf (t_log t) (t_slots t ! i))))). t_slots t ! j \<noteq> 0)"

definition slots_ok :: "(bytes \<Rightarrow> u64) \<Rightarrow> table \<Rightarrow> bool" where
  "slots_ok h t \<longleftrightarrow> length (t_slots t) < 2 ^ 32
     \<and> (\<forall>i < length (t_slots t). isLive (t_slots t ! i) \<longrightarrow> slot_ok h t (t_slots t ! i) \<and> reachable h t i)
     \<and> distinct (map fst (entries t)) \<and> t_count t = length (entries t)"

definition logSize :: "(bytes \<times> u32) list \<Rightarrow> nat" where
  "logSize es = sum_list (map (\<lambda>(k, _). length (keyRecordOf k)) es)"

definition table_ok :: "(bytes \<Rightarrow> u64) \<Rightarrow> table \<Rightarrow> bool" where
  "table_ok h t \<longleftrightarrow> slots_ok h t \<and> t_deadBytes t + logSize (entries t) = length (t_log t)
     \<and> length (t_log t) \<le> maxLogBytes"

lemma keyOf_recordAt: "recordAt log (unat (slotOffset w)) k \<Longrightarrow> keyOf log w = k"
  unfolding recordAt_def keyOf_def by (auto simp: keyAt_record)

lemma recordAt_append: "recordAt log off k \<Longrightarrow> recordAt (log @ l) off k"
  unfolding recordAt_def by (cases "off \<le> length log") (auto simp: keyRecordOf_def split: option.splits if_splits)

lemma map_filter_nth_distinct:
  assumes "distinct (map fst (List.map_filter f xs))" "i < length xs" "j < length xs"
    "f (xs ! i) = Some (k, a)" "f (xs ! j) = Some (k, b)"
  shows "i = j"
  using assms
proof (induction xs arbitrary: i j)
  case (Cons x xs)
  have mem: "k \<in> fst ` set (List.map_filter f xs)" if "n < length xs" "f (xs ! n) = Some (k, c)" for n c
    using that by (force simp: map_filter_def image_iff)
  show ?case
    using Cons.prems Cons.IH [of "i - 1" "j - 1"] mem
    by (cases i; cases j) (auto simp: map_filter_simps split: option.splits)
qed simp

lemma set_entries: "set (entries t) = {e. \<exists>i < length (t_slots t). entry (t_log t) (t_slots t ! i) = Some e}"
  by (force simp: entries_def map_filter_def in_set_conv_nth)

lemma map_filter_append: "List.map_filter f (a @ b) = List.map_filter f a @ List.map_filter f b"
  by (simp add: map_filter_def)

lemma map_filter_take_drop:
  assumes "i < length xs"
  shows "List.map_filter f xs = List.map_filter f (take i xs)
     @ (case f (xs ! i) of None \<Rightarrow> [] | Some y \<Rightarrow> [y]) @ List.map_filter f (drop (Suc i) xs)"
proof -
  have "List.map_filter f xs = List.map_filter f (take i xs @ xs ! i # drop (Suc i) xs)"
    using assms by (simp add: id_take_nth_drop [symmetric])
  then show ?thesis by (simp add: map_filter_append map_filter_simps split: option.split)
qed

lemma map_filter_update:
  assumes "i < length xs" "f (xs ! i) = None" "f x = Some y"
  shows "mset (List.map_filter f (xs[i := x])) = add_mset y (mset (List.map_filter f xs))"
  using assms map_filter_take_drop [of i xs f] map_filter_take_drop [of i "xs[i := x]" f] by simp

lemma map_filter_replace:
  assumes "i < length xs" "f (xs ! i) = Some (k, a)" "f x = Some (k, b)"
  shows "map fst (List.map_filter f (xs[i := x])) = map fst (List.map_filter f xs)"
  using assms map_filter_take_drop [of i xs f] map_filter_take_drop [of i "xs[i := x]" f] by simp

lemma map_filter_remove:
  assumes "i < length xs" "f (xs ! i) = Some y" "f x = None"
  shows "mset (List.map_filter f xs) = add_mset y (mset (List.map_filter f (xs[i := x])))"
  using assms map_filter_take_drop [of i xs f] map_filter_take_drop [of i "xs[i := x]" f] by simp

lemma slot_entry:
  "isLive w \<Longrightarrow> entry log w = Some (keyOf log w, slotValue w)" "\<not> isLive w \<Longrightarrow> entry log w = None"
  by (simp_all add: entry_def)

lemma tmap_Some_iff:
  assumes "slots_ok h t"
  shows "tmap t k = Some v \<longleftrightarrow> (\<exists>i < length (t_slots t). isLive (t_slots t ! i)
    \<and> keyOf (t_log t) (t_slots t ! i) = k \<and> slotValue (t_slots t ! i) = v)"
proof -
  have "tmap t k = Some v \<longleftrightarrow> (k, v) \<in> set (entries t)"
    using assms by (simp add: tmap_def slots_ok_def)
  also have "\<dots> \<longleftrightarrow> (\<exists>i < length (t_slots t). isLive (t_slots t ! i)
    \<and> keyOf (t_log t) (t_slots t ! i) = k \<and> slotValue (t_slots t ! i) = v)"
    unfolding set_entries entry_def by auto
  finally show ?thesis .
qed

lemma live_unique:
  assumes "slots_ok h t" "i < length (t_slots t)" "j < length (t_slots t)"
    "isLive (t_slots t ! i)" "isLive (t_slots t ! j)"
    "keyOf (t_log t) (t_slots t ! i) = keyOf (t_log t) (t_slots t ! j)"
  shows "i = j"
  using assms map_filter_nth_distinct [of "entry (t_log t)" "t_slots t" i j]
  by (simp add: slots_ok_def entries_def entry_def)

subsection \<open>Probing\<close>

text \<open>All three probe loops stop at the first position that is empty or holds the key.\<close>

definition holds :: "table \<Rightarrow> bytes \<Rightarrow> nat \<Rightarrow> bool" where
  "holds t key i \<longleftrightarrow> isLive (t_slots t ! i) \<and> keyOf (t_log t) (t_slots t ! i) = key"

definition stop :: "table \<Rightarrow> bytes \<Rightarrow> nat \<Rightarrow> bool" where
  "stop t key i \<longleftrightarrow> t_slots t ! i = 0 \<or> holds t key i"

lemma slot_test:
  assumes "slots_ok h t" "i < length (t_slots t)" "isLive (t_slots t ! i)"
  shows "keyEquals (logAt t (slotOffset (t_slots t ! i))) key = Some (holds t key i)"
    and "holds t key i \<Longrightarrow> slotFingerprint (t_slots t ! i) = hashFingerprint (h key)"
proof -
  have "slot_ok h t (t_slots t ! i)" using assms by (simp add: slots_ok_def)
  then show "keyEquals (logAt t (slotOffset (t_slots t ! i))) key = Some (holds t key i)"
    and "holds t key i \<Longrightarrow> slotFingerprint (t_slots t ! i) = hashFingerprint (h key)"
    using assms(3) by (auto simp: slot_ok_def recordAt_def logAt_def holds_def keyEquals_record)
qed

lemma getLoop_find:
  assumes "slots_ok h t" "set is \<subseteq> {..< length (t_slots t)}"
  shows "getLoop t key (hashFingerprint (h key)) is =
    Some (case find (stop t key) is of None \<Rightarrow> None
      | Some i \<Rightarrow> if t_slots t ! i = 0 then None else Some (slotValue (t_slots t ! i)))"
  using assms(2)
proof (induction "is")
  case (Cons i "is")
  then have i: "i < length (t_slots t)" by simp
  show ?case
    using Cons slot_test [OF assms(1) i, of key]
    by (cases "t_slots t ! i = 0"; cases "isLive (t_slots t ! i)"; cases "holds t key i")
       (auto simp: Let_def stop_def holds_def)
qed simp

lemma deleteLoop_find:
  assumes "slots_ok h t" "set is \<subseteq> {..< length (t_slots t)}"
  shows "deleteLoop t key (hashFingerprint (h key)) is =
    Some (case find (stop t key) is of None \<Rightarrow> None
      | Some i \<Rightarrow> if t_slots t ! i = 0 then None else Some i)"
  using assms(2)
proof (induction "is")
  case (Cons i "is")
  then have i: "i < length (t_slots t)" by simp
  show ?case
    using Cons slot_test [OF assms(1) i, of key]
    by (cases "t_slots t ! i = 0"; cases "isLive (t_slots t ! i)"; cases "holds t key i")
       (auto simp: Let_def stop_def holds_def)
qed simp

lemma insertLoop_find:
  assumes "slots_ok h t" "set is \<subseteq> {..< length (t_slots t)}"
  shows "insertLoop t key (hashFingerprint (h key)) is del =
    (case find (stop t key) is of
       Some i \<Rightarrow> if holds t key i then Some (Existing i)
                 else map_option Fresh (placeLoop (t_slots t) is del)
     | None \<Rightarrow> map_option Fresh (placeLoop (t_slots t) is del))"
  using assms(2)
proof (induction "is" arbitrary: del)
  case (Cons i "is")
  then have i: "i < length (t_slots t)" by simp
  show ?case
    using Cons slot_test [OF assms(1) i, of key]
    by (cases "t_slots t ! i = 0"; cases "isLive (t_slots t ! i)"; cases "holds t key i")
       (simp_all add: Let_def stop_def holds_def split: option.split)
qed simp

lemma find_takeWhile:
  assumes "i \<in> set is" "P i" "\<forall>j \<in> set (takeWhile (\<lambda>j. j \<noteq> i) is). \<not> P j"
  shows "find P is = Some i"
  using assms by (induction "is") (auto split: if_splits)

lemma find_stop_present:
  assumes ok: "slots_ok h t" and i: "i < length (t_slots t)" "holds t key i"
  shows "find (stop t key) (probes t (h key)) = Some i"
proof (rule find_takeWhile)
  have len: "length (t_slots t) < 2 ^ 32" using ok by (simp add: slots_ok_def)
  show "i \<in> set (probes t (h key))" using probes_props(1) [OF len] i(1) by simp
  show "stop t key i" using i(2) by (simp add: stop_def)
  show "\<forall>j \<in> set (takeWhile (\<lambda>j. j \<noteq> i) (probes t (h key))). \<not> stop t key j"
  proof
    fix j assume j: "j \<in> set (takeWhile (\<lambda>j. j \<noteq> i) (probes t (h key)))"
    have "reachable h t i" using ok i by (simp add: slots_ok_def holds_def)
    then have "t_slots t ! j \<noteq> 0" using j i(2) by (auto simp: reachable_def holds_def)
    moreover have "j \<noteq> i" "j < length (t_slots t)"
      using set_takeWhileD [OF j] probes_props(1) [OF len] by auto
    ultimately show "\<not> stop t key j" using live_unique [OF ok, of i j] i by (auto simp: stop_def holds_def)
  qed
qed


lemma tmap_None_iff:
  assumes "slots_ok h t"
  shows "tmap t k = None \<longleftrightarrow> (\<forall>i < length (t_slots t). \<not> holds t k i)"
  using tmap_Some_iff [OF assms, of k] by (cases "tmap t k") (auto simp: holds_def)

lemma tinyRejects_absent:
  assumes "slots_ok h t" "tinyRejects t (h key)" "i < length (t_slots t)"
  shows "\<not> holds t key i"
  using assms by (auto simp: tinyRejects_def slots_ok_def slot_ok_def holds_def)

lemma probes_subset: "slots_ok h t \<Longrightarrow> set (probes t x) \<subseteq> {..< length (t_slots t)}"
  using probes_props(1) by (auto simp: slots_ok_def)

lemma find_stop_absent:
  assumes "slots_ok h t" "\<forall>i < length (t_slots t). \<not> holds t key i"
    "find (stop t key) (probes t x) = Some i"
  shows "t_slots t ! i = 0"
proof -
  have "stop t key i" "i \<in> set (probes t x)" using assms(3) by (auto simp: find_Some_iff)
  then show ?thesis using assms(2) probes_subset [OF assms(1)] by (auto simp: stop_def)
qed

lemma GetHashed_tmap:
  assumes ok: "slots_ok h t"
  shows "GetHashed t key (h key) = Some (tmap t key)"
proof (cases "\<exists>i < length (t_slots t). holds t key i")
  case True
  then obtain i where i: "i < length (t_slots t)" "holds t key i" by blast
  then have "\<not> tinyRejects t (h key)" "t_slots t \<noteq> []" using tinyRejects_absent [OF ok] by auto
  moreover have "t_slots t ! i \<noteq> 0" using i(2) by (auto simp: holds_def)
  moreover have "tmap t key = Some (slotValue (t_slots t ! i))"
    using i unfolding tmap_Some_iff [OF ok] holds_def by blast
  ultimately show ?thesis
    using getLoop_find [OF ok probes_subset [OF ok]] find_stop_present [OF ok i]
    by (simp add: GetHashed_def)
next
  case False
  then have "tmap t key = None" using tmap_None_iff [OF ok] by blast
  then show ?thesis
    using getLoop_find [OF ok probes_subset [OF ok], of key "h key"] find_stop_absent [OF ok, of key "h key"] False
    by (auto simp: GetHashed_def split: option.split)
qed

subsection \<open>Placing a word\<close>

lemma placeLoop_Some [simp]: "placeLoop slots is (Some d) = Some d"
  by (induction "is") (auto simp: Let_def)

lemma placeLoop_place:
  assumes "placeLoop slots is None = Some p"
  shows "p \<in> set is" "\<not> isLive (slots ! p)" "\<forall>j \<in> set (takeWhile (\<lambda>j. j \<noteq> p) is). slots ! j \<noteq> 0"
  using assms by (induction "is") (auto simp: Let_def split: if_splits)

lemma placeLoop_free: "i \<in> set is \<Longrightarrow> \<not> isLive (slots ! i) \<Longrightarrow> placeLoop slots is None \<noteq> None"
  by (induction "is") (auto simp: Let_def)

lemma free_slot:
  assumes "length (entries t) < length (t_slots t)"
  obtains i where "i < length (t_slots t)" "\<not> isLive (t_slots t ! i)"
proof -
  have "length (List.map_filter (entry l) ws) = length ws" if "\<forall>w \<in> set ws. isLive w" for l ws
    using that by (induction ws) (auto simp: map_filter_simps entry_def)
  then have "\<not> (\<forall>w \<in> set (t_slots t). isLive w)" using assms unfolding entries_def by fastforce
  then show ?thesis using that by (auto simp: in_set_conv_nth)
qed

lemma probes_cong: "length (t_slots t) = length (t_slots t') \<Longrightarrow> probes t = probes t'"
  by (simp add: probes_def probeStart_def fun_eq_iff)

lemma tinyAdd_simps [simp]:
  "t_slots (tinyAdd t x) = t_slots t" "t_log (tinyAdd t x) = t_log t" "t_logcap (tinyAdd t x) = t_logcap t"
  "t_deadBytes (tinyAdd t x) = t_deadBytes t" "t_count (tinyAdd t x) = t_count t"
  by (simp_all add: tinyAdd_def)

lemma tinyAdd_filter:
  "length (t_slots t) = initialCapacity \<Longrightarrow> t_tinyFilter (tinyAdd t x) AND tinyFilterBits x = tinyFilterBits x"
  "t_tinyFilter t AND b = b \<Longrightarrow> t_tinyFilter (tinyAdd t x) AND b = b"
proof -
  have 1: "(a OR b) AND b = b" for a b :: u32 by (rule bit_eqI) (auto simp: bit_simps)
  have 2: "(a OR c) AND b = b" if ab: "a AND b = b" for a b c :: u32
  proof (rule bit_eqI)
    fix n
    have "bit (a AND b) n \<longleftrightarrow> bit b n" by (simp only: ab)
    then show "bit ((a OR c) AND b) n \<longleftrightarrow> bit b n" by (auto simp: bit_simps)
  qed
  show "length (t_slots t) = initialCapacity \<Longrightarrow> t_tinyFilter (tinyAdd t x) AND tinyFilterBits x = tinyFilterBits x"
    by (simp add: tinyAdd_def 1)
  show "t_tinyFilter t AND b = b \<Longrightarrow> t_tinyFilter (tinyAdd t x) AND b = b"
    by (simp add: tinyAdd_def 2)
qed


definition putSlot :: "table \<Rightarrow> u64 \<Rightarrow> nat \<Rightarrow> u64 \<Rightarrow> table" where
  "putSlot t hash p w = (tinyAdd t hash)\<lparr>t_slots := (t_slots t)[p := w], t_count := t_count t + 1\<rparr>"

lemma putSlot_simps [simp]:
  "t_slots (putSlot t x p w) = (t_slots t)[p := w]" "t_log (putSlot t x p w) = t_log t"
  "t_logcap (putSlot t x p w) = t_logcap t" "t_deadBytes (putSlot t x p w) = t_deadBytes t"
  "t_count (putSlot t x p w) = t_count t + 1" "t_tinyFilter (putSlot t x p w) = t_tinyFilter (tinyAdd t x)"
  by (simp_all add: putSlot_def)

text \<open>Writing a live word for a new key over a free slot of its probe path.\<close>

lemma putSlot_ok:
  assumes ok: "slots_ok h t" and p: "p < length (t_slots t)" "\<not> isLive (t_slots t ! p)"
    and path: "\<forall>j \<in> set (takeWhile (\<lambda>j. j \<noteq> p) (probes t (h k))). t_slots t ! j \<noteq> 0"
    and new: "k \<notin> fst ` set (entries t)" and rec: "recordAt (t_log t) (unat off) k"
    and v: "unat v < 2 ^ 27" and off: "unat off < 2 ^ 30"
  defines "w \<equiv> slotWord (hashFingerprint (h k)) v off"
  shows "slots_ok h (putSlot t (h k) p w)"
    and "mset (entries (putSlot t (h k) p w)) = add_mset (k, v) (mset (entries t))"
proof -
  let ?t = "putSlot t (h k) p w"
  have key: "keyOf (t_log t) w = k" using rec off by (simp add: w_def slotOffset_slotWord keyOf_recordAt)
  have w0: "w \<noteq> 0" by (simp add: w_def)
  have ent: "entry (t_log t) w = Some (k, v)" using key v off by (simp add: entry_def w_def slotValue_slotWord)
  show ms: "mset (entries ?t) = add_mset (k, v) (mset (entries t))"
    unfolding entries_def using map_filter_update [OF p(1), of "entry (t_log t)" w "(k, v)"] p(2) ent by (simp add: slot_entry)
  have len: "length (entries ?t) = Suc (length (entries t))" using arg_cong [OF ms, of size] by simp
  have dist: "distinct (map fst (entries ?t))"
  proof -
    have "mset (map fst (entries ?t)) = mset (k # map fst (entries t))" using ms by simp
    then have "distinct (map fst (entries ?t)) \<longleftrightarrow> distinct (k # map fst (entries t))" by (rule mset_eq_imp_distinct_iff)
    then show ?thesis using new ok by (simp add: slots_ok_def)
  qed
  have pr: "probes ?t = probes t" by (rule probes_cong) simp
  have slot: "slot_ok h ?t (t_slots ?t ! i) \<and> reachable h ?t i"
    if i: "i < length (t_slots t)" "isLive (t_slots ?t ! i)" for i
  proof (cases "i = p")
    case True
    have "slot_ok h ?t w"
      using rec off v key by (auto simp: slot_ok_def w_def slotOffset_slotWord slotFingerprint_slotWord tinyAdd_filter(1))
    moreover have "reachable h ?t p"
    proof -
      have "(t_slots t)[p := w] ! j = t_slots t ! j" if "j \<in> set (takeWhile (\<lambda>j. j \<noteq> p) (probes t (h k)))" for j
        using set_takeWhileD [OF that] by simp
      then show ?thesis unfolding reachable_def pr using p key path by simp
    qed
    ultimately show ?thesis using True p(1) by simp
  next
    case False
    then have old: "isLive (t_slots t ! i)" using i(2) by simp
    then have "slot_ok h t (t_slots t ! i)" and r: "reachable h t i" using ok i(1) by (simp_all add: slots_ok_def)
    then have "slot_ok h ?t (t_slots t ! i)" by (auto simp: slot_ok_def intro: tinyAdd_filter(2))
    moreover have "reachable h ?t i"
      using r False p w0 unfolding reachable_def pr by (auto simp: nth_list_update)
    ultimately show ?thesis using False by simp
  qed
  then show "slots_ok h ?t" using ok dist len by (simp add: slots_ok_def)
qed

lemma map_of_mset:
  assumes "distinct (map fst xs)" "mset xs = mset ys"
  shows "map_of xs = map_of ys"
proof
  fix k
  have "mset (map fst xs) = mset (map fst ys)" using assms(2) by simp
  then have d: "distinct (map fst ys)" using assms(1) mset_eq_imp_distinct_iff by blast
  have "map_of xs k = Some v \<longleftrightarrow> map_of ys k = Some v" for v
    using assms(1) d mset_eq_setD [OF assms(2)] by simp
  then show "map_of xs k = map_of ys k" by (metis not_Some_eq)
qed

lemma tmap_insert:
  assumes "slots_ok h t'" "mset (entries t') = add_mset (k, v) (mset (entries t))"
  shows "tmap t' = (tmap t)(k \<mapsto> v)"
proof -
  have "map_of (entries t') = map_of ((k, v) # entries t)"
    using assms by (intro map_of_mset) (simp_all add: slots_ok_def)
  then show ?thesis by (simp add: tmap_def fun_upd_def)
qed

lemma tmap_same:
  assumes "slots_ok h t'" "mset (entries t') = mset (entries t)"
  shows "tmap t' = tmap t"
  using assms by (simp add: tmap_def slots_ok_def map_of_mset)

lemma placeKnownAbsent_ok:
  assumes ok: "slots_ok h t" and room: "length (entries t) < length (t_slots t)"
    and new: "k \<notin> fst ` set (entries t)" and rec: "recordAt (t_log t) (unat off) k"
    and v: "unat v < 2 ^ 27" and off: "unat off < 2 ^ 30"
  obtains t' where "placeKnownAbsent t (h k) v off = Some t'" "slots_ok h t'"
    "mset (entries t') = add_mset (k, v) (mset (entries t))" "length (t_slots t') = length (t_slots t)"
    "t_log t' = t_log t" "t_logcap t' = t_logcap t" "t_deadBytes t' = t_deadBytes t"
proof -
  have len: "length (t_slots t) < 2 ^ 32" using ok by (simp add: slots_ok_def)
  obtain i where i: "i < length (t_slots t)" "\<not> isLive (t_slots t ! i)" by (rule free_slot [OF room])
  then obtain p where p: "placeLoop (t_slots t) (probes t (h k)) None = Some p"
    using placeLoop_free [of i "probes t (h k)" "t_slots t"] probes_props(1) [OF len] by auto
  note pl = placeLoop_place [OF p]
  have pn: "p < length (t_slots t)" using pl(1) probes_props(1) [OF len] by auto
  have "placeKnownAbsent t (h k) v off = Some (putSlot t (h k) p (slotWord (hashFingerprint (h k)) v off))"
    using p by (simp add: placeKnownAbsent_def Let_def putSlot_def probes_cong [of "tinyAdd t (h k)" t])
  then show ?thesis using putSlot_ok [OF ok pn pl(2,3) new rec v off] that by simp
qed

subsection \<open>Rebuilding\<close>

text \<open>A list of slot words whose live members are records of a log.\<close>

definition words_ok :: "bytes \<Rightarrow> u64 list \<Rightarrow> bool" where
  "words_ok log ws \<longleftrightarrow> (\<forall>w \<in> set ws. isLive w \<longrightarrow> recordAt log (unat (slotOffset w)) (keyOf log w))"

abbreviation live_entries :: "bytes \<Rightarrow> u64 list \<Rightarrow> (bytes \<times> u32) list" where
  "live_entries log ws \<equiv> List.map_filter (entry log) ws"

lemma words_ok_slots: "slots_ok h t \<Longrightarrow> words_ok (t_log t) (t_slots t)"
  by (auto simp: slots_ok_def words_ok_def slot_ok_def in_set_conv_nth)

lemma recordHash_keyOf:
  "recordAt (t_log t) (unat off) k \<Longrightarrow> recordHash h t off = Some (h k)"
  by (auto simp: recordHash_def recordAt_def logAt_def keyAt_record)

definition grown :: "(bytes \<Rightarrow> u64) \<Rightarrow> table \<Rightarrow> (bytes \<times> u32) list \<Rightarrow> table \<Rightarrow> bool" where
  "grown h t es t' \<longleftrightarrow> slots_ok h t' \<and> mset (entries t') = mset es + mset (entries t)
     \<and> length (t_slots t') = length (t_slots t) \<and> t_logcap t' = t_logcap t \<and> t_deadBytes t' = t_deadBytes t"

lemma distinct_shift:
  assumes "distinct (map fst (a # xs @ ys))" "mset zs = add_mset a (mset ys)"
  shows "distinct (map fst (xs @ zs))"
proof -
  have "mset (map fst (xs @ zs)) = mset (map fst (a # xs @ ys))" using assms(2) by simp
  then show ?thesis using assms(1) mset_eq_imp_distinct_iff by blast
qed

lemma replaceSlots_ok:
  assumes "slots_ok h t" "words_ok (t_log t) ws"
    "distinct (map fst (live_entries (t_log t) ws @ entries t))"
    "length (live_entries (t_log t) ws) + length (entries t) \<le> length (t_slots t)"
  shows "\<exists>t'. replaceSlots h ws t = Some t' \<and> grown h t (live_entries (t_log t) ws) t' \<and> t_log t' = t_log t"
  using assms
proof (induction ws arbitrary: t)
  case Nil
  then show ?case by (simp add: map_filter_simps grown_def)
next
  case (Cons w ws)
  show ?case
  proof (cases "isLive w")
    case False
    then show ?thesis
      using Cons.IH [of t] Cons.prems by (simp add: words_ok_def map_filter_simps slot_entry)
  next
    case True
    let ?k = "keyOf (t_log t) w"
    have rec: "recordAt (t_log t) (unat (slotOffset w)) ?k" using Cons.prems(2) True by (simp add: words_ok_def)
    have le: "live_entries (t_log t) (w # ws) = (?k, slotValue w) # live_entries (t_log t) ws"
      using True by (simp add: map_filter_simps slot_entry)
    have new: "?k \<notin> fst ` set (entries t)" and room: "length (entries t) < length (t_slots t)"
      using Cons.prems(3,4) unfolding le by auto
    obtain t1 where t1: "placeKnownAbsent t (h ?k) (slotValue w) (slotOffset w) = Some t1" "slots_ok h t1"
      "mset (entries t1) = add_mset (?k, slotValue w) (mset (entries t))" "length (t_slots t1) = length (t_slots t)"
      "t_log t1 = t_log t" "t_logcap t1 = t_logcap t" "t_deadBytes t1 = t_deadBytes t"
      by (rule placeKnownAbsent_ok [OF Cons.prems(1) room new rec slotValue_less slotOffset_less])
    have ws: "words_ok (t_log t1) ws" using Cons.prems(2) t1(5) by (simp add: words_ok_def)
    have d: "distinct (map fst (live_entries (t_log t1) ws @ entries t1))"
      by (rule distinct_shift [OF _ t1(3)]) (use Cons.prems(3) [unfolded le] in \<open>simp add: t1(5)\<close>)
    have sz: "length (entries t1) = Suc (length (entries t))" using arg_cong [OF t1(3), of size] by simp
    have "length (live_entries (t_log t1) ws) + length (entries t1) \<le> length (t_slots t1)"
      using Cons.prems(4) le sz t1(4,5) by simp
    from Cons.IH [OF t1(2) ws d this] obtain t2 where
      "replaceSlots h ws t1 = Some t2" "grown h t1 (live_entries (t_log t1) ws) t2" "t_log t2 = t_log t1" by blast
    then show ?thesis
      using t1 True recordHash_keyOf [OF rec] le by (simp add: grown_def)
  qed
qed

lemma logSize_mset: "mset a = mset b \<Longrightarrow> logSize a = logSize b"
proof -
  have "logSize es = sum_mset (image_mset (\<lambda>(k, _). length (keyRecordOf k)) (mset es))" for es
    by (induction es) (simp_all add: logSize_def)
  then show "mset a = mset b \<Longrightarrow> logSize a = logSize b" by simp
qed

lemma logSize_Cons [simp]: "logSize [] = 0" "logSize ((k, v) # es) = length (keyRecordOf k) + logSize es"
  by (simp_all add: logSize_def)

lemma keyRecordOf_pos: "0 < length (keyRecordOf k)"
  by (simp add: keyRecordOf_def appendTo_def Let_def split: option.split)

lemma keyOf_append: "recordAt log (unat (slotOffset w)) (keyOf log w) \<Longrightarrow> keyOf (log @ r) w = keyOf log w"
  by (intro keyOf_recordAt recordAt_append)

lemma live_entries_append: "words_ok log ws \<Longrightarrow> live_entries (log @ r) ws = live_entries log ws"
  by (induction ws) (simp_all add: words_ok_def map_filter_simps entry_def keyOf_append)

text \<open>Appending to the log changes no entry.\<close>

abbreviation logAppend :: "table \<Rightarrow> bytes \<Rightarrow> nat \<Rightarrow> table" where
  "logAppend t r c \<equiv> t\<lparr>t_log := t_log t @ r, t_logcap := c\<rparr>"

lemma entries_logAppend: "slots_ok h t \<Longrightarrow> entries (logAppend t r c) = entries t"
  unfolding entries_def using live_entries_append [OF words_ok_slots] by simp

lemma slots_ok_logAppend:
  assumes "slots_ok h t"
  shows "slots_ok h (logAppend t r c)"
proof -
  let ?t = "logAppend t r c"
  have pr: "probes ?t = probes t" by (rule probes_cong) simp
  have "slot_ok h ?t w \<and> keyOf (t_log ?t) w = keyOf (t_log t) w" if "slot_ok h t w" for w
    using that keyOf_append [of "t_log t" w r] by (simp add: slot_ok_def recordAt_append)
  then show ?thesis
    using assms entries_logAppend [OF assms, where r = r and c = c] by (simp add: slots_ok_def reachable_def pr)
qed

lemma recordAt_end: "length k < 2 ^ 64 \<Longrightarrow> recordAt (log @ keyRecordOf k) (length log) k"
  by (simp add: recordAt_def)

lemma packSlots_ok:
  assumes "slots_ok h t" "words_ok log ws"
    "distinct (map fst (live_entries log ws @ entries t))"
    "length (live_entries log ws) + length (entries t) \<le> length (t_slots t)"
    "logSize (live_entries log ws) + length (t_log t) \<le> maxLogBytes"
  shows "\<exists>t'. packSlots h log ws t = Some t' \<and> grown h t (live_entries log ws) t'
    \<and> length (t_log t') = length (t_log t) + logSize (live_entries log ws)"
  using assms
proof (induction ws arbitrary: t)
  case Nil
  then show ?case by (simp add: map_filter_simps grown_def)
next
  case (Cons w ws)
  show ?case
  proof (cases "isLive w")
    case False
    then show ?thesis
      using Cons.IH [of t] Cons.prems by (simp add: words_ok_def map_filter_simps slot_entry)
  next
    case True
    let ?k = "keyOf log w" let ?at = "unat (slotOffset w)" let ?n = "length (t_log t)"
    let ?t = "logAppend t (keyRecordOf ?k) (t_logcap t)" let ?off = "word_of_nat ?n :: u32"
    have rec: "recordAt log ?at ?k" using Cons.prems(2) True by (simp add: words_ok_def)
    then obtain r where r: "drop ?at log = keyRecordOf ?k @ r" and lk: "length ?k < 2 ^ 64" by (auto simp: recordAt_def)
    have sl: "slice log ?at (?at + length (keyRecordOf ?k)) = Some (keyRecordOf ?k)"
    proof -
      have "length log - ?at = length (keyRecordOf ?k) + length r" using arg_cong [OF r, of length] by simp
      then have "?at + length (keyRecordOf ?k) \<le> length log" using keyRecordOf_pos [of ?k] by linarith
      then show ?thesis using r by (simp add: slice_def)
    qed
    have le: "live_entries log (w # ws) = (?k, slotValue w) # live_entries log ws"
      using True by (simp add: map_filter_simps slot_entry)
    have n30: "?n < 2 ^ 30"
      using Cons.prems(5) keyRecordOf_pos [of ?k] unfolding le maxLogBytes_eq by (simp del: length_greater_0_conv)
    then have off: "unat ?off = ?n" "unat ?off < 2 ^ 30" using unat_u32 [of ?n] by simp_all
    have ok: "slots_ok h ?t" by (rule slots_ok_logAppend [OF Cons.prems(1)])
    have en: "entries ?t = entries t" by (rule entries_logAppend [OF Cons.prems(1)])
    have new: "?k \<notin> fst ` set (entries ?t)" and room: "length (entries ?t) < length (t_slots ?t)"
      using Cons.prems(3,4) unfolding le en by auto
    have rec': "recordAt (t_log ?t) (unat ?off) ?k" using recordAt_end [OF lk] off(1) by simp
    obtain t1 where t1: "placeKnownAbsent ?t (h ?k) (slotValue w) ?off = Some t1" "slots_ok h t1"
      "mset (entries t1) = add_mset (?k, slotValue w) (mset (entries ?t))" "length (t_slots t1) = length (t_slots ?t)"
      "t_log t1 = t_log ?t" "t_logcap t1 = t_logcap ?t" "t_deadBytes t1 = t_deadBytes ?t"
      by (rule placeKnownAbsent_ok [OF ok room new rec' slotValue_less off(2)])
    note ms1 = t1(3) [unfolded en]
    have ws: "words_ok log ws" using Cons.prems(2) by (simp add: words_ok_def)
    have d: "distinct (map fst (live_entries log ws @ entries t1))"
      by (rule distinct_shift [OF _ ms1]) (use Cons.prems(3) [unfolded le] in simp)
    have sz: "length (entries t1) = Suc (length (entries t))" using arg_cong [OF ms1, of size] by simp
    have "length (live_entries log ws) + length (entries t1) \<le> length (t_slots t1)"
      using Cons.prems(4) le sz t1(4) by simp
    moreover have "logSize (live_entries log ws) + length (t_log t1) \<le> maxLogBytes"
      using Cons.prems(5) le t1(5) by simp
    ultimately obtain t2 where
      "packSlots h log ws t1 = Some t2" "grown h t1 (live_entries log ws) t2"
      "length (t_log t2) = length (t_log t1) + logSize (live_entries log ws)"
      using Cons.IH [OF t1(2) ws d] by blast
    then show ?thesis
      using t1 ms1 True recordHash_keyOf [OF rec', of h] le sl r recordLen_record [OF lk, of r]
      by (simp add: grown_def Let_def)
  qed
qed


subsection \<open>Operations on a well-formed table\<close>

lemma slots_ok_empty:
  assumes "c < 2 ^ 32"
  shows "slots_ok h \<lparr>t_slots = replicate c 0, t_log = l, t_logcap = lc, t_deadBytes = d, t_count = 0, t_tinyFilter = tf\<rparr>"
    and "entries \<lparr>t_slots = replicate c 0, t_log = l, t_logcap = lc, t_deadBytes = d, t_count = 0, t_tinyFilter = tf\<rparr> = []"
proof -
  have e: "List.map_filter (entry l) (replicate c 0) = []" by (induction c) (simp_all add: map_filter_simps entry_def)
  then show "slots_ok h \<lparr>t_slots = replicate c 0, t_log = l, t_logcap = lc, t_deadBytes = d, t_count = 0, t_tinyFilter = tf\<rparr>"
    and "entries \<lparr>t_slots = replicate c 0, t_log = l, t_logcap = lc, t_deadBytes = d, t_count = 0, t_tinyFilter = tf\<rparr> = []"
    using assms by (simp_all add: slots_ok_def entries_def)
qed

text \<open>\<open>rebuilt\<close>: the table after a rebuild to a given capacity.\<close>

definition rebuilt :: "(bytes \<Rightarrow> u64) \<Rightarrow> table \<Rightarrow> nat \<Rightarrow> table \<Rightarrow> bool" where
  "rebuilt h t c t' \<longleftrightarrow> table_ok h t' \<and> mset (entries t') = mset (entries t) \<and> length (t_slots t') = c
     \<and> length (t_log t') \<le> length (t_log t)"

lemma rebuildSlots_ok:
  assumes ok: "table_ok h t" and c: "t_count t \<le> c" "c < 2 ^ 32"
  shows "\<exists>t'. rebuildSlots h t c = Some t' \<and> rebuilt h t c t' \<and> t_log t' = t_log t"
proof -
  let ?t0 = "t\<lparr>t_slots := replicate c 0, t_count := 0, t_tinyFilter := 0\<rparr>"
  have s: "slots_ok h t" and dead: "t_deadBytes t + logSize (entries t) = length (t_log t)"
    and lg: "length (t_log t) \<le> maxLogBytes" using ok by (simp_all add: table_ok_def)
  have t0: "slots_ok h ?t0" "entries ?t0 = []"
    using slots_ok_empty(1) [OF c(2), where h = h and l = "t_log t" and lc = "t_logcap t" and d = "t_deadBytes t" and tf = 0]
      slots_ok_empty(2) [OF c(2), where l = "t_log t" and lc = "t_logcap t" and d = "t_deadBytes t" and tf = 0]
    by (cases t; simp)+
  have es: "live_entries (t_log ?t0) (t_slots t) = entries t" by (simp add: entries_def)
  have "\<exists>t'. replaceSlots h (t_slots t) ?t0 = Some t' \<and> grown h ?t0 (entries t) t' \<and> t_log t' = t_log ?t0"
    using replaceSlots_ok [OF t0(1), of "t_slots t"] words_ok_slots [OF s] s c(1) unfolding es t0(2)
    by (simp add: slots_ok_def)
  then obtain t' where t': "replaceSlots h (t_slots t) ?t0 = Some t'" "grown h ?t0 (entries t) t'" "t_log t' = t_log t" by auto
  then have ms: "mset (entries t') = mset (entries t)" using t0(2) by (simp add: grown_def)
  have "table_ok h t'"
    using t' dead lg logSize_mset [OF ms] by (simp add: table_ok_def grown_def)
  then show ?thesis using t' ms by (simp add: rebuildSlots_def rebuilt_def grown_def)
qed

lemma rebuildPacked_ok:
  assumes ok: "table_ok h t" and c: "t_count t \<le> c" "c < 2 ^ 32"
  shows "\<exists>t'. rebuildPacked h t c extra = Some t' \<and> rebuilt h t c t' \<and> t_deadBytes t' = 0
    \<and> t_logcap t' = length (t_log t') + extra"
proof -
  let ?t0 = "\<lparr>t_slots = replicate c 0, t_log = [], t_logcap = length (t_log t) - t_deadBytes t + extra,
    t_deadBytes = 0, t_count = 0, t_tinyFilter = 0\<rparr>"
  have s: "slots_ok h t" and dead: "t_deadBytes t + logSize (entries t) = length (t_log t)"
    and lg: "length (t_log t) \<le> maxLogBytes" using ok by (simp_all add: table_ok_def)
  have t0: "slots_ok h ?t0" "entries ?t0 = []" by (rule slots_ok_empty [OF c(2)])+
  have es: "live_entries (t_log t) (t_slots t) = entries t" by (simp add: entries_def)
  have "\<exists>t'. packSlots h (t_log t) (t_slots t) ?t0 = Some t' \<and> grown h ?t0 (entries t) t'
    \<and> length (t_log t') = length (t_log ?t0) + logSize (entries t)"
    using packSlots_ok [OF t0(1), of "t_log t" "t_slots t"] words_ok_slots [OF s] s c(1) dead lg unfolding es t0(2)
    by (simp add: slots_ok_def)
  then obtain t' where t': "packSlots h (t_log t) (t_slots t) ?t0 = Some t'" "grown h ?t0 (entries t) t'"
    "length (t_log t') = logSize (entries t)" by auto
  then have ms: "mset (entries t') = mset (entries t)" using t0(2) by (simp add: grown_def)
  have "table_ok h t'"
    using t' dead lg logSize_mset [OF ms] by (simp add: table_ok_def grown_def)
  then show ?thesis using t' ms dead by (simp add: rebuildPacked_def rebuilt_def grown_def)
qed

lemma rebuild_ok:
  assumes "table_ok h t" "t_count t \<le> c" "c < 2 ^ 32"
  shows "\<exists>t'. rebuild h t c = Some t' \<and> rebuilt h t c t'"
  using rebuildSlots_ok [OF assms] rebuildPacked_ok [OF assms, of 0] by (auto simp: rebuild_def)

lemma count_le_log:
  assumes "table_ok h t"
  shows "t_count t \<le> 2 ^ 30"
proof -
  have "length es \<le> logSize es" for es
  proof (induction es)
    case (Cons e es)
    then show ?case using keyRecordOf_pos [of "fst e"] by (cases e) (simp del: length_greater_0_conv)
  qed simp
  from this [of "entries t"] have "t_count t \<le> logSize (entries t)" using assms by (simp add: table_ok_def slots_ok_def)
  also have "\<dots> \<le> length (t_log t)" using assms by (simp add: table_ok_def)
  also have "\<dots> \<le> 2 ^ 30" using assms by (simp add: table_ok_def maxLogBytes_eq)
  finally show ?thesis .
qed

lemma growForInsert_ok:
  assumes ok: "table_ok h t"
  shows "\<exists>t' c. growForInsert h t = Some t' \<and> capacityFor t (t_count t + 1) = Some c \<and> rebuilt h t c t'
    \<and> t_count t + 1 \<le> c"
proof -
  obtain c where c: "capacityFor t (t_count t + 1) = Some c" "capacityAccepts (t_count t + 1) c"
    "c \<le> max (length (t_slots t)) (3 * (t_count t + 1) + 512)"
    by (rule capacityFor_returns [of "t_count t + 1" t]) simp_all
  have "length (t_slots t) < 2 ^ 32" using ok by (simp add: table_ok_def slots_ok_def)
  then have c32: "c < 2 ^ 32" using c(3) count_le_log [OF ok] by simp
  have le: "t_count t + 1 \<le> c" using capacityAccepts_le [OF c(2)] .
  show ?thesis
  proof (cases "c = length (t_slots t)")
    case True
    then show ?thesis using c(1) ok le by (auto simp: growForInsert_def rebuilt_def)
  next
    case False
    then show ?thesis using c(1) rebuild_ok [OF ok _ c32] le by (simp add: growForInsert_def)
  qed
qed


lemma tmap_rebuilt: "rebuilt h t c t' \<Longrightarrow> tmap t' = tmap t"
  by (rule tmap_same [of h]) (simp_all add: rebuilt_def table_ok_def)

lemma appendKey_ok:
  assumes "length (t_log t) + length (keyRecordOf key) \<le> maxLogBytes"
  obtains c where "appendKey t key = Some (logAppend t (keyRecordOf key) c, word_of_nat (length (t_log t)))"
proof -
  have "(case packKey key of Some p \<Rightarrow> pk_size p | None \<Rightarrow> if length key = 0 then 2 else recordBytes (length key))
    = length (keyRecordOf key)"
    unfolding length_keyRecordOf KeyRecordSize_def by (auto split: option.split)
  then show ?thesis using assms that by (auto simp: appendKey_def Let_def)
qed

lemma key_le_record: "length key \<le> 385 + length (keyRecordOf key)"
proof (cases key rule: keyRecordOf_cases)
  case (packed p t)
  from packKey_ok [OF packed(1)] obtain x where
    "key = pk_prefix p @ (if x then [48, 120] else []) @ pk_digits p"
    "length (pk_prefix p) \<le> 255" "length (pk_digits p) \<le> 128" unfolding packed_ok_def by blast
  then have "length key \<le> 385" by (auto dest!: arg_cong [of _ _ length] split: if_splits)
  then show ?thesis by simp
qed simp_all

lemma room_offset:
  assumes "length (t_log t) + length (keyRecordOf key) \<le> maxLogBytes"
  shows "unat (word_of_nat (length (t_log t)) :: u32) = length (t_log t)"
    "unat (word_of_nat (length (t_log t)) :: u32) < 2 ^ 30" "length key < 2 ^ 64"
proof -
  have n: "length (t_log t) < 2 ^ 30"
    using assms keyRecordOf_pos [of key] unfolding maxLogBytes_eq by (simp del: length_greater_0_conv)
  then show "unat (word_of_nat (length (t_log t)) :: u32) = length (t_log t)"
    "unat (word_of_nat (length (t_log t)) :: u32) < 2 ^ 30" using unat_u32 [of "length (t_log t)"] by simp_all
  show "length key < 2 ^ 64" using key_le_record [of key] assms by (simp add: maxLogBytes_eq)
qed

text \<open>Inserting an absent key where there is room, through either insertion path.\<close>

definition inserted :: "(bytes \<Rightarrow> u64) \<Rightarrow> table \<Rightarrow> bytes \<Rightarrow> u32 \<Rightarrow> table \<Rightarrow> bool" where
  "inserted h t key v t' \<longleftrightarrow> table_ok h t' \<and> mset (entries t') = add_mset (key, v) (mset (entries t))
     \<and> length (t_slots t') = length (t_slots t) \<and> t_deadBytes t' = t_deadBytes t
     \<and> length (t_log t') = length (t_log t) + KeyRecordSize key"

lemma insert_fresh:
  assumes ok: "table_ok h t" and room: "t_count t < length (t_slots t)" and new: "tmap t key = None"
    and v: "unat v < 2 ^ 27" and space: "length (t_log t) + KeyRecordSize key \<le> maxLogBytes"
    and p: "placeLoop (t_slots t) (probes t (h key)) None = Some p"
  defines "w \<equiv> slotWord (hashFingerprint (h key)) v (word_of_nat (length (t_log t)))"
  shows "inserted h t key v (putSlot (logAppend t (keyRecordOf key) c) (h key) p w)"
proof -
  let ?t = "logAppend t (keyRecordOf key) c" let ?off = "word_of_nat (length (t_log t)) :: u32"
  have s: "slots_ok h t" and dead: "t_deadBytes t + logSize (entries t) = length (t_log t)" using ok by (simp_all add: table_ok_def)
  have len: "length (t_slots t) < 2 ^ 32" using s by (simp add: slots_ok_def)
  note space' = space [folded length_keyRecordOf] note off = room_offset [OF space']
  have s': "slots_ok h ?t" by (rule slots_ok_logAppend [OF s])
  have en: "entries ?t = entries t" by (rule entries_logAppend [OF s])
  have pr: "probes ?t = probes t" by (rule probes_cong) simp
  note pl = placeLoop_place [OF p]
  have pn: "p < length (t_slots ?t)" using pl(1) probes_props(1) [OF len] by auto
  have new': "key \<notin> fst ` set (entries ?t)" using new unfolding en by (simp add: tmap_def map_of_eq_None_iff)
  have rec: "recordAt (t_log ?t) (unat ?off) key" using recordAt_end [OF off(3)] off(1) by simp
  have "slots_ok h (putSlot ?t (h key) p w)"
    and ms: "mset (entries (putSlot ?t (h key) p w)) = add_mset (key, v) (mset (entries t))"
    using putSlot_ok [OF s' pn _ _ new' rec v off(2)] pl(2,3) unfolding pr en w_def by simp_all
  moreover have "logSize (entries (putSlot ?t (h key) p w)) = length (keyRecordOf key) + logSize (entries t)"
    using logSize_mset [of _ "(key, v) # entries t"] ms by simp
  ultimately show ?thesis
    using dead space by (simp add: inserted_def table_ok_def length_keyRecordOf)
qed


lemma insertHashed_present:
  assumes ok: "table_ok h t" and old: "tmap t key \<noteq> None" and v: "unat v < 2 ^ 27"
  shows "\<exists>t'. insertHashed t key v (h key) = Some t' \<and> table_ok h t' \<and> tmap t' = (tmap t)(key \<mapsto> v)
    \<and> length (t_slots t') = length (t_slots t) \<and> t_log t' = t_log t \<and> t_count t' = t_count t"
proof -
  have s: "slots_ok h t" and dead: "t_deadBytes t + logSize (entries t) = length (t_log t)"
    and lg: "length (t_log t) \<le> maxLogBytes" using ok by (simp_all add: table_ok_def)
  obtain i where i: "i < length (t_slots t)" "holds t key i" using old tmap_None_iff [OF s, of key] by auto
  let ?w = "t_slots t ! i" let ?t = "tinyAdd t (h key)"
  let ?w' = "slotWord (hashFingerprint (h key)) v (slotOffset ?w)"
  let ?t' = "?t\<lparr>t_slots := (t_slots t)[i := ?w']\<rparr>"
  have sw: "slot_ok h t ?w" "isLive ?w" "keyOf (t_log t) ?w = key" using s i by (simp_all add: slots_ok_def holds_def)
  have key: "keyOf (t_log t) ?w' = key"
    using sw by (simp add: slot_ok_def slotOffset_slotWord [OF slotOffset_less] keyOf_recordAt)
  have sv: "slotValue ?w' = v" by (rule slotValue_slotWord [OF v slotOffset_less])
  have ent: "entry (t_log t) ?w = Some (key, slotValue ?w)" "entry (t_log t) ?w' = Some (key, v)"
    using sw key sv by (simp_all add: entry_def)
  have keys: "map fst (entries ?t') = map fst (entries t)"
    unfolding entries_def using map_filter_replace [OF i(1) ent] by simp
  have pr: "probes ?t' = probes t" by (rule probes_cong) simp
  have st: "slots_ok h ?t"
    using s probes_cong [of ?t t] by (auto simp: slots_ok_def slot_ok_def reachable_def entries_def intro: tinyAdd_filter(2))
  have "slot_ok h ?t' (t_slots ?t' ! j) \<and> reachable h ?t' j"
    if j: "j < length (t_slots t)" "isLive (t_slots ?t' ! j)" for j
  proof (cases "j = i")
    case True
    have "reachable h t i" using s i sw by (simp add: slots_ok_def)
    then have "reachable h ?t' i" using i key sw unfolding reachable_def pr by (auto simp: nth_list_update)
    moreover have "slot_ok h ?t' ?w'"
      using sw key by (auto simp: slot_ok_def slotOffset_slotWord [OF slotOffset_less]
        slotFingerprint_slotWord [OF v slotOffset_less] tinyAdd_filter)
    ultimately show ?thesis using True i(1) by simp
  next
    case False
    then have "slot_ok h t (t_slots t ! j)" "reachable h t j" using s j by (simp_all add: slots_ok_def)
    then show ?thesis using False i sw unfolding reachable_def pr
      by (auto simp: nth_list_update slot_ok_def intro: tinyAdd_filter(2))
  qed
  moreover have "length (entries ?t') = length (entries t)" using arg_cong [OF keys, of length] by (simp only: length_map)
  ultimately have s': "slots_ok h ?t'" using s keys by (simp add: slots_ok_def)
  have "logSize (entries ?t') = logSize (entries t)"
  proof -
    have "logSize es = sum_list (map (\<lambda>k. length (keyRecordOf k)) (map fst es))" for es
      by (induction es) (simp_all add: logSize_def split_beta)
    then show ?thesis by (simp only: keys)
  qed
  then have "table_ok h ?t'" using s' dead lg by (simp add: table_ok_def)
  moreover have "tmap ?t' = (tmap t)(key \<mapsto> v)"
  proof
    fix k
    show "tmap ?t' k = ((tmap t)(key \<mapsto> v)) k"
    proof (cases "k = key")
      case True
      then show ?thesis using tmap_Some_iff [OF s', of key v] i key sv by auto
    next
      case False
      then have "tmap ?t' k = Some u \<longleftrightarrow> tmap t k = Some u" for u
        unfolding tmap_Some_iff [OF s'] tmap_Some_iff [OF s] using key sw i(1)
        by (intro ex_cong1) (auto simp: nth_list_update)
      then show ?thesis using False by (metis fun_upd_other not_Some_eq)
    qed
  qed
  moreover have "insertHashed t key v (h key) = Some ?t'"
  proof -
    have "holds ?t key i" using i(2) by (simp add: holds_def)
    then have "insertLoop ?t key (hashFingerprint (h key)) (probes ?t (h key)) None = Some (Existing i)"
      using insertLoop_find [OF st probes_subset [OF st]] find_stop_present [OF st, of i key] i(1) by simp
    then show ?thesis using v by (simp add: insertHashed_def checkValue_iff Let_def)
  qed
  ultimately show ?thesis by simp
qed


lemma tinyAdd_logAppend: "tinyAdd (logAppend t r c) x = logAppend (tinyAdd t x) r c"
  by (simp add: tinyAdd_def)

lemma insertHashed_absent:
  assumes ok: "table_ok h t" and room: "t_count t < length (t_slots t)" and new: "tmap t key = None"
    and v: "unat v < 2 ^ 27" and space: "length (t_log t) + KeyRecordSize key \<le> maxLogBytes"
  shows "\<exists>t'. insertHashed t key v (h key) = Some t' \<and> inserted h t key v t'"
    and "\<exists>t'. insertKnownAbsentHashed t key v (h key) = Some t' \<and> inserted h t key v t'"
proof -
  have s: "slots_ok h t" using ok by (simp add: table_ok_def)
  have len: "length (t_slots t) < 2 ^ 32" using s by (simp add: slots_ok_def)
  let ?t = "tinyAdd t (h key)" let ?is = "probes t (h key)"
  have pr: "probes ?t = probes t" by (rule probes_cong) simp
  have st: "slots_ok h ?t"
    using s pr by (auto simp: slots_ok_def slot_ok_def reachable_def entries_def intro: tinyAdd_filter(2))
  obtain i where i: "i < length (t_slots t)" "\<not> isLive (t_slots t ! i)"
    by (rule free_slot [of t]) (use room s in \<open>simp add: slots_ok_def\<close>)
  then obtain p where p: "placeLoop (t_slots t) ?is None = Some p"
    using placeLoop_free [of i ?is "t_slots t"] probes_props(1) [OF len] by auto
  note fresh = insert_fresh [OF ok room new v space p]
  have absent: "\<forall>j < length (t_slots ?t). \<not> holds ?t key j"
    using new tmap_None_iff [OF s, of key] by (simp add: holds_def)
  have "insertLoop ?t key (hashFingerprint (h key)) ?is None = Some (Fresh p)"
    using insertLoop_find [OF st, of ?is key None] probes_subset [OF s] find_stop_absent [OF st absent, of "h key"] p
    by (auto simp: pr holds_def split: option.split)
  moreover obtain c where c: "appendKey ?t key = Some (logAppend ?t (keyRecordOf key) c, word_of_nat (length (t_log t)))"
    using appendKey_ok [of ?t key] space by (auto simp: length_keyRecordOf)
  ultimately have "insertHashed t key v (h key) =
      Some (putSlot (logAppend t (keyRecordOf key) c) (h key) p (slotWord (hashFingerprint (h key)) v (word_of_nat (length (t_log t)))))"
    using v by (simp add: insertHashed_def checkValue_iff Let_def pr putSlot_def tinyAdd_logAppend)
  then show "\<exists>t'. insertHashed t key v (h key) = Some t' \<and> inserted h t key v t'" using fresh by blast
  obtain c where "appendKey t key = Some (logAppend t (keyRecordOf key) c, word_of_nat (length (t_log t)))"
    using appendKey_ok [of t key] space by (auto simp: length_keyRecordOf)
  then have "insertKnownAbsentHashed t key v (h key) =
      Some (putSlot (logAppend t (keyRecordOf key) c) (h key) p (slotWord (hashFingerprint (h key)) v (word_of_nat (length (t_log t)))))"
    using v p probes_cong [of "tinyAdd (logAppend t (keyRecordOf key) c) (h key)" t]
    by (simp add: insertKnownAbsentHashed_def checkValue_iff placeKnownAbsent_def Let_def putSlot_def)
  then show "\<exists>t'. insertKnownAbsentHashed t key v (h key) = Some t' \<and> inserted h t key v t'" using fresh by blast
qed

lemma tmap_inserted: "inserted h t key v t' \<Longrightarrow> tmap t' = (tmap t)(key \<mapsto> v)"
  by (rule tmap_insert [of h]) (simp_all add: inserted_def table_ok_def)

lemma insert_grown:
  assumes ok: "table_ok h t" and new: "tmap t key = None" and v: "unat v < 2 ^ 27"
    and space: "length (t_log t) + KeyRecordSize key \<le> maxLogBytes"
  obtains t1 c where "growForInsert h t = Some t1" "capacityFor t (t_count t + 1) = Some c"
    "table_ok h t1" "tmap t1 = tmap t" "tmap t1 key = None" "length (t_slots t1) = c" "t_count t1 < length (t_slots t1)"
    "length (t_log t1) + KeyRecordSize key \<le> maxLogBytes" "length (t_log t1) \<le> length (t_log t)"
proof -
  obtain t1 c where g: "growForInsert h t = Some t1" "capacityFor t (t_count t + 1) = Some c" "rebuilt h t c t1" "t_count t + 1 \<le> c"
    using growForInsert_ok [OF ok] by blast
  have "t_count t1 = t_count t"
    using g(3) ok by (auto simp: rebuilt_def table_ok_def slots_ok_def dest: arg_cong [of _ _ size])
  then show ?thesis using that [OF g(1,2)] g tmap_rebuilt [OF g(3)] new space by (simp add: rebuilt_def)
qed

lemma Set_ok:
  assumes ok: "table_ok h t" and v: "unat v < 2 ^ 27"
    and space: "length (t_log t) + KeyRecordSize key \<le> maxLogBytes"
  shows "\<exists>t'. Set h t key v = Some t' \<and> table_ok h t' \<and> tmap t' = (tmap t)(key \<mapsto> v)
    \<and> length (t_log t') \<le> length (t_log t) + KeyRecordSize key
    \<and> (tmap t key = None \<longrightarrow> capacityFor t (t_count t + 1) = Some (length (t_slots t')))"
proof (cases "tmap t key")
  case (Some u)
  then show ?thesis
    using insertHashed_present [OF ok _ v, of key] GetHashed_tmap [of h t key] ok
    by (auto simp: Set_def Let_def table_ok_def)
next
  case None
  obtain t1 c where t1: "growForInsert h t = Some t1" "capacityFor t (t_count t + 1) = Some c"
    "table_ok h t1" "tmap t1 = tmap t" "tmap t1 key = None" "length (t_slots t1) = c" "t_count t1 < length (t_slots t1)"
    "length (t_log t1) + KeyRecordSize key \<le> maxLogBytes" "length (t_log t1) \<le> length (t_log t)"
    by (rule insert_grown [OF ok None v space])
  obtain t' where t': "insertHashed t1 key v (h key) = Some t'" "inserted h t1 key v t'"
    using insertHashed_absent(1) [OF t1(3,7,5) v t1(8)] by blast
  then show ?thesis
    using t1 None GetHashed_tmap [of h t key] ok tmap_inserted [OF t'(2)]
    by (auto simp: Set_def Let_def table_ok_def inserted_def)
qed

lemma SetKnownHashed_ok:
  assumes ok: "table_ok h t" and v: "unat v < 2 ^ 27"
    and space: "length (t_log t) + KeyRecordSize key \<le> maxLogBytes"
  shows "\<exists>t'. SetKnownHashed h t key v (h key) (tmap t key \<noteq> None) = Some t' \<and> table_ok h t'
    \<and> tmap t' = (tmap t)(key \<mapsto> v) \<and> length (t_log t') \<le> length (t_log t) + KeyRecordSize key
    \<and> (tmap t key = None \<longrightarrow> capacityFor t (t_count t + 1) = Some (length (t_slots t')))"
proof (cases "tmap t key")
  case (Some u)
  then show ?thesis
    using insertHashed_present [OF ok _ v, of key] GetHashed_tmap [of h t key] ok
    by (auto simp: SetKnownHashed_def table_ok_def)
next
  case None
  obtain t1 c where t1: "growForInsert h t = Some t1" "capacityFor t (t_count t + 1) = Some c"
    "table_ok h t1" "tmap t1 = tmap t" "tmap t1 key = None" "length (t_slots t1) = c" "t_count t1 < length (t_slots t1)"
    "length (t_log t1) + KeyRecordSize key \<le> maxLogBytes" "length (t_log t1) \<le> length (t_log t)"
    by (rule insert_grown [OF ok None v space])
  obtain t' where t': "insertKnownAbsentHashed t1 key v (h key) = Some t'" "inserted h t1 key v t'"
    using insertHashed_absent(2) [OF t1(3,7,5) v t1(8)] by blast
  then show ?thesis
    using t1 None tmap_inserted [OF t'(2)] by (auto simp: SetKnownHashed_def inserted_def)
qed

text \<open>The exact panics of an insertion.\<close>

lemma appendKey_full: "appendKey t key = None \<longleftrightarrow> maxLogBytes < length (t_log t) + KeyRecordSize key"
  by (auto simp: appendKey_def KeyRecordSize_def Let_def split: option.split)

lemma insertLoop_absent:
  assumes ok: "table_ok h t" and new: "tmap t key = None"
  shows "insertLoop (tinyAdd t (h key)) key (hashFingerprint (h key)) (probes (tinyAdd t (h key)) (h key)) None \<noteq> Some (Existing i)"
proof -
  have s: "slots_ok h t" using ok by (simp add: table_ok_def)
  let ?t = "tinyAdd t (h key)"
  have pr: "probes ?t = probes t" by (rule probes_cong) simp
  have st: "slots_ok h ?t"
    using s pr by (auto simp: slots_ok_def slot_ok_def reachable_def entries_def intro: tinyAdd_filter(2))
  have absent: "\<forall>j < length (t_slots ?t). \<not> holds ?t key j"
    using new tmap_None_iff [OF s, of key] by (simp add: holds_def)
  show ?thesis
    using insertLoop_find [OF st, of "probes ?t (h key)" key None] probes_subset [OF st] find_stop_absent [OF st absent, of "h key"]
    by (auto simp: holds_def split: option.splits if_splits)
qed

lemma insert_full:
  assumes ok: "table_ok h t" and new: "tmap t key = None" and full: "maxLogBytes < length (t_log t) + KeyRecordSize key"
  shows "insertHashed t key v (h key) = None" "insertKnownAbsentHashed t key v (h key) = None"
proof -
  have a: "appendKey t key = None" "appendKey (tinyAdd t (h key)) key = None" using full by (simp_all add: appendKey_full)
  show "insertHashed t key v (h key) = None"
    using insertLoop_absent [OF ok new] a(2) by (auto simp: insertHashed_def Let_def split: option.split insertAt.split)
  show "insertKnownAbsentHashed t key v (h key) = None"
    using a(1) by (auto simp: insertKnownAbsentHashed_def Let_def split: option.split)
qed

lemma insert_wide: "2 ^ 27 \<le> unat v \<Longrightarrow> insertHashed t key v hash = None \<and> insertKnownAbsentHashed t key v hash = None"
  by (simp add: insertHashed_def insertKnownAbsentHashed_def checkValue_iff)

lemma insert_exact:
  assumes ok: "table_ok h t" and new: "tmap t key = None"
  obtains t1 where "growForInsert h t = Some t1"
    "insertHashed t1 key v (h key) = None \<longleftrightarrow> 2 ^ 27 \<le> unat v \<or> maxLogBytes < length (t_log t1) + KeyRecordSize key"
    "insertKnownAbsentHashed t1 key v (h key) = None \<longleftrightarrow> 2 ^ 27 \<le> unat v \<or> maxLogBytes < length (t_log t1) + KeyRecordSize key"
proof -
  obtain t1 c where g: "growForInsert h t = Some t1" "rebuilt h t c t1" "t_count t + 1 \<le> c" using growForInsert_ok [OF ok] by blast
  have cnt: "t_count t1 = t_count t"
    using g(2) ok by (auto simp: rebuilt_def table_ok_def slots_ok_def dest: arg_cong [of _ _ size])
  have t1: "table_ok h t1" "t_count t1 < length (t_slots t1)" "tmap t1 key = None" using g cnt new tmap_rebuilt [OF g(2)] by (simp_all add: rebuilt_def)
  show ?thesis
  proof (rule that [OF g(1)])
    show "insertHashed t1 key v (h key) = None \<longleftrightarrow> 2 ^ 27 \<le> unat v \<or> maxLogBytes < length (t_log t1) + KeyRecordSize key"
      using insert_full(1) [OF t1(1,3), of v] insert_wide [of v t1 key "h key"] insertHashed_absent(1) [OF t1, of v] by (metis not_le not_less option.distinct(1))
    show "insertKnownAbsentHashed t1 key v (h key) = None \<longleftrightarrow> 2 ^ 27 \<le> unat v \<or> maxLogBytes < length (t_log t1) + KeyRecordSize key"
      using insert_full(2) [OF t1(1,3), of v] insert_wide [of v t1 key "h key"] insertHashed_absent(2) [OF t1, of v] by (metis not_le not_less option.distinct(1))
  qed
qed

lemma present_exact:
  assumes "table_ok h t" "tmap t key \<noteq> None"
  shows "insertHashed t key v (h key) = None \<longleftrightarrow> 2 ^ 27 \<le> unat v"
  using insertHashed_present [OF assms, of v] insert_wide [of v t key "h key"] by (metis not_le option.distinct(1))

subsection \<open>Deletion\<close>

lemma entries_le_slots: "length (entries t) \<le> length (t_slots t)"
proof -
  have "length (live_entries l ws) \<le> length ws" for l ws
    by (induction ws) (auto simp: map_filter_simps split: option.split)
  then show ?thesis by (simp add: entries_def)
qed

lemma entries_Nil_iff: "entries t = [] \<longleftrightarrow> (\<forall>w \<in> set (t_slots t). \<not> isLive w)"
proof -
  have "live_entries l ws = [] \<longleftrightarrow> (\<forall>w \<in> set ws. \<not> isLive w)" for l ws
    by (induction ws) (auto simp: map_filter_simps entry_def)
  then show ?thesis by (simp add: entries_def)
qed

lemma table_ok_empty:
  assumes "entries t = []" "t_count t = 0" "length (t_slots t) < 2 ^ 32" "t_log t = []" "t_deadBytes t = 0"
  shows "table_ok h t" "tmap t = Map.empty"
  using assms entries_Nil_iff [of t] by (auto simp: table_ok_def slots_ok_def tmap_def)

lemma distinct_split:
  assumes "distinct (map fst xs)" "mset xs = add_mset (k, v) (mset ys)"
  shows "k \<notin> fst ` set ys" "distinct (map fst ys)"
proof -
  have "mset (map fst xs) = mset (k # map fst ys)" using assms(2) by simp
  from mset_eq_imp_distinct_iff [OF this] show "k \<notin> fst ` set ys" "distinct (map fst ys)" using assms(1) by auto
qed

definition buried :: "table \<Rightarrow> nat \<Rightarrow> nat \<Rightarrow> table" where
  "buried t i n = t\<lparr>t_deadBytes := t_deadBytes t + n, t_slots := (t_slots t)[i := slotTombstone], t_count := t_count t - 1\<rparr>"

lemma buried_ok:
  assumes ok: "table_ok h t" and i: "i < length (t_slots t)" "holds t key i"
  shows "table_ok h (buried t i (length (keyRecordOf key)))"
    and "mset (entries t) = add_mset (key, slotValue (t_slots t ! i)) (mset (entries (buried t i (length (keyRecordOf key)))))"
proof -
  let ?t = "buried t i (length (keyRecordOf key))"
  have s: "slots_ok h t" and dead: "t_deadBytes t + logSize (entries t) = length (t_log t)"
    and lg: "length (t_log t) \<le> maxLogBytes" using ok by (simp_all add: table_ok_def)
  have sl: "t_slots ?t = (t_slots t)[i := slotTombstone]" "t_log ?t = t_log t" "t_tinyFilter ?t = t_tinyFilter t"
    "t_deadBytes ?t = t_deadBytes t + length (keyRecordOf key)" "t_count ?t = t_count t - 1" by (simp_all add: buried_def)
  have ent: "entry (t_log t) (t_slots t ! i) = Some (key, slotValue (t_slots t ! i))" using i by (simp add: entry_def holds_def)
  show ms: "mset (entries t) = add_mset (key, slotValue (t_slots t ! i)) (mset (entries ?t))"
    unfolding entries_def sl using map_filter_remove [OF i(1), of "entry (t_log t)" _ slotTombstone] ent by (simp add: slot_entry)
  have d: "distinct (map fst (entries ?t))" using distinct_split(2) [OF _ ms] s by (simp add: slots_ok_def)
  have len: "length (entries t) = Suc (length (entries ?t))" using arg_cong [OF ms, of size] by simp
  have pr: "probes ?t = probes t" by (rule probes_cong) (simp add: sl)
  have "slot_ok h ?t (t_slots ?t ! j) \<and> reachable h ?t j"
    if j: "j < length (t_slots t)" "isLive (t_slots ?t ! j)" for j
  proof -
    have "j \<noteq> i" using j i(1) by (auto simp: sl)
    then have "slot_ok h t (t_slots t ! j)" "reachable h t j" using s j by (simp_all add: slots_ok_def sl)
    then show ?thesis using \<open>j \<noteq> i\<close> i(1) unfolding reachable_def pr by (auto simp: sl nth_list_update slot_ok_def)
  qed
  then have "slots_ok h ?t" using s d len by (simp add: slots_ok_def sl)
  moreover have "logSize (entries t) = length (keyRecordOf key) + logSize (entries ?t)"
    using logSize_mset [of "entries t" "(key, slotValue (t_slots t ! i)) # entries ?t"] ms by simp
  ultimately show "table_ok h ?t" using dead lg by (simp add: table_ok_def sl)
qed

lemma Delete_ok:
  assumes ok: "table_ok h t"
  shows "\<exists>t'. Delete h t key = Some t' \<and> table_ok h t' \<and> tmap t' = (tmap t)(key := None)
    \<and> length (t_log t') \<le> length (t_log t) \<and> length (t_slots t') = length (t_slots t)"
proof (cases "\<exists>i < length (t_slots t). holds t key i")
  case True
  then obtain i where i: "i < length (t_slots t)" "holds t key i" by blast
  have s: "slots_ok h t" using ok by (simp add: table_ok_def)
  let ?n = "length (keyRecordOf key)" let ?t = "buried t i ?n"
  note b = buried_ok [OF ok i]
  have "tmap t = (tmap ?t)(key \<mapsto> slotValue (t_slots t ! i))"
    by (rule tmap_insert [OF s b(2)])
  moreover have "tmap ?t key = None"
    using distinct_split(1) [OF _ b(2)] s by (simp add: tmap_def map_of_eq_None_iff slots_ok_def)
  ultimately have tm: "tmap ?t = (tmap t)(key := None)" by (auto simp: fun_eq_iff)
  have "slot_ok h t (t_slots t ! i)" using s i by (simp add: slots_ok_def holds_def)
  then have rl: "recordLen (logAt t (slotOffset (t_slots t ! i))) = Some ?n"
    using i(2) by (auto simp: slot_ok_def recordAt_def logAt_def holds_def recordLen_record)
  have dl: "deleteLoop t key (hashFingerprint (h key)) (probes t (h key)) = Some (Some i)"
    using deleteLoop_find [OF s probes_subset [OF s]] find_stop_present [OF s i] i(2) by (auto simp: holds_def)
  have nr: "\<not> tinyRejects t (h key)" "t_slots t \<noteq> []" using tinyRejects_absent [OF s] i by auto
  have lb: "length (t_log ?t) = length (t_log t)" and lsl: "length (t_slots ?t) = length (t_slots t)" by (simp_all add: buried_def)
  have D: "Delete h t key = (if t_count ?t = 0 then Some (?t\<lparr>t_tinyFilter := 0, t_log := [], t_logcap := 0, t_deadBytes := 0\<rparr>)
     else if t_deadBytes ?t > minCompactLogBytes \<and> t_deadBytes ?t * 3 > length (t_log ?t)
     then rebuildPacked h ?t (length (t_slots ?t)) 0 else Some ?t)"
    using nr dl rl by (simp add: Delete_def deleteHashed_def Let_def buried_def)
  consider "t_count ?t = 0" | "t_count ?t \<noteq> 0" "t_deadBytes ?t > minCompactLogBytes \<and> t_deadBytes ?t * 3 > length (t_log ?t)"
    | "t_count ?t \<noteq> 0" "\<not> (t_deadBytes ?t > minCompactLogBytes \<and> t_deadBytes ?t * 3 > length (t_log ?t))" by blast
  then show ?thesis
  proof cases
    case 1
    let ?e = "?t\<lparr>t_tinyFilter := 0, t_log := [], t_logcap := 0, t_deadBytes := 0\<rparr>"
    have en: "entries ?t = []" using b(1) 1 by (simp add: table_ok_def slots_ok_def)
    then have "entries ?e = []" by (simp add: entries_Nil_iff)
    moreover have "length (t_slots ?e) < 2 ^ 32" using b(1) by (simp add: table_ok_def slots_ok_def)
    ultimately have "table_ok h ?e" "tmap ?e = Map.empty" using 1 by (auto intro!: table_ok_empty)
    moreover have "tmap ?t = Map.empty" using en by (simp add: tmap_def)
    ultimately show ?thesis using D 1 tm lsl by simp
  next
    case 2
    have "length (t_slots ?t) < 2 ^ 32" "t_count ?t \<le> length (t_slots ?t)"
      using b(1) entries_le_slots [of ?t] by (simp_all add: table_ok_def slots_ok_def)
    then obtain t' where "rebuildPacked h ?t (length (t_slots ?t)) 0 = Some t'" "rebuilt h ?t (length (t_slots ?t)) t'"
      using rebuildPacked_ok [OF b(1)] by blast
    then show ?thesis using D 2 tm lb lsl tmap_rebuilt [of h ?t _ t'] by (simp add: rebuilt_def)
  next
    case 3
    then have "Delete h t key = Some ?t" unfolding D by auto
    then show ?thesis using tm b(1) lb lsl by simp
  qed
next
  case False
  have s: "slots_ok h t" using ok by (simp add: table_ok_def)
  have none: "tmap t key = None" using False tmap_None_iff [OF s] by blast
  have "Delete h t key = Some t"
    using deleteLoop_find [OF s probes_subset [OF s], of key "h key"] find_stop_absent [OF s, of key "h key"] False
    by (auto simp: Delete_def deleteHashed_def split: option.split)
  then show ?thesis using ok none by (auto simp: fun_eq_iff)
qed

subsection \<open>Reserving\<close>

lemma ReserveKeys_ok:
  assumes ok: "table_ok h t" and n: "n \<le> 2 ^ 30"
  shows "\<exists>t'. ReserveKeys h t n b = Some t' \<and> table_ok h t' \<and> tmap t' = tmap t \<and> t_deadBytes t' = 0
    \<and> length (t_slots t') = (if max n (t_count t) = 0 then 0 else tightCapacity (max n (t_count t)))
    \<and> t_logcap t' \<le> length (t_log t') + b"
proof -
  have mx: "(if n < t_count t then t_count t else n) = max n (t_count t)" by simp
  consider "max n (t_count t) = 0"
    | "max n (t_count t) \<noteq> 0" "tightCapacity (max n (t_count t)) \<noteq> length (t_slots t) \<or> t_deadBytes t \<noteq> 0"
    | "max n (t_count t) \<noteq> 0" "tightCapacity (max n (t_count t)) = length (t_slots t)" "t_deadBytes t = 0" by blast
  then show ?thesis
  proof cases
    case 1
    let ?e = "t\<lparr>t_slots := [], t_log := [], t_logcap := 0, t_deadBytes := 0, t_tinyFilter := 0\<rparr>"
    have "t_count t = 0" "entries t = []" using 1 ok by (simp_all add: table_ok_def slots_ok_def)
    moreover have "entries ?e = []" by (simp add: entries_def map_filter_simps)
    ultimately have "table_ok h ?e" "tmap ?e = tmap t" using table_ok_empty [of ?e] by (simp_all add: tmap_def)
    then show ?thesis using 1 by (simp add: ReserveKeys_def Let_def)
  next
    case 2
    have "tightCapacity (max n (t_count t)) < 2 ^ 32"
      using tightCapacity_le [of "max n (t_count t)"] n count_le_log [OF ok] by simp
    moreover have "t_count t \<le> tightCapacity (max n (t_count t))"
      using capacityAccepts_le [OF tightCapacity_accepts [of "max n (t_count t)"]] by simp
    ultimately obtain t' where "rebuildPacked h t (tightCapacity (max n (t_count t))) b = Some t'"
      "rebuilt h t (tightCapacity (max n (t_count t))) t'" "t_deadBytes t' = 0" "t_logcap t' = length (t_log t') + b"
      using rebuildPacked_ok [OF ok] by blast
    then show ?thesis using 2 tmap_rebuilt [of h t _ t'] by (auto simp: ReserveKeys_def Let_def mx rebuilt_def)
  next
    case 3
    have "probes (trimLog t b) = probes t" by (rule probes_cong) (simp add: trimLog_def Let_def)
    then have "table_ok h (trimLog t b)" "tmap (trimLog t b) = tmap t"
      using ok by (simp_all add: trimLog_def Let_def table_ok_def slots_ok_def slot_ok_def reachable_def entries_def tmap_def split: if_splits)
    then show ?thesis using 3 by (auto simp: ReserveKeys_def Let_def mx trimLog_def)
  qed
qed


subsection \<open>Iteration\<close>

lemma keyChunked_keyOf:
  assumes "recordAt (t_log t) (unat (slotOffset w)) (keyOf (t_log t) w)" "length (ck_buf c) \<le> ck_cap c"
  obtains c' where "keyChunked c (logAt t (slotOffset w)) = Some (keyOf (t_log t) w, c')" "length (ck_buf c') \<le> ck_cap c'"
proof -
  from assms(1) obtain r where r: "drop (unat (slotOffset w)) (t_log t) = keyRecordOf (keyOf (t_log t) w) @ r"
    and lk: "length (keyOf (t_log t) w) < 2 ^ 64" by (auto simp: recordAt_def)
  show ?thesis
    by (rule keyChunked_record [OF lk assms(2), of r]) (use that in \<open>simp add: logAt_def r\<close>)
qed

lemma allLoop_entries:
  assumes "words_ok (t_log t) ws" "length (ck_buf c) \<le> ck_cap c"
  shows "allLoop t c ws = Some (live_entries (t_log t) ws)"
  using assms
proof (induction ws arbitrary: c)
  case (Cons w ws)
  have ws: "words_ok (t_log t) ws" using Cons.prems(1) by (simp add: words_ok_def)
  show ?case
  proof (cases "isLive w")
    case True
    then have "recordAt (t_log t) (unat (slotOffset w)) (keyOf (t_log t) w)" using Cons.prems(1) by (simp add: words_ok_def)
    then obtain c' where "keyChunked c (logAt t (slotOffset w)) = Some (keyOf (t_log t) w, c')" "length (ck_buf c') \<le> ck_cap c'"
      using keyChunked_keyOf [OF _ Cons.prems(2)] by blast
    then show ?thesis using True Cons.IH [OF ws] by (simp add: map_filter_simps entry_def)
  next
    case False
    then show ?thesis using Cons.IH [OF ws Cons.prems(2)] by (simp add: map_filter_simps entry_def)
  qed
qed (simp add: map_filter_simps)

text \<open>The positions a sample of \<open>n\<close> slots visits.\<close>

definition window :: "table \<Rightarrow> nat \<Rightarrow> nat \<Rightarrow> u64 list" where
  "window t cursor n = map (\<lambda>j. t_slots t ! ((cursor + j) mod length (t_slots t))) [0 ..< n]"

lemma window_Suc:
  assumes "cursor < length (t_slots t)"
  shows "window t cursor (Suc n) = t_slots t ! cursor # window t ((cursor + 1) mod length (t_slots t)) n"
proof -
  have up: "[0 ..< Suc n] = 0 # map Suc [0 ..< n]" by (simp add: upt_conv_Cons map_Suc_upt del: upt_Suc)
  have "((cursor + 1) mod length (t_slots t) + j) mod length (t_slots t) = (cursor + Suc j) mod length (t_slots t)" for j
    by (metis add.assoc mod_add_left_eq plus_1_eq_Suc)
  then show ?thesis unfolding window_def up using assms by (simp add: comp_def)
qed

lemma sampleLoop_keys:
  assumes "words_ok (t_log t) (t_slots t)" "cursor < length (t_slots t)" "length (ck_buf c) \<le> ck_cap c" "length out < limit"
  shows "\<exists>c'. c' < length (t_slots t) \<and>
    sampleLoop t c limit cursor n out = Some (take limit (out @ map fst (live_entries (t_log t) (window t cursor n))), c')"
  using assms(2-)
proof (induction n arbitrary: cursor c out)
  case 0
  then show ?case by (simp add: window_def map_filter_simps)
next
  case (Suc n)
  let ?w = "t_slots t ! cursor" let ?next = "(cursor + 1) mod length (t_slots t)"
  have nx: "?next < length (t_slots t)" using Suc.prems(1) by (intro mod_less_divisor) linarith
  show ?case
  proof (cases "isLive ?w")
    case True
    then have "recordAt (t_log t) (unat (slotOffset ?w)) (keyOf (t_log t) ?w)" using assms(1) Suc.prems(1) by (simp add: words_ok_def)
    then obtain c' where k: "keyChunked c (logAt t (slotOffset ?w)) = Some (keyOf (t_log t) ?w, c')" "length (ck_buf c') \<le> ck_cap c'"
      using keyChunked_keyOf [OF _ Suc.prems(2)] by blast
    show ?thesis
    proof (cases "Suc (length out) = limit")
      case True
      then show ?thesis using k nx \<open>isLive ?w\<close> Suc.prems(1)
        by (auto simp: window_Suc map_filter_simps entry_def Let_def)
    next
      case False
      then show ?thesis
        using Suc.IH [OF nx k(2), of "out @ [keyOf (t_log t) ?w]"] Suc.prems k \<open>isLive ?w\<close>
        by (simp add: window_Suc map_filter_simps entry_def Let_def)
    qed
  next
    case False
    then show ?thesis
      using Suc.IH [OF nx Suc.prems(2,3)] Suc.prems(1) by (simp add: window_Suc map_filter_simps entry_def Let_def)
  qed
qed


lemma map_nth_mod_rotate: "cursor < length xs \<Longrightarrow> n \<le> length xs \<Longrightarrow>
  map (\<lambda>j. xs ! ((cursor + j) mod length xs)) [0 ..< n] = take n (rotate cursor xs)"
  by (rule nth_equalityI) (simp_all add: nth_rotate)

subsection \<open>The map interface\<close>

text \<open>
  What a client of the index relies on: lookups return the abstract map, updates and removals change
  it at one key, and the space the updates take is bounded by the cost of their keys.
\<close>

datatype ('k, 'v) tableOp = Put 'k 'v | Remove 'k

fun runOps :: "('t \<Rightarrow> 'k \<Rightarrow> 'v \<Rightarrow> 't option) \<Rightarrow> ('t \<Rightarrow> 'k \<Rightarrow> 't option) \<Rightarrow> ('k, 'v) tableOp list \<Rightarrow> 't \<Rightarrow> 't option" where
  "runOps put del [] t = Some t"
| "runOps put del (Put k v # ops) t = (case put t k v of None \<Rightarrow> None | Some t' \<Rightarrow> runOps put del ops t')"
| "runOps put del (Remove k # ops) t = (case del t k of None \<Rightarrow> None | Some t' \<Rightarrow> runOps put del ops t')"

fun mapOps :: "('k, 'v) tableOp list \<Rightarrow> ('k \<Rightarrow> 'v option) \<Rightarrow> ('k \<Rightarrow> 'v option)" where
  "mapOps [] m = m"
| "mapOps (Put k v # ops) m = mapOps ops (m(k \<mapsto> v))"
| "mapOps (Remove k # ops) m = mapOps ops (m(k := None))"

fun opsCost :: "('k \<Rightarrow> nat) \<Rightarrow> ('k, 'v) tableOp list \<Rightarrow> nat" where
  "opsCost cost [] = 0"
| "opsCost cost (Put k v # ops) = cost k + opsCost cost ops"
| "opsCost cost (Remove k # ops) = opsCost cost ops"

fun opValid :: "('v \<Rightarrow> bool) \<Rightarrow> ('k, 'v) tableOp \<Rightarrow> bool" where
  "opValid valid (Put k v) = valid v"
| "opValid valid (Remove k) = True"

locale map_index =
  fixes ok :: "'t \<Rightarrow> bool" and abst :: "'t \<Rightarrow> 'k \<Rightarrow> 'v option" and used :: "'t \<Rightarrow> nat"
    and get :: "'t \<Rightarrow> 'k \<Rightarrow> 'v option option" and put :: "'t \<Rightarrow> 'k \<Rightarrow> 'v \<Rightarrow> 't option"
    and del :: "'t \<Rightarrow> 'k \<Rightarrow> 't option" and valid :: "'v \<Rightarrow> bool" and cost :: "'k \<Rightarrow> nat" and limit :: nat
  assumes get_abst: "ok t \<Longrightarrow> get t k = Some (abst t k)"
    and put_abst: "ok t \<Longrightarrow> valid v \<Longrightarrow> used t + cost k \<le> limit \<Longrightarrow>
      \<exists>t'. put t k v = Some t' \<and> ok t' \<and> abst t' = (abst t)(k \<mapsto> v) \<and> used t' \<le> used t + cost k"
    and del_abst: "ok t \<Longrightarrow> \<exists>t'. del t k = Some t' \<and> ok t' \<and> abst t' = (abst t)(k := None) \<and> used t' \<le> used t"
begin

lemma run_refines:
  assumes "ok t" "list_all (opValid valid) ops" "used t + opsCost cost ops \<le> limit"
  shows "\<exists>t'. runOps put del ops t = Some t' \<and> ok t' \<and> abst t' = mapOps ops (abst t)"
  using assms
proof (induction ops arbitrary: t)
  case (Cons p ops)
  show ?case
  proof (cases p)
    case (Put k v)
    then obtain t1 where t1: "put t k v = Some t1" "ok t1" "abst t1 = (abst t)(k \<mapsto> v)" "used t1 \<le> used t + cost k"
      using put_abst [OF Cons.prems(1), of v k] Cons.prems by auto
    have "list_all (opValid valid) ops" "used t1 + opsCost cost ops \<le> limit" using Cons.prems Put t1(4) by simp_all
    from Cons.IH [OF t1(2) this] show ?thesis unfolding t1(3) Put runOps.simps mapOps.simps t1(1) option.case .
  next
    case (Remove k)
    then obtain t1 where t1: "del t k = Some t1" "ok t1" "abst t1 = (abst t)(k := None)" "used t1 \<le> used t"
      using del_abst [OF Cons.prems(1), of k] by auto
    have "list_all (opValid valid) ops" "used t1 + opsCost cost ops \<le> limit" using Cons.prems Remove t1(4) by simp_all
    from Cons.IH [OF t1(2) this] show ?thesis unfolding t1(3) Remove runOps.simps mapOps.simps t1(1) option.case .
  qed
qed simp

lemma run_get:
  assumes "ok t" "list_all (opValid valid) ops" "used t + opsCost cost ops \<le> limit"
  shows "\<exists>t'. runOps put del ops t = Some t' \<and> (\<forall>k. get t' k = Some (mapOps ops (abst t) k))"
  using run_refines [OF assms] get_abst by fastforce

end

interpretation idx: map_index "table_ok h" tmap "\<lambda>t. length (t_log t)" "Get h" "Set h" "Delete h"
    "\<lambda>v. unat v < 2 ^ 27" KeyRecordSize maxLogBytes for h
proof unfold_locales
  show "Get h t k = Some (tmap t k)" if "table_ok h t" for t k
    using that GetHashed_tmap by (simp add: Get_def table_ok_def)
  show "\<exists>t'. Set h t k v = Some t' \<and> table_ok h t' \<and> tmap t' = (tmap t)(k \<mapsto> v)
      \<and> length (t_log t') \<le> length (t_log t) + KeyRecordSize k"
    if "table_ok h t" "unat v < 2 ^ 27" "length (t_log t) + KeyRecordSize k \<le> maxLogBytes" for t v k
    using Set_ok [OF that] by blast
qed (use Delete_ok in blast)

text \<open>The engine's path, which passes the hash and whether the key is present.\<close>

interpretation idxk: map_index "table_ok h" tmap "\<lambda>t. length (t_log t)" "\<lambda>t k. GetHashed t k (h k)"
    "\<lambda>t k v. SetKnownHashed h t k v (h k) (GetHashed t k (h k) \<noteq> Some None)" "\<lambda>t k. deleteHashed h t k (h k)"
    "\<lambda>v. unat v < 2 ^ 27" KeyRecordSize maxLogBytes for h
proof unfold_locales
  show "\<exists>t'. SetKnownHashed h t k v (h k) (GetHashed t k (h k) \<noteq> Some None) = Some t' \<and> table_ok h t'
      \<and> tmap t' = (tmap t)(k \<mapsto> v) \<and> length (t_log t') \<le> length (t_log t) + KeyRecordSize k"
    if "table_ok h t" "unat v < 2 ^ 27" "length (t_log t) + KeyRecordSize k \<le> maxLogBytes" for t v k
  proof -
    have e: "(GetHashed t k (h k) \<noteq> Some None) = (tmap t k \<noteq> None)" using GetHashed_tmap [of h t k] that(1) by (simp add: table_ok_def)
    show ?thesis using SetKnownHashed_ok [OF that] unfolding e by blast
  qed
  show "\<exists>t'. deleteHashed h t k (h k) = Some t' \<and> table_ok h t' \<and> tmap t' = (tmap t)(k := None) \<and> length (t_log t') \<le> length (t_log t)"
    if "table_ok h t" for t k using Delete_ok [OF that, of k] unfolding Delete_def by blast
qed (use GetHashed_tmap in \<open>auto simp: table_ok_def\<close>)

lemma New_table_ok: "table_ok h New_table" "tmap New_table = Map.empty"
  using table_ok_empty [of New_table] by (simp_all add: New_table_def entries_def map_filter_simps)

subsection \<open>Properties\<close>

text \<open>C3: The index is a map. Starting from an empty table, any sequence of \<open>Set\<close> and \<open>Delete\<close> calls
  whose values fit 27 bits and whose key records fit the 1 GiB key log runs without a panic through
  every growth, compaction and tombstone reuse, keeps the table's invariant, and afterwards \<open>Get\<close>
  returns for every key what the same sequence of updates of an abstract map gives, whatever the
  hash function.\<close>

theorem index_refines_map:
  assumes "list_all (opValid (\<lambda>v. unat v < 2 ^ 27)) ops" and "opsCost KeyRecordSize ops \<le> maxLogBytes"
  shows "\<exists>t. runOps (Set h) (Delete h) ops New_table = Some t \<and> table_ok h t
    \<and> (\<forall>k. Get h t k = Some (mapOps ops Map.empty k))"
  using idx.run_refines [OF New_table_ok(1), of ops h] idx.get_abst [of h] assms New_table_ok(2)
  by (fastforce simp: New_table_def)

theorem index_refines_map_witness:
  "\<exists>t. runOps (Set (\<lambda>_. 5)) (Delete (\<lambda>_. 5)) [Put [97] 1, Put [98] 2, Remove [97], Put [98] 3] New_table = Some t
    \<and> Get (\<lambda>_. 5) t [97] = Some None \<and> Get (\<lambda>_. 5) t [98] = Some (Some 3)"
proof -
  have "KeyRecordSize [97] = 2" "KeyRecordSize [98] = 2"
    by (simp_all add: KeyRecordSize_def packKey_def recordBytes_def uvarintLen.simps)
  then have "opsCost KeyRecordSize [Put [97] 1, Put [98] 2, Remove [97], Put [98] (3 :: u32)] \<le> maxLogBytes"
    by (simp add: maxLogBytes_eq)
  then show ?thesis
    using index_refines_map [of "[Put [97] 1, Put [98] 2, Remove [97], Put [98] 3]" "\<lambda>_. 5"] by fastforce
qed

text \<open>C22: The path the engine uses (\<open>GetHashed\<close>, \<open>SetKnownHashed\<close> with the hash and the presence
  flag established under the shard lock, \<open>deleteHashed\<close>) refines the same map.\<close>

theorem index_known_path_refines_map:
  assumes "list_all (opValid (\<lambda>v. unat v < 2 ^ 27)) ops" and "opsCost KeyRecordSize ops \<le> maxLogBytes"
  shows "\<exists>t. runOps (\<lambda>t k v. SetKnownHashed h t k v (h k) (GetHashed t k (h k) \<noteq> Some None))
      (\<lambda>t k. deleteHashed h t k (h k)) ops New_table = Some t
    \<and> (\<forall>k. GetHashed t k (h k) = Some (mapOps ops Map.empty k))"
  using idxk.run_get [OF New_table_ok(1), of ops h] assms New_table_ok(2) by (simp add: New_table_def)

theorem index_known_path_refines_map_witness:
  "\<exists>t. runOps (\<lambda>t k v. SetKnownHashed (\<lambda>_. 9) t k v 9 (GetHashed t k 9 \<noteq> Some None))
      (\<lambda>t k. deleteHashed (\<lambda>_. 9) t k 9) [Put [97] 7, Remove [98]] New_table = Some t
    \<and> GetHashed t [97] 9 = Some (Some 7)"
proof -
  have "KeyRecordSize [97] = 2"
    by (simp add: KeyRecordSize_def packKey_def recordBytes_def uvarintLen.simps)
  then have "opsCost KeyRecordSize [Put [97] 7, Remove [98 :: byte] :: (bytes, u32) tableOp] \<le> maxLogBytes"
    by (simp add: maxLogBytes_eq)
  then show ?thesis
    using index_known_path_refines_map [of "[Put [97] 7, Remove [98]]" "\<lambda>_. 9"] by fastforce
qed

text \<open>A table with one live key and the record of a deleted one.\<close>

definition sampleOps :: "(bytes, u32) tableOp list" where
  "sampleOps = [Put [97] 7, Put [98] 8, Remove [97]]"

lemma distinct_singleton: "distinct xs \<Longrightarrow> set xs = {x} \<Longrightarrow> xs = [x]"
  by (cases xs) (auto simp: subset_singleton_iff insert_eq_iff split: if_splits)

lemma sample_table:
  obtains t where "runOps (Set h) (Delete h) sampleOps New_table = Some t" "table_ok h t" "tmap t = [[98] \<mapsto> 8]" "entries t = [([98], 8)]" "t_count t = 1"
proof -
  have c: "opsCost KeyRecordSize sampleOps \<le> maxLogBytes" "list_all (opValid (\<lambda>v. unat v < 2 ^ 27)) sampleOps"
    by (simp_all add: sampleOps_def KeyRecordSize_def packKey_def recordBytes_def uvarintLen.simps maxLogBytes_eq)
  have "mapOps sampleOps Map.empty = [[98] \<mapsto> 8]" by (auto simp: sampleOps_def fun_eq_iff)
  then obtain t where t: "runOps (Set h) (Delete h) sampleOps New_table = Some t" "table_ok h t" "tmap t = [[98] \<mapsto> 8]"
    using idx.run_refines [OF New_table_ok(1), of sampleOps h] c New_table_ok(2) by (auto simp: New_table_def)
  have s: "slots_ok h t" and d: "distinct (map fst (entries t))" using t(2) by (auto simp: table_ok_def slots_ok_def)
  have m: "map_of (entries t) = [[98] \<mapsto> 8]" using t(3) by (simp add: tmap_def)
  have "(k, v) \<in> set (entries t) \<longleftrightarrow> k = [98] \<and> v = 8" for k v using map_of_eq_Some_iff [OF d, of k v] m by (auto split: if_splits)
  then have "set (entries t) = {([98], 8)}" by auto
  moreover have "distinct (entries t)" using d by (simp add: distinct_map)
  ultimately have e: "entries t = [([98], 8)]" by (rule distinct_singleton [rotated])
  then have "t_count t = 1" using s by (simp add: slots_ok_def)
  then show ?thesis using that t e by blast
qed

lemma live_rotate: "mset (live_entries l (rotate k ws)) = mset (live_entries l ws)"
proof -
  have "mset (live_entries l ws) = mset (live_entries l (take (k mod length ws) ws)) + mset (live_entries l (drop (k mod length ws) ws))"
    unfolding mset_append [symmetric] map_filter_append [symmetric] by simp
  then show ?thesis by (simp add: rotate_drop_take map_filter_append)
qed

text \<open>C23: \<open>ReserveKeys\<close> (and so \<open>Reserve\<close> and \<open>Compact\<close>) keeps the map and the invariant, leaves no
  dead key records, sizes the slot array to the tight capacity of the larger of the requested and the
  live number of keys, and keeps no spare key-log room beyond the requested extra.\<close>

theorem ReserveKeys_compacts:
  assumes "table_ok h t" and "n \<le> 2 ^ 30"
  shows "\<exists>t'. ReserveKeys h t n b = Some t' \<and> table_ok h t' \<and> tmap t' = tmap t \<and> t_deadBytes t' = 0
    \<and> length (t_slots t') = (if max n (t_count t) = 0 then 0 else tightCapacity (max n (t_count t)))
    \<and> KeyLogBytes t' \<le> length (t_log t') + b"
  using ReserveKeys_ok [OF assms] by (simp add: KeyLogBytes_def)

theorem ReserveKeys_compacts_witness:
  "\<exists>t t'. runOps (Set (\<lambda>_. 0)) (Delete (\<lambda>_. 0)) sampleOps New_table = Some t \<and> ReserveKeys (\<lambda>_. 0) t 3 10 = Some t'
    \<and> tmap t' = [[98] \<mapsto> 8] \<and> t_deadBytes t' = 0 \<and> length (t_slots t') = 4"
proof -
  obtain t where t: "runOps (Set (\<lambda>_. 0)) (Delete (\<lambda>_. 0)) sampleOps New_table = Some t" "table_ok (\<lambda>_. 0) t" "tmap t = [[98] \<mapsto> 8]" "t_count t = 1"
    by (rule sample_table)
  show ?thesis using t ReserveKeys_compacts [OF t(2), of 3 10] by (auto simp: tightCapacity_def initialCapacity_def)
qed

text \<open>C24: Iteration yields every live key with its value exactly once, decoding packed keys through the
  shared chunk, and \<open>Len\<close> is the number of keys.\<close>

theorem All_yields_map:
  assumes "table_ok h t"
  shows "\<exists>es. All_pairs t = Some es \<and> map_of es = tmap t \<and> distinct (map fst es)
    \<and> Len t = card (dom (tmap t))"
proof -
  have s: "slots_ok h t" using assms by (simp add: table_ok_def)
  have all: "All_pairs t = Some (entries t)"
    using allLoop_entries [OF words_ok_slots [OF s]] by (simp add: All_pairs_def entries_def)
  have d: "distinct (map fst (entries t))" using s by (simp add: slots_ok_def)
  have "Len t = length (map fst (entries t))" using s by (simp add: Len_def slots_ok_def)
  also have "\<dots> = card (set (map fst (entries t)))" by (rule distinct_card [OF d, symmetric])
  also have "set (map fst (entries t)) = dom (tmap t)" by (simp add: tmap_def dom_map_of_conv_image_fst)
  finally show ?thesis using all d by (auto simp: tmap_def)
qed

theorem All_yields_map_witness:
  "\<exists>t es. runOps (Set (\<lambda>_. 0)) (Delete (\<lambda>_. 0)) sampleOps New_table = Some t \<and> All_pairs t = Some es
    \<and> map_of es = [[98] \<mapsto> 8] \<and> distinct (map fst es) \<and> Len t = 1"
proof -
  obtain t where t: "runOps (Set (\<lambda>_. 0)) (Delete (\<lambda>_. 0)) sampleOps New_table = Some t" "table_ok (\<lambda>_. 0) t" "tmap t = [[98] \<mapsto> 8]"
    by (rule sample_table)
  show ?thesis using t All_yields_map [OF t(2)] by auto
qed

text \<open>C25: \<open>Sample\<close> returns the first \<open>limit\<close> live keys of the at most \<open>budget\<close> slots that follow the
  cursor, in slot order with wrap-around, and a cursor inside the table to continue from.\<close>

theorem Sample_window:
  assumes "table_ok h t" and "t_slots t \<noteq> []" and "0 < limit" and "0 < budget"
  shows "\<exists>c. Sample t cursor budget limit =
      Some (take limit (map fst (live_entries (t_log t)
        (take budget (rotate (cursor mod length (t_slots t)) (t_slots t))))), c) \<and> c < length (t_slots t)"
proof -
  let ?n = "length (t_slots t)" let ?b = "min budget ?n" let ?c = "cursor mod ?n"
  have s: "slots_ok h t" using assms(1) by (simp add: table_ok_def)
  have c: "?c < ?n" using assms(2) by simp
  have "window t ?c ?b = take ?b (rotate ?c (t_slots t))"
    unfolding window_def using c by (intro map_nth_mod_rotate) simp_all
  also have "\<dots> = take budget (rotate ?c (t_slots t))" by (simp add: min_def)
  finally have w: "window t ?c ?b = take budget (rotate ?c (t_slots t))" .
  show ?thesis
    using sampleLoop_keys [OF words_ok_slots [OF s] c, of "\<lparr>ck_buf = [], ck_cap = 0\<rparr>" "[]" limit ?b] assms(2-4)
    unfolding w by (auto simp: Sample_def)
qed

theorem Sample_window_witness:
  "\<exists>t c. runOps (Set (\<lambda>_. 0)) (Delete (\<lambda>_. 0)) sampleOps New_table = Some t \<and> Sample t 2 (length (t_slots t)) 1 = Some ([[98]], c)"
proof -
  obtain t where t: "runOps (Set (\<lambda>_. 0)) (Delete (\<lambda>_. 0)) sampleOps New_table = Some t" "table_ok (\<lambda>_. 0) t" "entries t = [([98], 8)]"
    by (rule sample_table)
  have ne: "t_slots t \<noteq> []" using t(3) by (auto simp: entries_def map_filter_simps)
  have "live_entries (t_log t) (take (length (t_slots t)) (rotate (2 mod length (t_slots t)) (t_slots t))) = [([98], 8)]"
    using live_rotate [of "t_log t" "2 mod length (t_slots t)" "t_slots t"] t(3) by (simp add: entries_def)
  then show ?thesis using t(1) Sample_window [OF t(2) ne, of 1 "length (t_slots t)" 2] ne by auto
qed

text \<open>C26: \<open>GrowthBytes\<close> predicts growth exactly: when inserting a new key succeeds, the slot array grows
  by the bytes \<open>GrowthBytes\<close> reports for one more key.\<close>

theorem Set_growth_exact:
  assumes "table_ok h t" and "tmap t key = None" and "unat v < 2 ^ 27"
    and "length (t_log t) + KeyRecordSize key \<le> maxLogBytes"
  shows "\<exists>t' g. Set h t key v = Some t' \<and> GrowthBytes t 1 = Some g \<and> CapacityBytes t' = CapacityBytes t + g"
proof -
  obtain t' where t': "Set h t key v = Some t'" "capacityFor t (t_count t + 1) = Some (length (t_slots t'))"
    using Set_ok [OF assms(1,3,4)] assms(2) by blast
  obtain c where "capacityFor t (t_count t + 1) = Some c" "length (t_slots t) \<le> c"
    by (rule capacityFor_returns [of "t_count t + 1" t]) simp_all
  then have "length (t_slots t) \<le> length (t_slots t')" using t'(2) by simp
  then show ?thesis using t' by (simp add: GrowthBytes_def CapacityBytes_def add_mult_distrib [symmetric])
qed

theorem Set_growth_exact_witness:
  "\<exists>t' g. Set (\<lambda>_. 1) New_table [107] 5 = Some t' \<and> GrowthBytes New_table 1 = Some g \<and> CapacityBytes t' = CapacityBytes New_table + g"
  by (rule Set_growth_exact [OF New_table_ok(1)])
     (simp_all add: New_table_ok(2), simp add: New_table_def maxLogBytes_eq KeyRecordSize_def packKey_def recordBytes_def uvarintLen.simps)

text \<open>C27: \<open>tightCapacity n\<close> is the least capacity that holds \<open>n\<close> keys under the occupancy rule, among
  the initial capacity and the multiples of 8; the loop that rounds it up always ends.\<close>

theorem tightCapacity_least:
  "tightCapacity n = (LEAST c. (c = initialCapacity \<or> 8 dvd c) \<and> capacityAccepts n c \<and> 0 < c)"
proof (rule Least_equality [symmetric])
  show "(tightCapacity n = initialCapacity \<or> 8 dvd tightCapacity n) \<and> capacityAccepts n (tightCapacity n) \<and> 0 < tightCapacity n"
    using tightCapacity_accepts [of n] tightCapacity_ge [of n] by (auto simp: tightCapacity_eq initialCapacity_def)
  fix c assume c: "(c = initialCapacity \<or> 8 dvd c) \<and> capacityAccepts n c \<and> 0 < c"
  show "tightCapacity n \<le> c"
  proof (cases "n \<le> initialCapacity")
    case True
    then show ?thesis using c by (auto simp: tightCapacity_eq initialCapacity_def dest: dvd_imp_le)
  next
    case False
    then have n4: "4 < n" "c \<noteq> 4" using c by (auto simp: capacityAccepts_def initialCapacity_def)
    then have "n \<le> c * 8 div 10" "8 dvd c" using c by (auto simp: capacityAccepts_def initialCapacity_def)
    then have "10 * n \<le> 8 * c" by linarith
    then have "(n * 5 + 3) div 4 \<le> c" by linarith
    moreover obtain k where k: "c = 8 * k" using \<open>8 dvd c\<close> by blast
    ultimately have "((n * 5 + 3) div 4 + 7) div 8 \<le> k" by linarith
    then show ?thesis using False k by (simp add: tightCapacity_eq)
  qed
qed

text \<open>C28: The growth loop of \<open>capacityFor\<close> ends for every table and every number of keys, with a
  capacity that holds them and is not smaller than the present one.\<close>

theorem capacityFor_terminates:
  assumes "0 < n"
  shows "\<exists>c. capacityFor t n = Some c \<and> capacityAccepts n c \<and> length (t_slots t) \<le> c"
  by (rule capacityFor_returns [OF assms, of t]) blast

theorem capacityFor_terminates_witness:
  "\<exists>c. capacityFor New_table 1000 = Some c \<and> capacityAccepts 1000 c"
  using capacityFor_terminates [of 1000 New_table] by auto

text \<open>C29: A write panics exactly when it should, and otherwise returns. \<open>Set\<close> panics exactly on a value beyond the 27 bits of a
  slot and on a new key whose record does not fit the 1 GiB key log after the table has been grown for it; the growth itself
  never panics. \<open>SetKnownHashed\<close> panics for a key announced as present exactly when it is missing or the value is too
  large, and for a key announced as absent that is absent exactly when \<open>Set\<close> does.\<close>

theorem index_panics:
  assumes "table_ok h t"
  shows "\<exists>t1. growForInsert h t = Some t1
    \<and> (Set h t key v = None \<longleftrightarrow> 2 ^ 27 \<le> unat v \<or> tmap t key = None \<and> maxLogBytes < length (t_log t1) + KeyRecordSize key)
    \<and> (SetKnownHashed h t key v (h key) True = None \<longleftrightarrow> tmap t key = None \<or> 2 ^ 27 \<le> unat v)
    \<and> (tmap t key = None \<longrightarrow> SetKnownHashed h t key v (h key) False = None \<longleftrightarrow>
         2 ^ 27 \<le> unat v \<or> maxLogBytes < length (t_log t1) + KeyRecordSize key)"
proof (cases "tmap t key")
  case None
  have g: "GetHashed t key (h key) = Some None" using assms None GetHashed_tmap [of h t key] by (simp add: table_ok_def)
  obtain t1 where "growForInsert h t = Some t1"
    "insertHashed t1 key v (h key) = None \<longleftrightarrow> 2 ^ 27 \<le> unat v \<or> maxLogBytes < length (t_log t1) + KeyRecordSize key"
    "insertKnownAbsentHashed t1 key v (h key) = None \<longleftrightarrow> 2 ^ 27 \<le> unat v \<or> maxLogBytes < length (t_log t1) + KeyRecordSize key"
    by (rule insert_exact [OF assms None])
  then show ?thesis using g None by (intro exI [of _ t1]) (simp add: Set_def SetKnownHashed_def)
next
  case (Some u)
  have g: "GetHashed t key (h key) = Some (Some u)" using assms Some GetHashed_tmap [of h t key] by (simp add: table_ok_def)
  obtain t1 where "growForInsert h t = Some t1" using growForInsert_ok [OF assms] by blast
  then show ?thesis using g Some present_exact [OF assms, of key v] by (intro exI [of _ t1]) (simp add: Set_def SetKnownHashed_def)
qed

theorem index_panics_witness:
  "Set (\<lambda>_. 0) New_table [1] (2 ^ 27) = None \<and> SetKnownHashed (\<lambda>_. 0) New_table [1] 2 0 True = None
   \<and> Set (\<lambda>_. 0) New_table [1] 2 \<noteq> None \<and> SetKnownHashed (\<lambda>_. 0) New_table [1] 2 0 False \<noteq> None"
proof -
  have g: "growForInsert (\<lambda>_. 0) New_table = Some t1 \<Longrightarrow> length (t_log t1) + KeyRecordSize [1] \<le> maxLogBytes" for t1
    using growForInsert_ok [OF New_table_ok(1), of "\<lambda>_. 0"]
    by (auto simp: rebuilt_def) (simp add: New_table_def KeyRecordSize_def packKey_def recordBytes_def uvarintLen.simps maxLogBytes_eq)
  show ?thesis
    using index_panics [OF New_table_ok(1), of "\<lambda>_. 0" "[1]" "2 ^ 27"] index_panics [OF New_table_ok(1), of "\<lambda>_. 0" "[1]" 2] g
    by (auto simp: New_table_ok(2) not_less)
qed

end
