(* ===== verification/Arena.thy ===== *)
theory Arena
  imports Prelude
begin

text \<open>
  The segmented byte arena of \<^verbatim>\<open>internal/arena\<close>: size classes, packed generation-checked
  references, allocation from free lists, holes and segment tails, and freeing. A segment is the
  committed part of its slice and its capacity; bytes that a reslice exposes are zero, as the backing
  array was never written there. Free lists are threaded through the freed blocks, as in the source.
  A panic is the result \<open>None\<close>.
\<close>

subsection \<open>References\<close>

definition SegmentBytes :: nat where
  "SegmentBytes = 8 * 1024"

definition firstSmallSegmentBytes :: nat where
  "firstSmallSegmentBytes = 256"

definition tinyFirstSegmentBytes :: nat where
  "tinyFirstSegmentBytes = 192"

definition secondSmallSegmentBytes :: nat where
  "secondSmallSegmentBytes = 1024"

definition segmentMetadata :: nat where
  "segmentMetadata = 24"

definition freeBucketCount :: nat where
  "freeBucketCount = 137"

record Ref =
  r_location :: u64
  r_generation :: u64

definition refLengthMask :: u64 where
  "refLengthMask = push_bit 26 1 - 1"

definition refOffsetMask :: u64 where
  "refOffsetMask = push_bit 13 1 - 1"

definition refSegmentMask :: u64 where
  "refSegmentMask = push_bit 25 1 - 1"

definition inlineMarker :: u64 where
  "inlineMarker = push_bit 18 1"

definition inlineLengthMask :: u64 where
  "inlineLengthMask = push_bit 14 15"

definition inlineGenerationMask :: u64 where
  "inlineGenerationMask = push_bit 14 1 - 1"

definition blockGenerationMask :: u64 where
  "blockGenerationMask = inlineMarker - 1"

definition newRef :: "u32 \<Rightarrow> u32 \<Rightarrow> u32 \<Rightarrow> u64 \<Rightarrow> Ref option" where
  "newRef segment offset len generation =
     (if ucast segment > refSegmentMask then None
      else if ucast offset > refOffsetMask then None
      else if ucast len > refLengthMask then None
      else Some \<lparr>r_location = push_bit 39 (ucast segment) OR push_bit 26 (ucast offset) OR ucast len,
                 r_generation = generation\<rparr>)"

definition r_segment :: "Ref \<Rightarrow> u32" where
  "r_segment r = ucast (drop_bit 39 (r_location r) AND refSegmentMask)"

definition r_offset :: "Ref \<Rightarrow> u32" where
  "r_offset r = ucast (drop_bit 26 (r_location r) AND refOffsetMask)"

definition r_length :: "Ref \<Rightarrow> u32" where
  "r_length r = ucast (r_location r AND refLengthMask)"

definition IsInline :: "Ref \<Rightarrow> bool" where
  "IsInline r \<longleftrightarrow> r_generation r AND inlineMarker \<noteq> 0"

definition InlineInto :: "Ref \<Rightarrow> bytes option" where
  "InlineInto r =
     (if \<not> IsInline r then None
      else let n = unat (drop_bit 14 (r_generation r AND inlineLengthMask)) in
      if n < 1 \<or> n > 8 then None else Some (take n (put64 (r_location r))))"

definition Generation :: "Ref \<Rightarrow> u64" where
  "Generation r = (if IsInline r then r_generation r AND inlineGenerationMask else r_generation r)"

definition Words :: "Ref \<Rightarrow> u64 \<times> u64" where
  "Words r = (r_location r, r_generation r)"

definition RefFromWords :: "u64 \<Rightarrow> u64 \<Rightarrow> Ref" where
  "RefFromWords location generation = \<lparr>r_location = location, r_generation = generation\<rparr>"

subsection \<open>Size classes\<close>

definition dedicatedBlock :: "nat \<Rightarrow> bool" where
  "dedicatedBlock block \<longleftrightarrow> block > SegmentBytes div 2"

definition sharedLargeBucketBase :: nat where
  "sharedLargeBucketBase = 51"

definition dedicatedBucket :: nat where
  "dedicatedBucket = 58"

definition maxArenaBlock :: nat where
  "maxArenaBlock = 33 * 2 ^ 20 + 8 * 2 ^ 10"

definition goSmallSizeClasses :: "nat list" where
  "goSmallSizeClasses =
     [4864, 5376, 6144, 6528, 6784, 6912, 8192, 9472, 9728, 10240, 10880,
      12288, 13568, 14336, 16384, 18432, 19072, 20480, 21760, 24576, 27264,
      28672, 32768]"

definition goPageBytes :: nat where
  "goPageBytes = 8 * 1024"

definition roundUp :: "nat \<Rightarrow> nat \<Rightarrow> nat" where
  "roundUp k n = (n + k - 1) div k * k"

definition dedicatedBlockSize :: "nat \<Rightarrow> nat" where
  "dedicatedBlockSize sz =
     (case find (\<lambda>c. sz \<le> c) goSmallSizeClasses of
        Some c \<Rightarrow> c | None \<Rightarrow> roundUp goPageBytes sz)"

partial_function (option) mediumLoop :: "nat \<Rightarrow> nat \<Rightarrow> nat \<Rightarrow> (nat \<times> nat) option" where
  "mediumLoop sz block bucket =
     (if block < sz then
        let step = (if block div 8 < 128 then 128 else block div 8);
            block' = block + step;
            block'' = (if block' > SegmentBytes div 2 then SegmentBytes div 2 else block') in
        mediumLoop sz block'' (bucket + 1)
      else Some (bucket, block))"

fun indexOf :: "nat \<Rightarrow> nat list \<Rightarrow> nat \<Rightarrow> nat option" where
  "indexOf x [] i = None"
| "indexOf x (y # ys) i = (if y = x then Some i else indexOf x ys (i + 1))"

definition blockClass :: "nat \<Rightarrow> (nat \<times> nat) option" where
  "blockClass sz =
     (if sz > 16 \<and> sz \<le> 24 then Some (128, 24)
      else if sz > 80 \<and> sz \<le> 88 then Some (129, 88)
      else if sz \<le> 48 then let block = roundUp 16 sz in Some (block div 16 - 1, block)
      else if sz \<le> 56 then Some (3, 56)
      else if sz \<le> 128 then let block = roundUp 16 sz in Some (4 + (block - 64) div 16, block)
      else if sz \<le> 256 then let block = roundUp 32 sz in Some (9 + (block - 160) div 32, block)
      else if sz \<le> 384 then let block = roundUp 16 sz in Some (13 + (block - 272) div 16, block)
      else if sz \<le> 512 then
        let block = roundUp 16 sz in
        if block = 448 \<or> block = 512 then Some (21 + (block - 448) div 64, block)
        else Some (130 + (block - 400) div 16, block)
      else if sz \<le> 1024 then let block = roundUp 32 sz in Some (23 + (block - 544) div 32, block)
      else if sz \<le> SegmentBytes div 2 then mediumLoop sz 1024 38
      else if sz > maxArenaBlock then None
      else let block = dedicatedBlockSize sz in
        case (if block \<le> SegmentBytes then indexOf block goSmallSizeClasses 0 else None) of
          Some i \<Rightarrow> Some (sharedLargeBucketBase + i, block)
        | None \<Rightarrow> Some (dedicatedBucket, block))"

definition sizeClass :: "nat \<Rightarrow> (nat \<times> nat) option" where
  "sizeClass n = blockClass (if n + 8 < 16 then 16 else n + 8)"

definition segmentSizeForBlock :: "nat \<Rightarrow> nat" where
  "segmentSizeForBlock block =
     (if block > SegmentBytes then block
      else if block \<le> 1024 then SegmentBytes
      else let blocks = SegmentBytes div block in
        if blocks < 1 then block else blocks * block)"

definition segmentSizeForAllocation :: "nat \<Rightarrow> nat \<Rightarrow> nat" where
  "segmentSizeForAllocation block existingSegments =
     (if block > 1024 \<or> existingSegments \<ge> 2 then segmentSizeForBlock block
      else let target = firstSmallSegmentBytes;
               target = (if existingSegments = 0 \<and> block = 24 then tinyFirstSegmentBytes else target);
               target = (if existingSegments = 1 then secondSmallSegmentBytes else target) in
        if target < block then block
        else let blocks = target div block in
          if blocks < 1 then block else blocks * block)"

subsection \<open>The arena\<close>

record segment =
  s_data :: bytes
  s_cap :: nat

record freeTable =
  f_heads :: "u64 list"
  f_holes :: "nat list"

record Arena =
  a_segments :: "segment list"
  a_segcap :: nat
  a_free :: "freeTable option"
  a_generation :: u64

definition emptyArena :: Arena where
  "emptyArena = \<lparr>a_segments = [], a_segcap = 0, a_free = None, a_generation = 0\<rparr>"

definition newFreeTable :: freeTable where
  "newFreeTable = \<lparr>f_heads = replicate freeBucketCount 0, f_holes = []\<rparr>"

definition MemoryBytes :: "Arena \<Rightarrow> nat" where
  "MemoryBytes a = a_segcap a * segmentMetadata + sum_list (map s_cap (a_segments a))"

definition SegmentCount :: "Arena \<Rightarrow> nat" where
  "SegmentCount a = length (a_segments a)"

definition freeTableBytes :: nat where
  "freeTableBytes = freeBucketCount * 8 + 24"

definition TotalMemoryBytes :: "Arena \<Rightarrow> nat" where
  "TotalMemoryBytes a = MemoryBytes a + (if a_free a \<noteq> None then freeTableBytes else 0)"

definition FreeGrowth :: "Arena \<Rightarrow> Ref \<Rightarrow> nat" where
  "FreeGrowth a r =
     (if IsInline r \<or> r_generation r = 0 \<or> a_free a \<noteq> None then 0 else freeTableBytes)"

definition nextGeneration :: "Arena \<Rightarrow> u64 \<times> Arena" where
  "nextGeneration a =
     (let g = a_generation a + 1; g = (if g > blockGenerationMask then 1 else g) in
      (g, a\<lparr>a_generation := g\<rparr>))"

definition AllocInline :: "Arena \<Rightarrow> bytes \<Rightarrow> (Ref \<times> Arena) option" where
  "AllocInline a v =
     (if length v = 0 \<or> length v > 8 then None
      else let (g, a') = nextGeneration a; generation = g AND inlineGenerationMask in
        Some (\<lparr>r_location = get64 (v @ replicate (8 - length v) 0),
               r_generation = inlineMarker OR push_bit 14 (word_of_nat (length v)) OR generation\<rparr>, a'))"

text \<open>Reading and writing a 64-bit word, and copying bytes, inside the committed part of a segment.\<close>

definition readU64 :: "Arena \<Rightarrow> nat \<Rightarrow> nat \<Rightarrow> u64 option" where
  "readU64 a seg off =
     (if seg < length (a_segments a) \<and> off + 8 \<le> length (s_data (a_segments a ! seg))
      then Some (get64 (drop off (s_data (a_segments a ! seg)))) else None)"

definition writeBytes :: "Arena \<Rightarrow> nat \<Rightarrow> nat \<Rightarrow> bytes \<Rightarrow> Arena option" where
  "writeBytes a seg off bs =
     (if seg < length (a_segments a) \<and> off + length bs \<le> length (s_data (a_segments a ! seg))
      then let s = a_segments a ! seg in
        Some (a\<lparr>a_segments := (a_segments a)[seg :=
          s\<lparr>s_data := take off (s_data s) @ bs @ drop (off + length bs) (s_data s)\<rparr>]\<rparr>)
      else None)"

text \<open>Addresses on the free lists: segment plus one in the high half, so that zero is the end.\<close>

definition addressOf :: "nat \<Rightarrow> nat \<Rightarrow> u64" where
  "addressOf seg off = (push_bit 32 (word_of_nat seg + 1) OR word_of_nat off)"

definition addressSegment :: "u64 \<Rightarrow> nat" where
  "addressSegment address = unat (drop_bit 32 address) - 1"

definition addressOffset :: "u64 \<Rightarrow> nat" where
  "addressOffset address = unat (ucast address :: u32)"

definition growSegments :: "Arena \<Rightarrow> nat \<Rightarrow> Arena" where
  "growSegments a sz =
     (let capacity = (if length (a_segments a) = a_segcap a
                      then (if 2 * a_segcap a = 0 then 1 else 2 * a_segcap a) else a_segcap a) in
      a\<lparr>a_segments := a_segments a @ [\<lparr>s_data = [], s_cap = sz\<rparr>], a_segcap := capacity\<rparr>)"

definition freeHead :: "Arena \<Rightarrow> nat \<Rightarrow> u64" where
  "freeHead a bucket = (case a_free a of None \<Rightarrow> 0 | Some f \<Rightarrow> f_heads f ! bucket)"

definition setHead :: "Arena \<Rightarrow> nat \<Rightarrow> u64 \<Rightarrow> Arena" where
  "setHead a bucket address =
     a\<lparr>a_free := map_option (\<lambda>f. f\<lparr>f_heads := (f_heads f)[bucket := address]\<rparr>) (a_free a)\<rparr>"

definition holesOf :: "Arena \<Rightarrow> nat list" where
  "holesOf a = (case a_free a of None \<Rightarrow> [] | Some f \<Rightarrow> f_holes f)"

definition setHoles :: "Arena \<Rightarrow> nat list \<Rightarrow> Arena" where
  "setHoles a hs = a\<lparr>a_free := map_option (\<lambda>f. f\<lparr>f_holes := hs\<rparr>) (a_free a)\<rparr>"

text \<open>The three sources of a block: the bucket's free list, a hole, the tail of the last segment.\<close>

definition takeFree :: "Arena \<Rightarrow> nat \<Rightarrow> (nat \<times> nat \<times> Arena) option" where
  "takeFree a bucket =
     (let address = freeHead a bucket; seg = addressSegment address; off = addressOffset address in
      map_option (\<lambda>next. (seg, off, setHead a bucket next)) (readU64 a seg (off + 8)))"

definition takeHole :: "Arena \<Rightarrow> nat \<Rightarrow> (nat \<times> nat \<times> Arena) option" where
  "takeHole a block =
     (let seg = last (holesOf a); a' = setHoles a (butlast (holesOf a)) in
      if seg < length (a_segments a) then
        Some (seg, 0, a'\<lparr>a_segments := (a_segments a)[seg :=
          \<lparr>s_data = replicate block 0, s_cap = segmentSizeForBlock block\<rparr>]\<rparr>)
      else None)"

definition takeTail :: "Arena \<Rightarrow> nat \<Rightarrow> (nat \<times> nat \<times> Arena) option" where
  "takeTail a0 block =
     (let l = last (a_segments a0);
          a = (if a_segments a0 = [] \<or> s_cap l - length (s_data l) < block
               then growSegments a0 (segmentSizeForAllocation block (length (a_segments a0))) else a0);
          seg = length (a_segments a) - 1; s = a_segments a ! seg; off = length (s_data s) in
      if off + block \<le> s_cap s then
        Some (seg, off, a\<lparr>a_segments := (a_segments a)[seg := s\<lparr>s_data := s_data s @ replicate block 0\<rparr>]\<rparr>)
      else None)"

definition takeBlock :: "Arena \<Rightarrow> nat \<Rightarrow> nat \<Rightarrow> (nat \<times> nat \<times> Arena) option" where
  "takeBlock a bucket block =
     (if freeHead a bucket \<noteq> 0 then takeFree a bucket
      else if dedicatedBlock block \<and> a_free a \<noteq> None \<and> holesOf a \<noteq> [] then takeHole a block
      else takeTail a block)"

definition Alloc :: "Arena \<Rightarrow> bytes \<Rightarrow> (Ref \<times> Arena) option" where
  "Alloc a v =
     (if length v = 0 then Some (\<lparr>r_location = 0, r_generation = 0\<rparr>, a)
      else case sizeClass (length v) of None \<Rightarrow> None
      | Some (bucket, block) \<Rightarrow>
          (case takeBlock a bucket block of None \<Rightarrow> None
           | Some (seg, off, a1) \<Rightarrow>
               let (generation, a2) = nextGeneration a1 in
               (case writeBytes a2 seg off (put64 generation) of None \<Rightarrow> None
                | Some a3 \<Rightarrow>
                    (case writeBytes a3 seg (off + 8) v of None \<Rightarrow> None
                     | Some a4 \<Rightarrow>
                         map_option (\<lambda>r. (r, a4))
                           (newRef (word_of_nat seg) (word_of_nat off) (word_of_nat (length v)) generation)))))"

datatype arenaError = InvalidInline | InvalidEmpty | InvalidSegment | StaleReference | InvalidReference

definition View :: "Arena \<Rightarrow> Ref \<Rightarrow> arenaError + bytes" where
  "View a r =
     (if IsInline r then (case InlineInto r of None \<Rightarrow> Inl InvalidInline | Some out \<Rightarrow> Inr out)
      else if r_generation r = 0 then (if r_length r = 0 then Inr [] else Inl InvalidEmpty)
      else if unat (r_segment r) \<ge> length (a_segments a) then Inl InvalidSegment
      else let data = s_data (a_segments a ! unat (r_segment r)); start = unat (r_offset r);
               end = start + 8 + unat (r_length r) in
        if end > length data \<or> get64 (drop start data) \<noteq> r_generation r then Inl StaleReference
        else Inr (take (unat (r_length r)) (drop (start + 8) data)))"

definition ViewKnownLive :: "Arena \<Rightarrow> Ref \<Rightarrow> arenaError + bytes" where
  "ViewKnownLive a r =
     (if IsInline r then (case InlineInto r of None \<Rightarrow> Inl InvalidInline | Some out \<Rightarrow> Inr out)
      else if r_generation r = 0 then (if r_length r = 0 then Inr [] else Inl InvalidEmpty)
      else if unat (r_segment r) \<ge> length (a_segments a) then Inl InvalidSegment
      else let data = s_data (a_segments a ! unat (r_segment r)); start = unat (r_offset r) + 8;
               end = start + unat (r_length r) in
        if end > length data then Inl InvalidReference
        else Inr (take (unat (r_length r)) (drop start data)))"

definition Free :: "Arena \<Rightarrow> Ref \<Rightarrow> (nat \<times> Arena) option" where
  "Free a r =
     (if IsInline r then Some (0, a)
      else if r_generation r = 0 then Some (0, a)
      else case View a r of Inl _ \<Rightarrow> None
      | Inr _ \<Rightarrow>
          (case sizeClass (unat (r_length r)) of None \<Rightarrow> None
           | Some (bucket, block) \<Rightarrow>
               let seg = unat (r_segment r); off = unat (r_offset r); s = a_segments a ! seg;
                   a1 = (if a_free a = None then a\<lparr>a_free := Some newFreeTable\<rparr> else a) in
               if dedicatedBlock block \<and> off = 0 \<and> s_cap s = block \<and> length (s_data s) = block
               then Some (s_cap s, (setHoles a1 (holesOf a1 @ [seg]))
                      \<lparr>a_segments := (a_segments a)[seg := \<lparr>s_data = [], s_cap = 0\<rparr>]\<rparr>)
               else (case writeBytes a1 seg off (put64 0) of None \<Rightarrow> None
                 | Some a2 \<Rightarrow>
                     (case writeBytes a2 seg (off + 8) (put64 (freeHead a1 bucket)) of None \<Rightarrow> None
                      | Some a3 \<Rightarrow> Some (0, setHead a3 bucket (addressOf seg off))))))"

definition AllocationBytesForLength :: "nat \<Rightarrow> nat option" where
  "AllocationBytesForLength n = (if n = 0 then Some 0 else map_option snd (sizeClass n))"

definition AllocationBytes :: "Ref \<Rightarrow> nat option" where
  "AllocationBytes r =
     (if IsInline r then Some 0 else if r_generation r = 0 then Some 0
      else map_option snd (sizeClass (unat (r_length r))))"

subsection \<open>Growth planning\<close>

record growthSim =
  g_heads :: "u64 list"
  g_holes :: nat
  g_count :: nat
  g_capacity :: nat
  g_used :: nat
  g_size :: nat
  g_growth :: nat

definition growthStart :: "Arena \<Rightarrow> growthSim" where
  "growthStart a =
     \<lparr>g_heads = (case a_free a of None \<Rightarrow> replicate freeBucketCount 0 | Some f \<Rightarrow> f_heads f),
      g_holes = length (holesOf a), g_count = length (a_segments a), g_capacity = a_segcap a,
      g_used = (if a_segments a = [] then 0 else length (s_data (last (a_segments a)))),
      g_size = (if a_segments a = [] then 0 else s_cap (last (a_segments a))), g_growth = 0\<rparr>"

definition growthStep :: "Arena \<Rightarrow> growthSim \<Rightarrow> nat \<Rightarrow> growthSim option" where
  "growthStep a g n =
     (if n = 0 then Some g
      else case sizeClass n of None \<Rightarrow> None
      | Some (bucket, block) \<Rightarrow>
          if g_heads g ! bucket \<noteq> 0 then
            let address = g_heads g ! bucket in
            map_option (\<lambda>next. g\<lparr>g_heads := (g_heads g)[bucket := next]\<rparr>)
              (readU64 a (addressSegment address) (addressOffset address + 8))
          else if dedicatedBlock block \<and> g_holes g > 0 then
            Some (g\<lparr>g_holes := g_holes g - 1, g_growth := g_growth g + segmentSizeForBlock block\<rparr>)
          else if g_size g - g_used g < block then
            let sz = segmentSizeForAllocation block (g_count g);
                next = (if g_capacity g * 2 = 0 then 1 else g_capacity g * 2);
                grown = (g_count g = g_capacity g) in
            Some (g\<lparr>g_size := sz, g_used := block,
              g_growth := g_growth g + sz + (if grown then (next - g_capacity g) * segmentMetadata else 0),
              g_capacity := (if grown then next else g_capacity g), g_count := g_count g + 1\<rparr>)
          else Some (g\<lparr>g_used := g_used g + block\<rparr>))"

fun growthLoop :: "Arena \<Rightarrow> growthSim \<Rightarrow> nat list \<Rightarrow> growthSim option" where
  "growthLoop a g [] = Some g"
| "growthLoop a g (n # ns) = (case growthStep a g n of None \<Rightarrow> None | Some g' \<Rightarrow> growthLoop a g' ns)"

definition GrowthFor :: "Arena \<Rightarrow> nat list \<Rightarrow> nat option" where
  "GrowthFor a lengths = map_option g_growth (growthLoop a (growthStart a) lengths)"

end
