(* ===== verification/ArenaCorrect.thy ===== *)
theory ArenaCorrect
  imports Arena
begin

text \<open>
  Correctness of the arena: what the size classes guarantee, the invariant that ties the blocks, the
  free lists threaded through them and the live references together, and that allocation and
  freeing implement a store of values addressed by references.
\<close>

subsection \<open>Size classes\<close>

text \<open>The block size of a bucket, for every bucket except the one of dedicated blocks.\<close>

definition blockOf :: "nat \<Rightarrow> nat" where
  "blockOf b =
     (if b = 128 then 24 else if b = 129 then 88 else if b \<le> 2 then 16 * (b + 1) else if b = 3 then 56
      else if b \<le> 8 then 16 * b else if b \<le> 12 then 160 + 32 * (b - 9)
      else if b \<le> 20 then 272 + 16 * (b - 13) else if b \<le> 22 then 448 + 64 * (b - 21)
      else if 130 \<le> b then 400 + 16 * (b - 130) else if b \<le> 38 then 544 + 32 * (b - 23)
      else if b \<le> 50 then [1152, 1296, 1458, 1640, 1845, 2075, 2334, 2625, 2953, 3322, 3737, 4096] ! (b - 39)
      else goSmallSizeClasses ! (b - 51))"

definition class_ok :: "nat \<Rightarrow> nat \<Rightarrow> nat \<Rightarrow> bool" where
  "class_ok sz b block \<longleftrightarrow> sz \<le> block \<and> 16 \<le> block \<and> b < 137 \<and> block \<le> maxArenaBlock + 8192
     \<and> (if b = 58 then block > 8192 else block = blockOf b \<and> block \<le> 8192)"

lemma roundUp_bounds:
  assumes "0 < k"
  obtains m where "roundUp k n = k * m" "n \<le> k * m" "k * m < n + k"
proof -
  have "(n + k - 1) mod k < k" using assms by simp
  moreover have "k * ((n + k - 1) div k) + (n + k - 1) mod k = n + k - 1" by simp
  ultimately have "n \<le> k * ((n + k - 1) div k)" "k * ((n + k - 1) div k) < n + k" using assms by linarith+
  then show ?thesis using that [of "(n + k - 1) div k"] by (simp add: roundUp_def mult.commute)
qed

lemma class_small:
  assumes "sz \<le> 48" "sz = 16 \<or> 24 < sz"
  shows "class_ok sz (roundUp 16 sz div 16 - 1) (roundUp 16 sz)"
proof -
  obtain m where m: "roundUp 16 sz = 16 * m" "sz \<le> 16 * m" "16 * m < sz + 16" by (rule roundUp_bounds [of 16 sz]) simp
  then have "1 \<le> m" "m \<le> 3" using assms by linarith+
  then show ?thesis using m by (auto simp: class_ok_def blockOf_def maxArenaBlock_def)
qed

lemma class_128:
  assumes "56 < sz" "sz \<le> 128"
  shows "class_ok sz (4 + (roundUp 16 sz - 64) div 16) (roundUp 16 sz)"
proof -
  obtain m where m: "roundUp 16 sz = 16 * m" "sz \<le> 16 * m" "16 * m < sz + 16" by (rule roundUp_bounds [of 16 sz]) simp
  then have "4 \<le> m" "m \<le> 8" using assms by linarith+
  then obtain j where j: "m = 4 + j" "j \<le> 4" using le_Suc_ex by fastforce
  then show ?thesis using m by (simp add: class_ok_def blockOf_def maxArenaBlock_def)
qed

lemma class_256:
  assumes "128 < sz" "sz \<le> 256"
  shows "class_ok sz (9 + (roundUp 32 sz - 160) div 32) (roundUp 32 sz)"
proof -
  obtain m where m: "roundUp 32 sz = 32 * m" "sz \<le> 32 * m" "32 * m < sz + 32" by (rule roundUp_bounds [of 32 sz]) simp
  then have "5 \<le> m" "m \<le> 8" using assms by linarith+
  then obtain j where j: "m = 5 + j" "j \<le> 3" using le_Suc_ex by fastforce
  then show ?thesis using m by (simp add: class_ok_def blockOf_def maxArenaBlock_def)
qed

lemma class_384:
  assumes "256 < sz" "sz \<le> 384"
  shows "class_ok sz (13 + (roundUp 16 sz - 272) div 16) (roundUp 16 sz)"
proof -
  obtain m where m: "roundUp 16 sz = 16 * m" "sz \<le> 16 * m" "16 * m < sz + 16" by (rule roundUp_bounds [of 16 sz]) simp
  then have "17 \<le> m" "m \<le> 24" using assms by linarith+
  then obtain j where j: "m = 17 + j" "j \<le> 7" using le_Suc_ex by fastforce
  then show ?thesis using m by (simp add: class_ok_def blockOf_def maxArenaBlock_def)
qed

lemma class_512:
  assumes "384 < sz" "sz \<le> 512"
  shows "roundUp 16 sz = 448 \<or> roundUp 16 sz = 512 \<Longrightarrow> class_ok sz (21 + (roundUp 16 sz - 448) div 64) (roundUp 16 sz)"
    "\<not> (roundUp 16 sz = 448 \<or> roundUp 16 sz = 512) \<Longrightarrow> class_ok sz (130 + (roundUp 16 sz - 400) div 16) (roundUp 16 sz)"
proof -
  obtain m where m: "roundUp 16 sz = 16 * m" "sz \<le> 16 * m" "16 * m < sz + 16" by (rule roundUp_bounds [of 16 sz]) simp
  then have "25 \<le> m" "m \<le> 32" using assms by linarith+
  then obtain j where j: "m = 25 + j" "j \<le> 7" using le_Suc_ex by fastforce
  show "roundUp 16 sz = 448 \<or> roundUp 16 sz = 512 \<Longrightarrow> class_ok sz (21 + (roundUp 16 sz - 448) div 64) (roundUp 16 sz)"
    using m j by (auto simp: class_ok_def blockOf_def maxArenaBlock_def)
  show "\<not> (roundUp 16 sz = 448 \<or> roundUp 16 sz = 512) \<Longrightarrow> class_ok sz (130 + (roundUp 16 sz - 400) div 16) (roundUp 16 sz)"
    using m j by (simp add: class_ok_def blockOf_def maxArenaBlock_def)
qed

lemma class_1024:
  assumes "512 < sz" "sz \<le> 1024"
  shows "class_ok sz (23 + (roundUp 32 sz - 544) div 32) (roundUp 32 sz)"
proof -
  obtain m where m: "roundUp 32 sz = 32 * m" "sz \<le> 32 * m" "32 * m < sz + 32" by (rule roundUp_bounds [of 32 sz]) simp
  then have "17 \<le> m" "m \<le> 32" using assms by linarith+
  then obtain j where j: "m = 17 + j" "j \<le> 15" using le_Suc_ex by fastforce
  then show ?thesis using m by (simp add: class_ok_def blockOf_def maxArenaBlock_def)
qed

lemma mediumLoop_step:
  "block < sz \<Longrightarrow> mediumLoop sz block bucket =
     mediumLoop sz (min 4096 (block + max 128 (block div 8))) (bucket + 1)"
  by (subst mediumLoop.simps) (auto simp: Let_def SegmentBytes_def min_def max_def)

lemma mediumLoop_stop: "sz \<le> block \<Longrightarrow> mediumLoop sz block bucket = Some (bucket, block)"
  by (subst mediumLoop.simps) simp

lemma mediumLoop_eq:
  assumes "1024 < sz" "sz \<le> 4096"
  shows "\<exists>b. b \<in> {39 .. 50} \<and> mediumLoop sz 1024 38 = Some (b, blockOf b) \<and> sz \<le> blockOf b"
proof -
  have "mediumLoop sz 1024 38 = (if sz \<le> 1152 then Some (39, 1152) else if sz \<le> 1296 then Some (40, 1296)
    else if sz \<le> 1458 then Some (41, 1458) else if sz \<le> 1640 then Some (42, 1640) else if sz \<le> 1845 then Some (43, 1845)
    else if sz \<le> 2075 then Some (44, 2075) else if sz \<le> 2334 then Some (45, 2334) else if sz \<le> 2625 then Some (46, 2625)
    else if sz \<le> 2953 then Some (47, 2953) else if sz \<le> 3322 then Some (48, 3322) else if sz \<le> 3737 then Some (49, 3737)
    else Some (50, 4096))"
    using assms by (simp add: mediumLoop_step mediumLoop_stop min_def max_def not_le split: if_split)
  then show ?thesis
    using assms(2) by (auto simp: blockOf_def split: if_splits)
qed


lemma class_large:
  assumes "4096 < sz" "sz \<le> maxArenaBlock"
  shows "case (if dedicatedBlockSize sz \<le> SegmentBytes then indexOf (dedicatedBlockSize sz) goSmallSizeClasses 0 else None) of
      Some i \<Rightarrow> class_ok sz (sharedLargeBucketBase + i) (dedicatedBlockSize sz)
    | None \<Rightarrow> class_ok sz dedicatedBucket (dedicatedBlockSize sz)"
proof (cases "sz \<le> 8192")
  case True
  then have "dedicatedBlockSize sz = (if sz \<le> 4864 then 4864 else if sz \<le> 5376 then 5376 else if sz \<le> 6144 then 6144
    else if sz \<le> 6528 then 6528 else if sz \<le> 6784 then 6784 else if sz \<le> 6912 then 6912 else 8192)"
    by (simp add: dedicatedBlockSize_def goSmallSizeClasses_def)
  then show ?thesis
    using True by (auto simp: class_ok_def blockOf_def maxArenaBlock_def SegmentBytes_def sharedLargeBucketBase_def
      dedicatedBucket_def goSmallSizeClasses_def split: if_splits)
next
  case False
  have "sz \<le> dedicatedBlockSize sz \<and> dedicatedBlockSize sz \<le> max 32768 (sz + 8192)"
  proof (cases "find (\<lambda>c. sz \<le> c) goSmallSizeClasses")
    case (Some c)
    then have "sz \<le> c" "c \<in> set goSmallSizeClasses" by (auto simp: find_Some_iff)
    moreover have "\<forall>c \<in> set goSmallSizeClasses. c \<le> 32768" by (simp add: goSmallSizeClasses_def)
    ultimately show ?thesis using Some by (auto simp: dedicatedBlockSize_def le_max_iff_disj)
  next
    case None
    obtain m where "roundUp goPageBytes sz = goPageBytes * m" "sz \<le> goPageBytes * m" "goPageBytes * m < sz + goPageBytes"
      by (rule roundUp_bounds [of goPageBytes sz]) (simp add: goPageBytes_def)
    then show ?thesis using None by (simp add: dedicatedBlockSize_def goPageBytes_def)
  qed
  then show ?thesis using False assms
    by (auto simp: class_ok_def SegmentBytes_def dedicatedBucket_def maxArenaBlock_def max_def split: if_splits)
qed

lemma blockClass_small:
  assumes "16 \<le> sz" "sz \<le> 1024"
  shows "\<exists>b block. blockClass sz = Some (b, block) \<and> class_ok sz b block"
proof -
  consider "16 < sz \<and> sz \<le> 24" | "80 < sz \<and> sz \<le> 88" | "sz \<le> 48 \<and> (sz = 16 \<or> 24 < sz)" | "48 < sz \<and> sz \<le> 56"
    | "56 < sz \<and> sz \<le> 128 \<and> \<not> (80 < sz \<and> sz \<le> 88)" | "128 < sz \<and> sz \<le> 256" | "256 < sz \<and> sz \<le> 384"
    | "384 < sz \<and> sz \<le> 512" | "512 < sz \<and> sz \<le> 1024" using assms by linarith
  then show ?thesis
  proof cases
    case 1 then show ?thesis by (simp add: blockClass_def class_ok_def blockOf_def maxArenaBlock_def)
  next
    case 2 then show ?thesis by (simp add: blockClass_def class_ok_def blockOf_def maxArenaBlock_def)
  next
    case 3 then show ?thesis using class_small [of sz] by (auto simp: blockClass_def Let_def)
  next
    case 4 then show ?thesis by (simp add: blockClass_def class_ok_def blockOf_def maxArenaBlock_def)
  next
    case 5 then show ?thesis using class_128 [of sz] by (auto simp: blockClass_def Let_def)
  next
    case 6 then show ?thesis using class_256 [of sz] by (simp add: blockClass_def Let_def)
  next
    case 7 then show ?thesis using class_384 [of sz] by (simp add: blockClass_def Let_def)
  next
    case 8 then show ?thesis using class_512 [of sz] by (simp add: blockClass_def Let_def)
  next
    case 9 then show ?thesis using class_1024 [of sz] by (simp add: blockClass_def Let_def)
  qed
qed

lemma blockClass_ok:
  assumes "16 \<le> sz" "sz \<le> maxArenaBlock"
  shows "\<exists>b block. blockClass sz = Some (b, block) \<and> class_ok sz b block"
proof -
  consider "sz \<le> 1024" | "1024 < sz" "sz \<le> 4096" | "4096 < sz" by linarith
  then show ?thesis
  proof cases
    case 1
    then show ?thesis by (rule blockClass_small [OF assms(1)])
  next
    case 2
    then obtain b where b: "b \<in> {39 .. 50}" "mediumLoop sz 1024 38 = Some (b, blockOf b)" "sz \<le> blockOf b"
      using mediumLoop_eq by blast
    have "\<forall>b \<in> set [39 ..< 51]. blockOf b \<le> 4096" by (simp add: blockOf_def upt_rec_numeral)
    moreover have "b \<in> set [39 ..< 51]" unfolding set_upt using b(1) by simp
    ultimately have "blockOf b \<le> 4096" by (rule bspec)
    moreover have "blockClass sz = mediumLoop sz 1024 38" using 2 by (simp add: blockClass_def SegmentBytes_def)
    ultimately show ?thesis using b 2 by (auto simp: class_ok_def maxArenaBlock_def)
  next
    case 3
    define shared where "shared = (if dedicatedBlockSize sz \<le> SegmentBytes then indexOf (dedicatedBlockSize sz) goSmallSizeClasses 0 else None)"
    have "blockClass sz = (case shared of Some i \<Rightarrow> Some (sharedLargeBucketBase + i, dedicatedBlockSize sz)
        | None \<Rightarrow> Some (dedicatedBucket, dedicatedBlockSize sz))"
      using 3 assms(2) by (simp add: blockClass_def SegmentBytes_def Let_def shared_def)
    then show ?thesis using class_large [OF 3 assms(2), folded shared_def] by (cases shared) auto
  qed
qed

lemma sizeClass_ok:
  assumes "n + 8 \<le> maxArenaBlock"
  obtains b block where "sizeClass n = Some (b, block)" "class_ok (n + 8) b block"
proof -
  let ?sz = "if n + 8 < 16 then 16 else n + 8"
  have "16 \<le> ?sz" "?sz \<le> maxArenaBlock" using assms by (auto simp: maxArenaBlock_def)
  then obtain b block where "blockClass ?sz = Some (b, block)" "class_ok ?sz b block" using blockClass_ok by blast
  moreover have "n + 8 \<le> ?sz" by simp
  ultimately show ?thesis using that [of b block] by (auto simp: sizeClass_def class_ok_def)
qed

lemma sizeClass_fails: "maxArenaBlock < n + 8 \<Longrightarrow> sizeClass n = None"
  by (simp add: sizeClass_def blockClass_def maxArenaBlock_def SegmentBytes_def)

lemma sizeClass_SomeD:
  assumes "sizeClass n = Some (b, block)"
  shows "class_ok (n + 8) b block" "n + 8 \<le> maxArenaBlock"
proof -
  show le: "n + 8 \<le> maxArenaBlock" using assms sizeClass_fails [of n] by (cases "maxArenaBlock < n + 8") auto
  show "class_ok (n + 8) b block" by (rule sizeClass_ok [OF le]) (use assms in simp)
qed

lemma div_mult_bounds:
  assumes "0 < b" "b \<le> (t :: nat)"
  shows "1 \<le> t div b" "b \<le> t div b * b" "t div b * b \<le> t"
  using assms by (auto simp: Suc_le_eq div_greater_zero_iff)

lemma segmentSizeForBlock_ge:
  assumes "16 \<le> block"
  shows "block \<le> segmentSizeForBlock block" "block \<le> 8192 \<Longrightarrow> segmentSizeForBlock block \<le> 8192"
  using div_mult_bounds [of block 8192] assms
  by (auto simp: segmentSizeForBlock_def SegmentBytes_def Let_def)

lemma segmentSizeForBlock_dedicated: "dedicatedBlock block \<Longrightarrow> segmentSizeForBlock block = block"
proof -
  assume d: "dedicatedBlock block"
  have "8192 div block = 1" if "block \<le> 8192"
    using that d by (intro div_nat_eqI) (auto simp: dedicatedBlock_def SegmentBytes_def)
  then show ?thesis using d by (auto simp: segmentSizeForBlock_def dedicatedBlock_def SegmentBytes_def Let_def)
qed

lemma segmentSizeForAllocation_ge:
  assumes "16 \<le> block"
  shows "block \<le> segmentSizeForAllocation block k" "block \<le> 8192 \<Longrightarrow> segmentSizeForAllocation block k \<le> 8192"
    "8192 < block \<Longrightarrow> segmentSizeForAllocation block k = block"
proof -
  have d: "t div block * block \<le> 8192" if "t \<le> 8192" for t
    using that by (meson div_times_less_eq_dividend le_trans)
  show "block \<le> segmentSizeForAllocation block k" "block \<le> 8192 \<Longrightarrow> segmentSizeForAllocation block k \<le> 8192"
    "8192 < block \<Longrightarrow> segmentSizeForAllocation block k = block"
    using div_mult_bounds [of block 256] div_mult_bounds [of block 192] div_mult_bounds [of block 1024] assms
      segmentSizeForBlock_ge [OF assms] d
    by (auto simp: segmentSizeForAllocation_def firstSmallSegmentBytes_def tinyFirstSegmentBytes_def secondSmallSegmentBytes_def
      Let_def segmentSizeForBlock_def SegmentBytes_def)
qed

subsection \<open>References\<close>

lemma ref_masks: "refLengthMask = mask 26" "refOffsetMask = mask 13" "refSegmentMask = mask 25"
  "inlineMarker = push_bit 18 1" "inlineGenerationMask = mask 14" "blockGenerationMask = mask 18"
  by (simp_all add: refLengthMask_def refOffsetMask_def refSegmentMask_def inlineMarker_def
    inlineGenerationMask_def blockGenerationMask_def mask_eq_exp_minus_1)

definition refLocation :: "u32 \<Rightarrow> u32 \<Rightarrow> u32 \<Rightarrow> u64" where
  "refLocation s off n = (push_bit 39 (ucast s) OR push_bit 26 (ucast off) OR ucast n)"

lemma bit_refLocation:
  "bit (refLocation s off n) k \<longleftrightarrow> k < 64 \<and> (39 \<le> k \<and> bit s (k - 39) \<or> 26 \<le> k \<and> bit off (k - 26) \<or> bit n k)"
  unfolding refLocation_def by (auto simp: bit_or_iff bit_push_bit_iff bit_unsigned_iff dest: bit_imp_le_length)

lemma unat_ucast64 [simp]: "unat (ucast (x :: u32) :: u64) = unat x"
proof -
  have "unat x < 2 ^ 32" using unsigned_less [of x, where ?'a = nat] by simp
  then have "unat x < 2 ^ 64" by simp
  then show ?thesis by (simp add: unsigned_ucast_eq unsigned_take_bit_eq take_bit_nat_eq_self)
qed

lemma newRef_eq:
  assumes "unat s < 2 ^ 25" "unat off < 2 ^ 13" "unat n < 2 ^ 26"
  shows "newRef s off n g = Some \<lparr>r_location = refLocation s off n, r_generation = g\<rparr>"
proof -
  have "\<not> (ucast s :: u64) > refSegmentMask" "\<not> (ucast off :: u64) > refOffsetMask" "\<not> (ucast n :: u64) > refLengthMask"
    using assms by (simp_all add: word_less_nat_alt refSegmentMask_def refOffsetMask_def refLengthMask_def)
  then show ?thesis by (simp add: newRef_def refLocation_def)
qed

lemma ref_fields:
  assumes "unat s < 2 ^ 25" "unat off < 2 ^ 13" "unat n < 2 ^ 26"
  shows "r_segment \<lparr>r_location = refLocation s off n, r_generation = g\<rparr> = s"
    "r_offset \<lparr>r_location = refLocation s off n, r_generation = g\<rparr> = off"
    "r_length \<lparr>r_location = refLocation s off n, r_generation = g\<rparr> = n"
proof -
  show "r_segment \<lparr>r_location = refLocation s off n, r_generation = g\<rparr> = s"
  proof (rule bit_eqI)
    fix k assume "possible_bit TYPE(32 word) k"
    then show "bit (r_segment \<lparr>r_location = refLocation s off n, r_generation = g\<rparr>) k \<longleftrightarrow> bit s k"
      using bits_below [OF assms(1), of k] bits_below [OF assms(2), of "39 + k - 26"] bits_below [OF assms(3), of "39 + k"]
      by (cases "k < 25") (auto simp: r_segment_def ref_masks bit_and_iff bit_drop_bit_eq bit_mask_iff bit_refLocation bit_unsigned_iff)
  qed
  show "r_offset \<lparr>r_location = refLocation s off n, r_generation = g\<rparr> = off"
  proof (rule bit_eqI)
    fix k assume "possible_bit TYPE(32 word) k"
    then show "bit (r_offset \<lparr>r_location = refLocation s off n, r_generation = g\<rparr>) k \<longleftrightarrow> bit off k"
      using bits_below [OF assms(2), of k] bits_below [OF assms(3), of "26 + k"]
      by (cases "k < 13") (auto simp: r_offset_def ref_masks bit_and_iff bit_drop_bit_eq bit_mask_iff bit_refLocation bit_unsigned_iff)
  qed
  show "r_length \<lparr>r_location = refLocation s off n, r_generation = g\<rparr> = n"
  proof (rule bit_eqI)
    fix k assume "possible_bit TYPE(32 word) k"
    then show "bit (r_length \<lparr>r_location = refLocation s off n, r_generation = g\<rparr>) k \<longleftrightarrow> bit n k"
      using bits_below [OF assms(3), of k]
      by (cases "k < 26") (auto simp: r_length_def ref_masks bit_and_iff bit_mask_iff bit_refLocation bit_unsigned_iff)
  qed
qed

lemma nextGeneration_range:
  assumes "nextGeneration a = (g, a')" "unat (a_generation a) < 2 ^ 18"
  shows "g \<noteq> 0" "unat g < 2 ^ 18" "a' = a\<lparr>a_generation := g\<rparr>"
proof -
  have u: "unat (a_generation a + 1) = unat (a_generation a) + 1"
    using assms(2) unat_word_ariths(1) [of "a_generation a" 1] by simp
  have m: "unat blockGenerationMask = 2 ^ 18 - 1" by (simp add: blockGenerationMask_def inlineMarker_def)
  have g: "g = (if a_generation a + 1 > blockGenerationMask then 1 else a_generation a + 1)" "a' = a\<lparr>a_generation := g\<rparr>"
    using assms(1) by (auto simp: nextGeneration_def Let_def)
  show "a' = a\<lparr>a_generation := g\<rparr>" by (rule g(2))
  have "unat g \<noteq> 0 \<and> unat g < 2 ^ 18" unfolding g(1) word_less_nat_alt m u using assms(2) u by auto
  then show "g \<noteq> 0" "unat g < 2 ^ 18" by auto
qed

lemma address_decode:
  assumes "s < 2 ^ 25" "off < 2 ^ 13"
  shows "addressSegment (addressOf s off) = s" "addressOffset (addressOf s off) = off" "addressOf s off \<noteq> 0"
proof -
  let ?x = "word_of_nat s + 1 :: u64" let ?y = "word_of_nat off :: u64"
  have x: "unat ?x = Suc s"
    using assms(1) unat_word_ariths(1) [of "word_of_nat s :: u64" 1] by (simp add: unsigned_of_nat take_bit_nat_eq_self)
  have y: "unat ?y = off" using assms(2) by (simp add: unsigned_of_nat take_bit_nat_eq_self)
  have xl: "unat ?x < 2 ^ 26" using x assms(1) by simp
  have yl: "unat ?y < 2 ^ 13" using y assms(2) by simp
  have hi: "drop_bit 32 (addressOf s off) = ?x"
  proof (rule bit_eqI)
    fix k
    show "bit (drop_bit 32 (addressOf s off)) k \<longleftrightarrow> bit ?x k"
      using bits_below [OF yl, of "32 + k"] bits_below [OF xl, of k]
      by (cases "k < 32") (auto simp: addressOf_def bit_simps)
  qed
  have lo: "(ucast (addressOf s off) :: u32) = ucast ?y"
    by (rule bit_eqI) (auto simp: addressOf_def bit_simps)
  show "addressSegment (addressOf s off) = s" unfolding addressSegment_def hi x by simp
  show "addressOffset (addressOf s off) = off" unfolding addressOffset_def lo
    using y assms(2) by (simp add: unsigned_ucast_eq unsigned_take_bit_eq take_bit_nat_eq_self)
  show "addressOf s off \<noteq> 0" using hi x by auto
qed

subsection \<open>Memory\<close>

definition dat :: "Arena \<Rightarrow> nat \<Rightarrow> bytes" where
  "dat a s = s_data (a_segments a ! s)"

definition bytes_at :: "Arena \<Rightarrow> nat \<Rightarrow> nat \<Rightarrow> nat \<Rightarrow> bytes" where
  "bytes_at a s off n = take n (drop off (dat a s))"

definition same_layout :: "Arena \<Rightarrow> Arena \<Rightarrow> bool" where
  "same_layout a a' \<longleftrightarrow> length (a_segments a') = length (a_segments a) \<and> a_segcap a' = a_segcap a
     \<and> (\<forall>t < length (a_segments a). s_cap (a_segments a' ! t) = s_cap (a_segments a ! t)
          \<and> length (dat a' t) = length (dat a t))"

lemma get64_take: "get64 (take 8 bs) = get64 bs"
  by (simp add: get64_def)

lemma get64_put64_self [simp]: "get64 (put64 w) = w"
  using get64_put64 [of w "[]"] by simp

lemma writeBytes_spec:
  assumes "s < length (a_segments a)" "off + length bs \<le> length (dat a s)"
  obtains a' where "writeBytes a s off bs = Some a'" "same_layout a a'" "a_free a' = a_free a" "a_generation a' = a_generation a"
    "bytes_at a' s off (length bs) = bs"
    "\<And>t p n. t \<noteq> s \<or> p + n \<le> off \<or> off + length bs \<le> p \<Longrightarrow> bytes_at a' t p n = bytes_at a t p n"
proof -
  let ?s = "a_segments a ! s"
  let ?d = "take off (dat a s) @ bs @ drop (off + length bs) (dat a s)"
  let ?a = "a\<lparr>a_segments := (a_segments a)[s := ?s\<lparr>s_data := ?d\<rparr>]\<rparr>"
  note len = assms(2)
  have d: "dat ?a t = (if t = s then ?d else dat a t)" for t
    using assms(1) by (cases "t = s") (simp_all add: dat_def)
  have w: "writeBytes a s off bs = Some ?a" using assms by (simp add: writeBytes_def dat_def Let_def)
  have lay: "same_layout a ?a" using assms by (auto simp: same_layout_def d nth_list_update)
  have self: "bytes_at ?a s off (length bs) = bs" using len by (simp add: bytes_at_def d)
  have other: "bytes_at ?a t p n = bytes_at a t p n" if dis: "t \<noteq> s \<or> p + n \<le> off \<or> off + length bs \<le> p" for t p n
  proof (cases "t = s")
    case True
    then consider "p + n \<le> off" | "off + length bs \<le> p" using dis \<open>t = s\<close> by blast
    then show ?thesis
    proof cases
      case 1
      then show ?thesis using True len by (auto simp: bytes_at_def d drop_take min_def)
    next
      case 2
      then obtain k where k: "p = off + length bs + k" using le_Suc_ex by blast
      show ?thesis using True len by (simp add: bytes_at_def d k add.commute)
    qed
  qed (simp add: bytes_at_def d)
  show ?thesis by (rule that [OF w lay _ _ self other]) simp_all
qed

lemma readU64_bytes:
  assumes "s < length (a_segments a)" "off + 8 \<le> length (dat a s)"
  shows "readU64 a s off = Some (get64 (bytes_at a s off 8))"
  using assms by (simp add: readU64_def bytes_at_def dat_def get64_take)

subsection \<open>The invariant\<close>

type_synonym blocks = "nat \<times> nat \<Rightarrow> nat option"

definition shape_ok :: "Arena \<Rightarrow> bool" where
  "shape_ok a \<longleftrightarrow> (\<forall>s < length (a_segments a). length (dat a s) \<le> s_cap (a_segments a ! s)
       \<and> (s_cap (a_segments a ! s) \<le> 8192 \<or> length (dat a s) = s_cap (a_segments a ! s)))
     \<and> length (a_segments a) \<le> 2 ^ 25 \<and> unat (a_generation a) < 2 ^ 18
     \<and> (case a_free a of None \<Rightarrow> True | Some f \<Rightarrow> length (f_heads f) = freeBucketCount)
     \<and> distinct (holesOf a)
     \<and> (\<forall>s \<in> set (holesOf a). s < length (a_segments a) \<and> dat a s = [] \<and> s_cap (a_segments a ! s) = 0)"

definition blocks_ok :: "Arena \<Rightarrow> blocks \<Rightarrow> bool" where
  "blocks_ok a B \<longleftrightarrow>
     (\<forall>s off n. B (s, off) = Some n \<longrightarrow> s < length (a_segments a) \<and> off + n \<le> length (dat a s)
        \<and> 16 \<le> n \<and> off < 2 ^ 13
        \<and> (8192 < n \<longrightarrow> off = 0 \<and> s_cap (a_segments a ! s) = n \<and> length (dat a s) = n))
     \<and> (\<forall>s off n off' n'. B (s, off) = Some n \<longrightarrow> B (s, off') = Some n' \<longrightarrow> off < off' \<longrightarrow> off + n \<le> off')"

fun chain :: "Arena \<Rightarrow> u64 \<Rightarrow> (nat \<times> nat) list \<Rightarrow> bool" where
  "chain a address [] \<longleftrightarrow> address = 0"
| "chain a address ((s, off) # xs) \<longleftrightarrow>
     address = addressOf s off \<and> chain a (get64 (bytes_at a s (off + 8) 8)) xs"

definition free_ok :: "Arena \<Rightarrow> blocks \<Rightarrow> (nat \<Rightarrow> (nat \<times> nat) list) \<Rightarrow> bool" where
  "free_ok a B F \<longleftrightarrow>
     (\<forall>b < freeBucketCount. chain a (freeHead a b) (F b)
        \<and> (\<forall>(s, off) \<in> set (F b). B (s, off) = Some (blockOf b) \<and> b \<noteq> dedicatedBucket \<and> bytes_at a s off 8 = put64 0))
     \<and> distinct (concat (map F [0 ..< freeBucketCount]))"

definition ref_at :: "Ref \<Rightarrow> nat \<times> nat" where
  "ref_at r = (unat (r_segment r), unat (r_offset r))"

definition live_ref :: "Arena \<Rightarrow> blocks \<Rightarrow> Ref \<Rightarrow> bytes \<Rightarrow> bool" where
  "live_ref a B r v \<longleftrightarrow> v \<noteq> [] \<and> unat (r_length r) = length v \<and> r_generation r \<noteq> 0 \<and> unat (r_generation r) < 2 ^ 18
     \<and> (\<exists>b block. sizeClass (length v) = Some (b, block) \<and> B (ref_at r) = Some block)
     \<and> bytes_at a (fst (ref_at r)) (snd (ref_at r)) 8 = put64 (r_generation r)
     \<and> bytes_at a (fst (ref_at r)) (snd (ref_at r) + 8) (length v) = v"

definition live_ok :: "Arena \<Rightarrow> blocks \<Rightarrow> (nat \<Rightarrow> (nat \<times> nat) list) \<Rightarrow> (Ref \<Rightarrow> bytes option) \<Rightarrow> bool" where
  "live_ok a B F L \<longleftrightarrow>
     (\<forall>r v. L r = Some v \<longrightarrow> live_ref a B r v \<and> (\<forall>b < freeBucketCount. ref_at r \<notin> set (F b)))
     \<and> inj_on ref_at (dom L)"

definition arena_inv :: "Arena \<Rightarrow> blocks \<Rightarrow> (nat \<Rightarrow> (nat \<times> nat) list) \<Rightarrow> (Ref \<Rightarrow> bytes option) \<Rightarrow> bool" where
  "arena_inv a B F L \<longleftrightarrow> shape_ok a \<and> blocks_ok a B \<and> free_ok a B F \<and> live_ok a B F L"

definition arena_ok :: "Arena \<Rightarrow> (Ref \<Rightarrow> bytes option) \<Rightarrow> bool" where
  "arena_ok a L \<longleftrightarrow> (\<exists>B F. arena_inv a B F L)"

lemma blocks_disjoint:
  assumes "blocks_ok a B" "B (s, off) = Some n" "B (t, p) = Some m" "(t, p) \<noteq> (s, off)"
  shows "t \<noteq> s \<or> p + m \<le> off \<or> off + n \<le> p"
proof (cases "t = s")
  case True
  then consider "off < p" | "p < off" using assms(4) by fastforce
  then show ?thesis using assms(1-3) True unfolding blocks_ok_def by cases blast+
qed simp

text \<open>Two memories agree on a set of blocks.\<close>

definition agree :: "Arena \<Rightarrow> Arena \<Rightarrow> blocks \<Rightarrow> nat \<times> nat \<Rightarrow> bool" where
  "agree a a' B p \<longleftrightarrow> (\<forall>m i k. B p = Some m \<longrightarrow> i + k \<le> m \<longrightarrow>
     bytes_at a' (fst p) (snd p + i) k = bytes_at a (fst p) (snd p + i) k)"

lemma agreeD:
  assumes "agree a a' B (s, off)" "B (s, off) = Some m" "i + k \<le> m"
  shows "bytes_at a' s (off + i) k = bytes_at a s (off + i) k"
  using assms unfolding agree_def by fastforce

lemma chain_agree:
  assumes "chain a address xs" "\<forall>p \<in> set xs. agree a a' B p \<and> (\<exists>m. B p = Some m \<and> 16 \<le> m)"
  shows "chain a' address xs"
  using assms
proof (induction a address xs rule: chain.induct)
  case (2 a address s off xs)
  then have "bytes_at a' s (off + 8) 8 = bytes_at a s (off + 8) 8"
    using agreeD [of a a' B s off _ 8 8] by fastforce
  then show ?case using 2 by simp
qed simp

lemma live_ref_agree:
  assumes "live_ref a B r v" "agree a a' B (ref_at r)"
  shows "live_ref a' B r v"
proof -
  obtain b block where c: "sizeClass (length v) = Some (b, block)" "B (ref_at r) = Some block"
    using assms(1) unfolding live_ref_def by blast
  have "length v + 8 \<le> block" using sizeClass_SomeD [OF c(1)] by (simp add: class_ok_def)
  moreover obtain s off where p: "ref_at r = (s, off)" by fastforce
  ultimately have "bytes_at a' s off 8 = bytes_at a s off 8" "bytes_at a' s (off + 8) (length v) = bytes_at a s (off + 8) (length v)"
    using agreeD [of a a' B s off block 0 8] agreeD [of a a' B s off block 8 "length v"] assms(2) c(2) by simp_all
  then show ?thesis using assms(1) p unfolding live_ref_def by simp
qed

lemma same_layout_ok:
  assumes "same_layout a a'" "a_free a' = a_free a" "unat (a_generation a') < 2 ^ 18"
  shows "shape_ok a \<Longrightarrow> shape_ok a'" "blocks_ok a B \<Longrightarrow> blocks_ok a' B"
proof -
  have h: "holesOf a' = holesOf a" using assms(2) by (simp add: holesOf_def)
  have len: "length (a_segments a') = length (a_segments a)"
    and ld: "\<And>t. t < length (a_segments a) \<Longrightarrow> length (dat a' t) = length (dat a t)"
    and cap: "\<And>t. t < length (a_segments a) \<Longrightarrow> s_cap (a_segments a' ! t) = s_cap (a_segments a ! t)"
    using assms(1) by (simp_all add: same_layout_def)
  have e: "dat a' t = []" if "t < length (a_segments a)" "dat a t = []" for t
    using ld [OF that(1)] that(2) by simp
  show "shape_ok a \<Longrightarrow> shape_ok a'"
    using assms(2,3) ld cap e by (simp add: shape_ok_def h len)
  assume b: "blocks_ok a B"
  have "s < length (a_segments a') \<and> off + n \<le> length (dat a' s) \<and> 16 \<le> n \<and> off < 2 ^ 13
      \<and> (8192 < n \<longrightarrow> off = 0 \<and> s_cap (a_segments a' ! s) = n \<and> length (dat a' s) = n)"
    if "B (s, off) = Some n" for s off n
  proof -
    from b that have "s < length (a_segments a) \<and> off + n \<le> length (dat a s) \<and> 16 \<le> n \<and> off < 2 ^ 13
      \<and> (8192 < n \<longrightarrow> off = 0 \<and> s_cap (a_segments a ! s) = n \<and> length (dat a s) = n)"
      unfolding blocks_ok_def by blast
    then show ?thesis using ld [of s] cap [of s] len by simp
  qed
  then show "blocks_ok a' B" using b unfolding blocks_ok_def by blast
qed

lemma same_layout_refl [simp]: "same_layout a a"
  by (simp add: same_layout_def)

lemma same_layout_trans: "same_layout a b \<Longrightarrow> same_layout b c \<Longrightarrow> same_layout a c"
  by (simp add: same_layout_def)

lemma free_ok_agree:
  assumes "free_ok a B F" "blocks_ok a B" "\<And>b. freeHead a' b = freeHead a b"
    "\<And>b p. b < freeBucketCount \<Longrightarrow> p \<in> set (F b) \<Longrightarrow> agree a a' B p"
  shows "free_ok a' B F"
proof -
  have fb: "B p = Some (blockOf b)" "16 \<le> blockOf b" if "b < freeBucketCount" "p \<in> set (F b)" for b p
  proof -
    show *: "B p = Some (blockOf b)" using assms(1) that unfolding free_ok_def by fastforce
    show "16 \<le> blockOf b" using assms(2) * unfolding blocks_ok_def by (cases p) blast
  qed
  have "chain a' (freeHead a' b) (F b)" if b: "b < freeBucketCount" for b
  proof (rule chain_agree [of a _ _ a' B])
    show "chain a (freeHead a' b) (F b)" using assms(1,3) b by (simp add: free_ok_def)
    show "\<forall>p \<in> set (F b). agree a a' B p \<and> (\<exists>m. B p = Some m \<and> 16 \<le> m)" using assms(4) b fb by blast
  qed
  moreover have "bytes_at a' s off 8 = put64 0" if "b < freeBucketCount" "(s, off) \<in> set (F b)" for b s off
    using agreeD [OF assms(4) [OF that] fb(1) [OF that], of 0 8] fb(2) [OF that] assms(1) that
    unfolding free_ok_def by fastforce
  ultimately show ?thesis using assms(1) unfolding free_ok_def by blast
qed

subsection \<open>Filling a block\<close>

lemma not_inline: "unat (r_generation r) < 2 ^ 18 \<Longrightarrow> \<not> IsInline r"
  using bits_below [of "r_generation r" 18 18] and_exp_eq_0_iff_not_bit [of "r_generation r" 18]
  by (simp add: IsInline_def inlineMarker_def)

lemma live_ok_update:
  assumes live: "live_ok a B F L" and new: "live_ref a' B r v" "\<forall>b < freeBucketCount. ref_at r \<notin> set (F b)"
    "ref_at r \<notin> ref_at ` dom L" and ag: "\<And>p. p \<in> ref_at ` dom L \<Longrightarrow> agree a a' B p"
  shows "live_ok a' B F (L(r \<mapsto> v))"
proof -
  have "live_ref a' B r' v'" if "L r' = Some v'" for r' v'
    using live live_ref_agree [of a B r' v' a'] ag that unfolding live_ok_def by blast
  moreover have "inj_on ref_at (dom (L(r \<mapsto> v)))"
    using live new(3) by (auto simp: live_ok_def inj_on_insert)
  ultimately show ?thesis using live new unfolding live_ok_def by auto
qed

lemma fill_block:
  assumes inv: "arena_inv a B F L" and blk: "B (s, off) = Some block" "sizeClass (length v) = Some (b, block)" "v \<noteq> []"
    and fresh: "\<forall>b < freeBucketCount. (s, off) \<notin> set (F b)" "(s, off) \<notin> ref_at ` dom L"
    and g: "g \<noteq> 0" "unat g < 2 ^ 18"
  obtains r a1 a2 where "writeBytes (a\<lparr>a_generation := g\<rparr>) s off (put64 g) = Some a1" "writeBytes a1 s (off + 8) v = Some a2"
    "newRef (word_of_nat s) (word_of_nat off) (word_of_nat (length v)) g = Some r"
    "arena_inv a2 B F (L(r \<mapsto> v))" "L r = None" "same_layout a a2" "a_free a2 = a_free a"
    "\<And>p. p \<in> dom B \<Longrightarrow> p \<noteq> (s, off) \<Longrightarrow> agree a a2 B p"
proof -
  have sh: "shape_ok a" and bo: "blocks_ok a B" and fo: "free_ok a B F" and lo: "live_ok a B F L"
    using inv by (simp_all add: arena_inv_def)
  let ?a = "a\<lparr>a_generation := g\<rparr>"
  have cl: "length v + 8 \<le> block" "length v + 8 \<le> maxArenaBlock" using sizeClass_SomeD [OF blk(2)] by (simp_all add: class_ok_def)
  have pos: "s < length (a_segments a)" "off + block \<le> length (dat a s)" "off < 2 ^ 13" using bo blk(1) unfolding blocks_ok_def by blast+
  have dat: "dat ?a = dat a" by (simp add: dat_def fun_eq_iff)
  obtain a1 where w1: "writeBytes ?a s off (put64 g) = Some a1" "same_layout ?a a1" "a_free a1 = a_free ?a" "a_generation a1 = a_generation ?a"
    "bytes_at a1 s off (length (put64 g)) = put64 g"
    "\<And>t p n. t \<noteq> s \<or> p + n \<le> off \<or> off + length (put64 g) \<le> p \<Longrightarrow> bytes_at a1 t p n = bytes_at ?a t p n"
    by (rule writeBytes_spec [of s ?a off "put64 g"]) (use pos cl in \<open>simp_all add: dat\<close>)
  have pos1: "s < length (a_segments a1)" "(off + 8) + length v \<le> length (dat a1 s)"
    using w1(2) pos cl by (simp_all add: same_layout_def dat)
  obtain a2 where w2: "writeBytes a1 s (off + 8) v = Some a2" "same_layout a1 a2" "a_free a2 = a_free a1" "a_generation a2 = a_generation a1"
    "bytes_at a2 s (off + 8) (length v) = v"
    "\<And>t p n. t \<noteq> s \<or> p + n \<le> off + 8 \<or> off + 8 + length v \<le> p \<Longrightarrow> bytes_at a2 t p n = bytes_at a1 t p n"
    by (rule writeBytes_spec [OF pos1]) (rule that, assumption+)
  have lay: "same_layout a a2" using w1(2) w2(2) by (simp add: same_layout_def dat)
  have ag: "agree a a2 B p" if "p \<noteq> (s, off)" for p
    unfolding agree_def
  proof (intro allI impI)
    fix m i k assume m: "B p = Some m" "i + k \<le> m"
    obtain t q where p: "p = (t, q)" by fastforce
    have "t \<noteq> s \<or> q + m \<le> off \<or> off + block \<le> q" using blocks_disjoint [OF bo blk(1), of t q m] m that p by blast
    then have "bytes_at a2 t (q + i) k = bytes_at ?a t (q + i) k"
      using w1(6) [of t "q + i" k] w2(6) [of t "q + i" k] m(2) cl(1) by auto
    then show "bytes_at a2 (fst p) (snd p + i) k = bytes_at a (fst p) (snd p + i) k" by (simp add: p bytes_at_def dat)
  qed
  let ?r = "\<lparr>r_location = refLocation (word_of_nat s) (word_of_nat off) (word_of_nat (length v)), r_generation = g\<rparr>"
  have s25: "s < 2 ^ 25" using sh pos(1) by (simp add: shape_ok_def)
  have v26: "length v < 2 ^ 26" using cl(2) by (simp add: maxArenaBlock_def)
  have u: "unat (word_of_nat s :: u32) = s" "unat (word_of_nat off :: u32) = off" "unat (word_of_nat (length v) :: u32) = length v"
    using s25 v26 pos(3) by (simp_all add: unat_u32)
  have fields: "r_segment ?r = word_of_nat s" "r_offset ?r = word_of_nat off" "r_length ?r = word_of_nat (length v)"
    using ref_fields [of "word_of_nat s" "word_of_nat off" "word_of_nat (length v)" g] u s25 v26 pos(3) by simp_all
  have at: "ref_at ?r = (s, off)" by (simp add: ref_at_def fields u)
  have nr: "newRef (word_of_nat s) (word_of_nat off) (word_of_nat (length v)) g = Some ?r"
    using newRef_eq [of "word_of_nat s" "word_of_nat off" "word_of_nat (length v)" g] u s25 v26 pos(3) by simp
  have "bytes_at a2 s off 8 = put64 g" using w2(6) [of s off 8] w1(5) by simp
  then have lr: "live_ref a2 B ?r v" using blk g w2(5) by (simp add: live_ref_def at fields u)
  have none: "L ?r = None" using fresh(2) at by (metis domIff imageI)
  have agL: "agree a a2 B p" if "p \<in> ref_at ` dom L" for p
    by (rule ag) (use that fresh(2) in blast)
  have "live_ok a2 B F (L(?r \<mapsto> v))"
    by (rule live_ok_update [OF lo lr _ _ agL]) (simp_all add: at fresh)
  moreover have "free_ok a2 B F"
  proof (rule free_ok_agree [OF fo bo])
    show "freeHead a2 b = freeHead a b" for b using w1(3) w2(3) by (simp add: freeHead_def)
    show "agree a a2 B p" if "b < freeBucketCount" "p \<in> set (F b)" for b p
      by (rule ag) (use that fresh(1) in blast)
  qed
  moreover have "shape_ok a2" "blocks_ok a2 B"
    using same_layout_ok [OF lay] w1(3,4) w2(3,4) g(2) sh bo by simp_all
  ultimately have "arena_inv a2 B F (L(?r \<mapsto> v))" by (simp add: arena_inv_def)
  then show ?thesis using that [OF w1(1) w2(1) nr] none lay w1(3) w2(3) ag by simp
qed

subsection \<open>Taking a block\<close>

text \<open>What a successful \<open>takeBlock\<close> gives: a block of the class that is neither free nor live, with all
  other blocks untouched.\<close>

definition taken :: "Arena \<Rightarrow> blocks \<Rightarrow> (nat \<Rightarrow> (nat \<times> nat) list) \<Rightarrow> (Ref \<Rightarrow> bytes option) \<Rightarrow> nat \<Rightarrow> nat \<times> nat \<Rightarrow>
    Arena \<Rightarrow> blocks \<Rightarrow> (nat \<Rightarrow> (nat \<times> nat) list) \<Rightarrow> bool" where
  "taken a B F L block p a1 B1 F1 \<longleftrightarrow> arena_inv a1 B1 F1 L \<and> B1 p = Some block
     \<and> (\<forall>b < freeBucketCount. p \<notin> set (F1 b) \<and> set (F1 b) \<subseteq> set (F b)) \<and> p \<notin> ref_at ` dom L
     \<and> B \<subseteq>\<^sub>m B1 \<and> (\<forall>q \<in> dom B. agree a a1 B q) \<and> a_generation a1 = a_generation a"

lemma agree_extend:
  assumes bo: "blocks_ok a B" and ext: "\<And>t. t < length (a_segments a) \<Longrightarrow> \<exists>z. dat a1 t = dat a t @ z"
  shows "agree a a1 B p"
  unfolding agree_def
proof (intro allI impI)
  fix m i k assume m: "B p = Some m" "i + k \<le> m"
  obtain t q where p: "p = (t, q)" by fastforce
  have t: "t < length (a_segments a)" "q + m \<le> length (dat a t)" using bo m(1) p unfolding blocks_ok_def by blast+
  obtain z where "dat a1 t = dat a t @ z" using ext [OF t(1)] by blast
  then show "bytes_at a1 (fst p) (snd p + i) k = bytes_at a (fst p) (snd p + i) k"
    using t(2) m(2) by (simp add: p bytes_at_def)
qed

lemma free_ok_mono: "free_ok a B F \<Longrightarrow> B \<subseteq>\<^sub>m B1 \<Longrightarrow> free_ok a B1 F"
  unfolding free_ok_def map_le_def by (fastforce simp: dom_def)

lemma live_ok_mono:
  assumes "live_ok a B F L" "B \<subseteq>\<^sub>m B1"
  shows "live_ok a B1 F L"
proof -
  have "B1 p = Some m" if "B p = Some m" for p m using assms(2) that by (force simp: map_le_def)
  then have "live_ref a B r v \<Longrightarrow> live_ref a B1 r v" for r v unfolding live_ref_def by blast
  then show ?thesis using assms(1) unfolding live_ok_def by blast
qed

lemma live_ok_agree:
  assumes "live_ok a B F L" "\<And>p. p \<in> ref_at ` dom L \<Longrightarrow> agree a a1 B p"
  shows "live_ok a1 B F L"
  using assms live_ref_agree unfolding live_ok_def by blast

lemma refs_in_dom: "live_ok a B F L \<Longrightarrow> ref_at ` dom L \<subseteq> dom B"
proof
  fix p assume "live_ok a B F L" "p \<in> ref_at ` dom L"
  then obtain r v where "p = ref_at r" "live_ref a B r v" by (auto simp: live_ok_def)
  then show "p \<in> dom B" by (auto simp: live_ref_def)
qed

lemma frees_in_dom: "free_ok a B F \<Longrightarrow> b < freeBucketCount \<Longrightarrow> set (F b) \<subseteq> dom B"
  unfolding free_ok_def by fastforce

lemma extended:
  assumes inv: "arena_inv a B F L" and ext: "\<And>t. t < length (a_segments a) \<Longrightarrow> \<exists>z. dat a1 t = dat a t @ z"
    and heads: "\<And>b. freeHead a1 b = freeHead a b" and new: "B p = None"
    and sh: "shape_ok a1" and bo1: "blocks_ok a1 (B(p \<mapsto> block))" and g: "a_generation a1 = a_generation a"
  shows "taken a B F L block p a1 (B(p \<mapsto> block)) F"
proof -
  have bo: "blocks_ok a B" and fo: "free_ok a B F" and lo: "live_ok a B F L" using inv by (simp_all add: arena_inv_def)
  have ag: "agree a a1 B q" for q by (rule agree_extend [OF bo ext])
  have le: "B \<subseteq>\<^sub>m B(p \<mapsto> block)" using new by (auto simp: map_le_def)
  have "free_ok a1 (B(p \<mapsto> block)) F" by (rule free_ok_mono [OF free_ok_agree [OF fo bo heads ag] le])
  moreover have "live_ok a1 (B(p \<mapsto> block)) F L" by (rule live_ok_mono [OF live_ok_agree [OF lo ag] le])
  moreover have "p \<notin> ref_at ` dom L" "b < freeBucketCount \<Longrightarrow> p \<notin> set (F b)" for b
    using refs_in_dom [OF lo] frees_in_dom [OF fo, of b] new by auto
  ultimately show ?thesis using sh bo1 le ag g by (simp add: taken_def arena_inv_def)
qed

lemma dat_cong: "a_segments a' = a_segments a \<Longrightarrow> dat a' = dat a \<and> bytes_at a' = bytes_at a"
  by (simp add: dat_def bytes_at_def fun_eq_iff)

lemma setHead_simps [simp]:
  "a_segments (setHead a b x) = a_segments a" "a_generation (setHead a b x) = a_generation a" "a_segcap (setHead a b x) = a_segcap a"
  "dat (setHead a b x) = dat a" "bytes_at (setHead a b x) = bytes_at a" "holesOf (setHead a b x) = holesOf a"
  using dat_cong [of "setHead a b x" a]
  by (simp_all add: setHead_def holesOf_def option.case_eq_if option.map_sel)

lemma takeFree_ok:
  assumes inv: "arena_inv a B F L" and b: "b < freeBucketCount" "freeHead a b \<noteq> 0"
  shows "\<exists>s off a1 F1. takeFree a b = Some (s, off, a1) \<and> taken a B F L (blockOf b) (s, off) a1 B F1
    \<and> a_segments a1 = a_segments a"
proof -
  have sh: "shape_ok a" and bo: "blocks_ok a B" and fo: "free_ok a B F" and lo: "live_ok a B F L" using inv by (simp_all add: arena_inv_def)
  have ch: "chain a (freeHead a b) (F b)" using fo b(1) by (simp add: free_ok_def)
  then obtain s off xs where F: "F b = (s, off) # xs" using b(2) by (cases "F b") auto
  then have ad: "freeHead a b = addressOf s off" and ch': "chain a (get64 (bytes_at a s (off + 8) 8)) xs" using ch by simp_all
  have Bp: "B (s, off) = Some (blockOf b)" "b \<noteq> dedicatedBucket" using fo b(1) F unfolding free_ok_def by fastforce+
  have pos: "s < length (a_segments a)" "off + blockOf b \<le> length (dat a s)" "off < 2 ^ 13" "16 \<le> blockOf b"
    using bo Bp(1) unfolding blocks_ok_def by blast+
  have s25: "s < 2 ^ 25" using sh pos(1) by (simp add: shape_ok_def)
  let ?next = "get64 (bytes_at a s (off + 8) 8)" let ?a = "setHead a b ?next" let ?F = "F(b := xs)"
  have rd: "readU64 a s (off + 8) = Some ?next" by (rule readU64_bytes) (use pos in simp_all)
  have tf: "takeFree a b = Some (s, off, ?a)"
    using address_decode [OF s25 pos(3)] rd by (simp add: takeFree_def ad Let_def)
  obtain f where f: "a_free a = Some f" "length (f_heads f) = freeBucketCount"
    using b(2) sh by (cases "a_free a") (auto simp: freeHead_def shape_ok_def)
  have heads: "freeHead ?a c = (if c = b then ?next else freeHead a c)" if "c < freeBucketCount" for c
    using f b(1) that by (auto simp: freeHead_def setHead_def)
  have "a_free ?a = Some (f\<lparr>f_heads := (f_heads f)[b := ?next]\<rparr>)" by (simp add: setHead_def f)
  then have sh': "shape_ok ?a" using sh f by (simp add: shape_ok_def)
  have bo': "blocks_ok ?a B" using bo by (simp add: blocks_ok_def)
  have ch2: "chain ?a x ys = chain a x ys" for x ys by (induction ys arbitrary: x) auto
  have dist: "distinct (concat (map F [0 ..< freeBucketCount]))" using fo by (simp add: free_ok_def)
  have "[0 ..< freeBucketCount] = [0 ..< b] @ b # [Suc b ..< freeBucketCount]"
    using b(1) by (metis less_imp_le_nat upt_add_eq_append upt_conv_Cons le0 le_add_diff_inverse)
  then have split: "concat (map G [0 ..< freeBucketCount]) = concat (map G [0 ..< b]) @ G b @ concat (map G [Suc b ..< freeBucketCount])" for G :: "nat \<Rightarrow> (nat \<times> nat) list" by simp
  have sameF: "map ?F [0 ..< b] = map F [0 ..< b]" "map ?F [Suc b ..< freeBucketCount] = map F [Suc b ..< freeBucketCount]" by auto
  have d1: "(s, off) \<notin> set (concat (map ?F [0 ..< freeBucketCount]))" and d2: "distinct (concat (map ?F [0 ..< freeBucketCount]))"
    using dist unfolding split sameF by (auto simp: F)
  have fo': "free_ok ?a B ?F"
    using fo ch' d2 heads b(1) F unfolding free_ok_def by (auto simp: ch2)
  have notin: "(s, off) \<notin> set (?F c)" if "c < freeBucketCount" for c using d1 that by auto
  have sub: "set (?F c) \<subseteq> set (F c)" for c by (auto simp: F)
  then have "live_ok a B ?F L" using lo unfolding live_ok_def by blast
  then have lo': "live_ok ?a B ?F L" by (simp add: live_ok_def live_ref_def)
  have "(s, off) \<notin> ref_at ` dom L" using lo F b(1) unfolding live_ok_def by fastforce
  then have "taken a B F L (blockOf b) (s, off) ?a B ?F"
    using sh' bo' fo' lo' Bp notin sub by (simp add: taken_def arena_inv_def agree_def)
  then show ?thesis using tf by auto
qed


lemma takeHole_ok:
  assumes inv: "arena_inv a B F L" and d: "dedicatedBlock block" and h: "holesOf a \<noteq> []" and n: "16 \<le> block"
  shows "\<exists>s a1. takeHole a block = Some (s, 0, a1) \<and> taken a B F L block (s, 0) a1 (B((s, 0) \<mapsto> block)) F
    \<and> a_segments a1 = (a_segments a)[s := \<lparr>s_data = replicate block 0, s_cap = block\<rparr>] \<and> s = last (holesOf a)
    \<and> holesOf a1 = butlast (holesOf a) \<and> a_segcap a1 = a_segcap a"
proof -
  have sh: "shape_ok a" and bo: "blocks_ok a B" using inv by (simp_all add: arena_inv_def)
  let ?s = "last (holesOf a)" let ?seg = "\<lparr>s_data = replicate block 0, s_cap = block\<rparr> :: segment"
  have "?s \<in> set (holesOf a)" using h by simp
  then have s: "?s < length (a_segments a)" "dat a ?s = []" "s_cap (a_segments a ! ?s) = 0" using sh unfolding shape_ok_def by blast+
  let ?a = "(setHoles a (butlast (holesOf a)))\<lparr>a_segments := (a_segments a)[?s := ?seg]\<rparr>"
  have th: "takeHole a block = Some (?s, 0, ?a)"
    using s(1) by (simp add: takeHole_def Let_def segmentSizeForBlock_dedicated [OF d])
  obtain f where f: "a_free a = Some f" using h by (cases "a_free a") (auto simp: holesOf_def)
  have hol: "holesOf ?a = butlast (holesOf a)" by (simp add: holesOf_def setHoles_def f)
  have dt: "dat ?a t = (if t = ?s then replicate block 0 else dat a t)" for t
    using s(1) by (simp add: dat_def nth_list_update)
  have none: "B (?s, off) = None" for off
  proof (rule ccontr)
    assume "B (?s, off) \<noteq> None"
    then obtain m where "B (?s, off) = Some m" by blast
    then have "off + m \<le> length (dat a ?s)" "16 \<le> m" using bo unfolding blocks_ok_def by blast+
    then show False using s(2) by simp
  qed
  have dist: "distinct (butlast (holesOf a) @ [?s])" using sh h by (simp add: shape_ok_def)
  have sh': "shape_ok ?a"
  proof -
    have "length (dat ?a t) \<le> s_cap (a_segments ?a ! t) \<and> (s_cap (a_segments ?a ! t) \<le> 8192 \<or> length (dat ?a t) = s_cap (a_segments ?a ! t))"
      if "t < length (a_segments a)" for t
      using sh that s(1) by (cases "t = ?s") (auto simp: shape_ok_def dt)
    moreover have "t < length (a_segments a) \<and> dat ?a t = [] \<and> s_cap (a_segments ?a ! t) = 0" if "t \<in> set (butlast (holesOf a))" for t
    proof -
      have "t \<noteq> ?s" "t \<in> set (holesOf a)" using dist that in_set_butlastD [OF that] by auto
      then show ?thesis using sh by (simp add: shape_ok_def dt)
    qed
    moreover have "case a_free ?a of None \<Rightarrow> True | Some f \<Rightarrow> length (f_heads f) = freeBucketCount"
      using sh f by (simp add: shape_ok_def setHoles_def)
    ultimately show ?thesis using sh dist unfolding shape_ok_def hol by (simp add: setHoles_def)
  qed
  have bo': "blocks_ok ?a (B((?s, 0) \<mapsto> block))"
    using bo none s(1) n unfolding blocks_ok_def by (auto simp: dt nth_list_update split: if_splits)
  have "taken a B F L block (?s, 0) ?a (B((?s, 0) \<mapsto> block)) F"
  proof (rule extended [OF inv _ _ none sh' bo'])
    show "\<exists>z. dat ?a t = dat a t @ z" for t using s(2) by (simp add: dt)
    show "freeHead ?a b = freeHead a b" for b by (simp add: freeHead_def setHoles_def f)
  qed (simp add: setHoles_def)
  then show ?thesis using th hol by (auto simp: setHoles_def)
qed

text \<open>Extending the last segment of an arena by a block that fits.\<close>

lemma extend_last:
  assumes inv: "arena_inv a B F L" and ne: "a_segments a \<noteq> []" and n: "16 \<le> block"
    and fits: "length (s_data (last (a_segments a))) + block \<le> s_cap (last (a_segments a))"
    and big: "8192 < block \<longrightarrow> s_data (last (a_segments a)) = [] \<and> s_cap (last (a_segments a)) = block"
    and small: "block \<le> 8192 \<longrightarrow> s_cap (last (a_segments a)) \<le> 8192"
  defines "s \<equiv> length (a_segments a) - 1"
  defines "a1 \<equiv> a\<lparr>a_segments := (a_segments a)[s := (a_segments a ! s)\<lparr>s_data := s_data (a_segments a ! s) @ replicate block 0\<rparr>]\<rparr>"
  shows "taken a B F L block (s, length (dat a s)) a1 (B((s, length (dat a s)) \<mapsto> block)) F"
proof -
  have sh: "shape_ok a" and bo: "blocks_ok a B" using inv by (simp_all add: arena_inv_def)
  have s: "s < length (a_segments a)" "a_segments a ! s = last (a_segments a)" using ne by (simp_all add: s_def last_conv_nth)
  let ?off = "length (dat a s)"
  have dt: "dat a1 t = (if t = s then dat a s @ replicate block 0 else dat a t)" for t
    using s(1) by (simp add: dat_def a1_def nth_list_update)
  have cap: "s_cap (a_segments a1 ! t) = s_cap (a_segments a ! t)" for t
    using s(1) by (simp add: a1_def nth_list_update)
  have len: "length (a_segments a1) = length (a_segments a)" by (simp add: a1_def)
  have ds: "dat a s = s_data (last (a_segments a))" by (simp add: dat_def s(2))
  have lims: "?off + block \<le> s_cap (a_segments a ! s)" "8192 < block \<longrightarrow> ?off = 0 \<and> s_cap (a_segments a ! s) = block"
    "block \<le> 8192 \<longrightarrow> s_cap (a_segments a ! s) \<le> 8192" using fits big small s(2) ds by auto
  have nohole: "s \<notin> set (holesOf a)" using sh n lims(1) unfolding shape_ok_def by fastforce
  have none: "B (s, ?off) = None"
  proof (rule ccontr)
    assume "B (s, ?off) \<noteq> None"
    then obtain m where "B (s, ?off) = Some m" by blast
    then have "?off + m \<le> length (dat a s)" "16 \<le> m" using bo unfolding blocks_ok_def by blast+
    then show False by simp
  qed
  have "length (dat a1 t) \<le> s_cap (a_segments a1 ! t) \<and> (s_cap (a_segments a1 ! t) \<le> 8192 \<or> length (dat a1 t) = s_cap (a_segments a1 ! t))"
    if "t < length (a_segments a)" for t
    using sh that lims by (cases "t = s") (auto simp: shape_ok_def dt cap)
  moreover have hol: "holesOf a1 = holesOf a" "a_free a1 = a_free a" "a_generation a1 = a_generation a" by (simp_all add: a1_def holesOf_def)
  moreover have "t < length (a_segments a) \<and> dat a1 t = [] \<and> s_cap (a_segments a1 ! t) = 0" if "t \<in> set (holesOf a)" for t
  proof -
    have "t \<noteq> s" using that nohole by blast
    then show ?thesis using sh that by (simp add: shape_ok_def dt cap)
  qed
  ultimately have sh': "shape_ok a1" using sh unfolding shape_ok_def len hol by blast
  have bo': "blocks_ok a1 (B((s, ?off) \<mapsto> block))"
  proof -
    have old: "t < length (a_segments a1) \<and> p + m \<le> length (dat a1 t) \<and> 16 \<le> m \<and> p < 2 ^ 13
      \<and> (8192 < m \<longrightarrow> p = 0 \<and> s_cap (a_segments a1 ! t) = m \<and> length (dat a1 t) = m)" if "B (t, p) = Some m" for t p m
    proof -
      have o: "t < length (a_segments a) \<and> p + m \<le> length (dat a t) \<and> 16 \<le> m \<and> p < 2 ^ 13
        \<and> (8192 < m \<longrightarrow> p = 0 \<and> s_cap (a_segments a ! t) = m \<and> length (dat a t) = m)" using bo that unfolding blocks_ok_def by blast
      moreover have "\<not> 8192 < m" if "t = s" using o that lims(1) n by auto
      ultimately show ?thesis by (auto simp: dt cap len)
    qed
    have new: "s < length (a_segments a1) \<and> ?off + block \<le> length (dat a1 s) \<and> 16 \<le> block \<and> ?off < 2 ^ 13
      \<and> (8192 < block \<longrightarrow> ?off = 0 \<and> s_cap (a_segments a1 ! s) = block \<and> length (dat a1 s) = block)"
      using s n lims by (cases "8192 < block") (auto simp: dt cap len)
    have below: "p + m \<le> ?off" if "B (s, p) = Some m" for p m using bo that unfolding blocks_ok_def by blast
    show ?thesis
      using old new below bo unfolding blocks_ok_def by (auto simp: below split: if_splits dest!: below)
  qed
  show ?thesis
  proof (rule extended [OF inv _ _ none sh' bo'])
    show "\<exists>z. dat a1 t = dat a t @ z" for t by (simp add: dt)
    show "freeHead a1 b = freeHead a b" for b by (simp add: freeHead_def a1_def)
  qed (simp add: a1_def)
qed

lemma append_segment:
  fixes c :: nat
  assumes inv: "arena_inv a B F L" and n: "16 \<le> block" and len: "length (a_segments a) < 2 ^ 25"
    and sz: "block \<le> sz" "8192 < block \<longrightarrow> sz = block" "block \<le> 8192 \<longrightarrow> sz \<le> 8192"
  defines "s \<equiv> length (a_segments a)"
  defines "a1 \<equiv> a\<lparr>a_segments := a_segments a @ [\<lparr>s_data = replicate block 0, s_cap = sz\<rparr>], a_segcap := c\<rparr>"
  shows "taken a B F L block (s, 0) a1 (B((s, 0) \<mapsto> block)) F"
proof -
  have sh: "shape_ok a" and bo: "blocks_ok a B" using inv by (simp_all add: arena_inv_def)
  have dt: "dat a1 t = (if t = s then replicate block 0 else dat a t)" if "t \<le> s" for t
    using that by (simp add: dat_def a1_def nth_append s_def)
  have cap: "s_cap (a_segments a1 ! t) = (if t = s then sz else s_cap (a_segments a ! t))" if "t \<le> s" for t
    using that by (simp add: a1_def nth_append s_def)
  have l1: "length (a_segments a1) = Suc s" by (simp add: a1_def s_def)
  have hol: "holesOf a1 = holesOf a" "a_free a1 = a_free a" "a_generation a1 = a_generation a" by (simp_all add: a1_def holesOf_def)
  have inB: "t < s" if "B (t, p) = Some m" for t p m using bo that unfolding blocks_ok_def s_def by blast
  have none: "B (s, 0) = None" using inB [of s 0] by (cases "B (s, 0)") auto
  have "length (dat a1 t) \<le> s_cap (a_segments a1 ! t) \<and> (s_cap (a_segments a1 ! t) \<le> 8192 \<or> length (dat a1 t) = s_cap (a_segments a1 ! t))"
    if "t < Suc s" for t
  proof (cases "t = s")
    case False
    then show ?thesis using sh that by (simp add: shape_ok_def dt cap s_def)
  qed (use sz in \<open>auto simp: dt cap\<close>)
  moreover have "t < Suc s \<and> dat a1 t = [] \<and> s_cap (a_segments a1 ! t) = 0" if "t \<in> set (holesOf a)" for t
  proof -
    have "t < s" using sh that by (simp add: shape_ok_def s_def)
    then show ?thesis using sh that by (simp add: shape_ok_def dt cap)
  qed
  moreover have "Suc s \<le> 2 ^ 25" using len by (simp add: s_def)
  ultimately have sh': "shape_ok a1" using sh unfolding shape_ok_def l1 hol by blast
  have bo': "blocks_ok a1 (B((s, 0) \<mapsto> block))"
  proof -
    have old: "t < Suc s \<and> p + m \<le> length (dat a1 t) \<and> 16 \<le> m \<and> p < 2 ^ 13
      \<and> (8192 < m \<longrightarrow> p = 0 \<and> s_cap (a_segments a1 ! t) = m \<and> length (dat a1 t) = m)" if "B (t, p) = Some m" for t p m
      using bo that inB [OF that] dt [of t] cap [of t] unfolding blocks_ok_def by simp
    moreover have "s < Suc s \<and> 0 + block \<le> length (dat a1 s) \<and> 16 \<le> block \<and> (0 :: nat) < 2 ^ 13
      \<and> (8192 < block \<longrightarrow> (0 :: nat) = 0 \<and> s_cap (a_segments a1 ! s) = block \<and> length (dat a1 s) = block)"
      using n sz by (simp add: dt cap)
    moreover have no: "B (s, p) = None" for p using inB [of s p] by (cases "B (s, p)") auto
    moreover have "p + m \<le> p'" if "B (t, p) = Some m" "B (t, p') = Some m'" "p < p'" for t p p' m m'
      using bo that unfolding blocks_ok_def by blast
    ultimately show ?thesis
      unfolding blocks_ok_def l1 by (auto simp: no split: if_splits)
  qed
  show ?thesis
  proof (rule extended [OF inv _ _ none sh' bo'])
    show "\<exists>z. dat a1 t = dat a t @ z" if "t < length (a_segments a)" for t using that by (simp add: dt s_def)
    show "freeHead a1 b = freeHead a b" for b by (simp add: freeHead_def a1_def)
  qed (simp add: a1_def)
qed

lemma takeTail_ok:
  assumes inv: "arena_inv a B F L" and n: "16 \<le> block" and len: "length (a_segments a) < 2 ^ 25"
  shows "\<exists>s off a1. takeTail a block = Some (s, off, a1) \<and> taken a B F L block (s, off) a1 (B((s, off) \<mapsto> block)) F
    \<and> length (a_segments a1) \<le> Suc (length (a_segments a))"
proof (cases "a_segments a = [] \<or> s_cap (last (a_segments a)) - length (s_data (last (a_segments a))) < block")
  case True
  let ?sz = "segmentSizeForAllocation block (length (a_segments a))"
  note ge = segmentSizeForAllocation_ge [OF n, of "length (a_segments a)"]
  have "takeTail a block = Some (length (a_segments a), 0, a\<lparr>a_segments := a_segments a @ [\<lparr>s_data = replicate block 0, s_cap = ?sz\<rparr>],
    a_segcap := a_segcap (growSegments a ?sz)\<rparr>)"
    using True ge(1) by (simp add: takeTail_def Let_def growSegments_def)
  then show ?thesis
    using append_segment [OF inv n len, of ?sz "a_segcap (growSegments a ?sz)"] ge by fastforce
next
  case False
  let ?l = "last (a_segments a)" let ?s = "length (a_segments a) - 1"
  have ne: "a_segments a \<noteq> []" and room: "block \<le> s_cap ?l - length (s_data ?l)" using False by auto
  have l: "a_segments a ! ?s = ?l" "dat a ?s = s_data ?l" using ne by (simp_all add: last_conv_nth dat_def)
  have "?s < length (a_segments a)" using ne by simp
  then have "length (dat a ?s) \<le> s_cap (a_segments a ! ?s) \<and> (s_cap (a_segments a ! ?s) \<le> 8192 \<or> length (dat a ?s) = s_cap (a_segments a ! ?s))"
    using inv unfolding arena_inv_def shape_ok_def by blast
  then have "length (s_data ?l) + block \<le> s_cap ?l" "s_cap ?l \<le> 8192" using room n unfolding l by auto
  moreover from this have "takeTail a block = Some (?s, length (dat a ?s), a\<lparr>a_segments := (a_segments a)[?s := (a_segments a ! ?s)
      \<lparr>s_data := s_data (a_segments a ! ?s) @ replicate block 0\<rparr>]\<rparr>)"
    using False by (simp add: takeTail_def Let_def l [simplified])
  ultimately show ?thesis using extend_last [OF inv ne n] by fastforce
qed

lemma takeBlock_ok:
  assumes inv: "arena_inv a B F L" and cl: "class_ok sz b block" and len: "length (a_segments a) < 2 ^ 25"
  shows "\<exists>s off a1 B1 F1. takeBlock a b block = Some (s, off, a1) \<and> taken a B F L block (s, off) a1 B1 F1
    \<and> length (a_segments a1) \<le> Suc (length (a_segments a))"
proof -
  have n: "16 \<le> block" "b < freeBucketCount" using cl by (simp_all add: class_ok_def freeBucketCount_def)
  consider (free) "freeHead a b \<noteq> 0" | (hole) "freeHead a b = 0" "dedicatedBlock block" "holesOf a \<noteq> []"
    | (tail) "freeHead a b = 0" "\<not> (dedicatedBlock block \<and> holesOf a \<noteq> [])" by blast
  then show ?thesis
  proof cases
    case free
    have "b \<noteq> 58"
    proof
      assume b: "b = 58"
      have fo: "free_ok a B F" using inv by (simp add: arena_inv_def)
      then have "F b = []" using n(2) b unfolding free_ok_def by (cases "F b") (fastforce simp: dedicatedBucket_def)+
      then show False using fo n(2) free unfolding free_ok_def by force
    qed
    then have "block = blockOf b" using cl by (simp add: class_ok_def)
    then show ?thesis using takeFree_ok [OF inv n(2) free] free by (fastforce simp: takeBlock_def)
  next
    case hole
    then have "a_free a \<noteq> None" by (cases "a_free a") (simp_all add: holesOf_def)
    then show ?thesis using takeHole_ok [OF inv hole(2,3) n(1)] hole by (fastforce simp: takeBlock_def)
  next
    case tail
    then have "takeBlock a b block = takeTail a block" by (auto simp: takeBlock_def holesOf_def)
    then show ?thesis using takeTail_ok [OF inv n(1) len] by fastforce
  qed
qed

subsection \<open>The operations\<close>

lemma Alloc_inv:
  assumes inv: "arena_inv a B F L" and len: "length (a_segments a) < 2 ^ 25" and v: "v \<noteq> []" "length v + 8 \<le> maxArenaBlock"
  shows "\<exists>r a' B' F'. Alloc a v = Some (r, a') \<and> L r = None \<and> arena_inv a' B' F' (L(r \<mapsto> v))
    \<and> length (a_segments a') \<le> Suc (length (a_segments a))"
proof -
  obtain b block where sc: "sizeClass (length v) = Some (b, block)" "class_ok (length v + 8) b block" by (rule sizeClass_ok [OF v(2)])
  obtain s off a1 B1 F1 where tk: "takeBlock a b block = Some (s, off, a1)" "taken a B F L block (s, off) a1 B1 F1"
    "length (a_segments a1) \<le> Suc (length (a_segments a))" using takeBlock_ok [OF inv sc(2) len] by blast
  have inv1: "arena_inv a1 B1 F1 L" "B1 (s, off) = Some block" "\<forall>b < freeBucketCount. (s, off) \<notin> set (F1 b)" "(s, off) \<notin> ref_at ` dom L"
    using tk(2) by (simp_all add: taken_def)
  have gen: "unat (a_generation a1) < 2 ^ 18" using inv1(1) by (simp add: arena_inv_def shape_ok_def)
  obtain g a1' where ng: "nextGeneration a1 = (g, a1')" by fastforce
  have g: "nextGeneration a1 = (g, a1\<lparr>a_generation := g\<rparr>)" "g \<noteq> 0" "unat g < 2 ^ 18"
    using ng nextGeneration_range [OF ng gen] by simp_all
  obtain r a2 a3 where w: "writeBytes (a1\<lparr>a_generation := g\<rparr>) s off (put64 g) = Some a2" "writeBytes a2 s (off + 8) v = Some a3"
    "newRef (word_of_nat s) (word_of_nat off) (word_of_nat (length v)) g = Some r"
    "arena_inv a3 B1 F1 (L(r \<mapsto> v))" "L r = None" "same_layout a1 a3"
    by (rule fill_block [OF inv1(1,2) sc(1) v(1) inv1(3,4) g(2,3)]) (rule that, assumption+)
  have "Alloc a v = Some (r, a3)" using v(1) by (simp add: Alloc_def sc(1) tk(1) g(1) w(1-3))
  moreover have "length (a_segments a3) \<le> Suc (length (a_segments a))" using w(6) tk(3) by (simp add: same_layout_def)
  ultimately show ?thesis using w(4,5) by blast
qed

lemma View_inv:
  assumes inv: "arena_inv a B F L" and L: "L r = Some v"
  shows "View a r = Inr v" "ViewKnownLive a r = Inr v"
proof -
  have lr: "live_ref a B r v" and bo: "blocks_ok a B" using inv L unfolding arena_inv_def live_ok_def by blast+
  obtain b block where sc: "sizeClass (length v) = Some (b, block)" "B (ref_at r) = Some block" using lr unfolding live_ref_def by blast
  define s off where "s = unat (r_segment r)" and "off = unat (r_offset r)"
  have at: "ref_at r = (s, off)" by (simp add: ref_at_def s_def off_def)
  have cl: "length v + 8 \<le> block" using sizeClass_SomeD [OF sc(1)] by (simp add: class_ok_def)
  have pos: "s < length (a_segments a)" "off + block \<le> length (dat a s)" using bo sc(2) unfolding at blocks_ok_def by blast+
  have g: "unat (r_length r) = length v" "r_generation r \<noteq> 0" "\<not> IsInline r" using lr not_inline [of r] by (simp_all add: live_ref_def)
  have tk: "take 8 (drop off (dat a s)) = put64 (r_generation r)" "take (length v) (drop (off + 8) (dat a s)) = v"
    using lr by (simp_all add: live_ref_def at bytes_at_def)
  have "get64 (drop off (dat a s)) = r_generation r" using tk(1) get64_take [of "drop off (dat a s)"] by simp
  then show "View a r = Inr v" "ViewKnownLive a r = Inr v"
    using g pos cl tk(2) unfolding View_def ViewKnownLive_def Let_def
    by (simp_all add: s_def [symmetric] off_def [symmetric] dat_def [symmetric])
qed


text \<open>Freeing: the block of a live reference either becomes a hole, and is no block any more, or goes to the
  front of the free list of its class.\<close>

lemma live_ok_remove:
  assumes live: "live_ok a B F L" and ag: "\<And>p. p \<in> ref_at ` dom L \<Longrightarrow> p \<noteq> ref_at r \<Longrightarrow> agree a a' B p" and r: "r \<in> dom L"
    and B': "\<And>p. p \<noteq> ref_at r \<Longrightarrow> B' p = B p"
    and F': "\<And>b p. b < freeBucketCount \<Longrightarrow> p \<in> set (F' b) \<Longrightarrow> p \<in> set (F b) \<or> p = ref_at r"
  shows "live_ok a' B' F' (L(r := None))"
proof -
  have inj: "ref_at q \<noteq> ref_at r" if "L q = Some v" "q \<noteq> r" for q v
    using live r that unfolding live_ok_def inj_on_def by blast
  have "live_ref a' B' q v" if "L q = Some v" "q \<noteq> r" for q v
  proof -
    have "live_ref a B q v" using live that(1) unfolding live_ok_def by blast
    then have "live_ref a' B q v" by (rule live_ref_agree) (rule ag, use that inj in auto)
    then show ?thesis using B' [of "ref_at q"] inj [OF that] by (simp add: live_ref_def)
  qed
  moreover have "ref_at q \<notin> set (F' b)" if "L q = Some v" "q \<noteq> r" "b < freeBucketCount" for q v b
    using F' [OF that(3), of "ref_at q"] inj [OF that(1,2)] live that(1,3) unfolding live_ok_def by blast
  moreover have "inj_on ref_at (dom (L(r := None)))" using live unfolding live_ok_def by (auto simp: inj_on_def)
  ultimately show ?thesis unfolding live_ok_def by (auto split: if_splits)
qed

text \<open>The table of free lists is created on the first free.\<close>

definition ensureFree :: "Arena \<Rightarrow> Arena" where
  "ensureFree a = (if a_free a = None then a\<lparr>a_free := Some newFreeTable\<rparr> else a)"

lemma ensureFree_simps [simp]:
  "a_segments (ensureFree a) = a_segments a" "a_segcap (ensureFree a) = a_segcap a" "a_generation (ensureFree a) = a_generation a"
  "dat (ensureFree a) = dat a" "bytes_at (ensureFree a) = bytes_at a" "holesOf (ensureFree a) = holesOf a"
  using dat_cong [of "ensureFree a" a] by (simp_all add: ensureFree_def holesOf_def newFreeTable_def)

lemma ensureFree_inv:
  assumes inv: "arena_inv a B F L"
  shows "arena_inv (ensureFree a) B F L" "\<exists>f. a_free (ensureFree a) = Some f"
    "b < freeBucketCount \<Longrightarrow> freeHead (ensureFree a) b = freeHead a b"
proof -
  show heads: "b < freeBucketCount \<Longrightarrow> freeHead (ensureFree a) b = freeHead a b" for b
    by (simp add: ensureFree_def freeHead_def newFreeTable_def)
  show "\<exists>f. a_free (ensureFree a) = Some f" by (simp add: ensureFree_def)
  have ch: "chain (ensureFree a) x ys = chain a x ys" for x ys by (induction ys arbitrary: x) auto
  have "shape_ok (ensureFree a)" using inv unfolding arena_inv_def shape_ok_def
    by (cases "a_free a") (simp_all add: ensureFree_def newFreeTable_def holesOf_def dat_def)
  moreover have "blocks_ok (ensureFree a) B" using inv by (simp add: arena_inv_def blocks_ok_def)
  moreover have "free_ok (ensureFree a) B F" using inv heads by (simp add: arena_inv_def free_ok_def ch)
  moreover have "live_ok (ensureFree a) B F L" using inv by (simp add: arena_inv_def live_ok_def live_ref_def)
  ultimately show "arena_inv (ensureFree a) B F L" by (simp add: arena_inv_def)
qed


lemma setHoles_simps [simp]:
  "a_segments (setHoles a hs) = a_segments a" "a_generation (setHoles a hs) = a_generation a" "a_segcap (setHoles a hs) = a_segcap a"
  "freeHead (setHoles a hs) b = freeHead a b"
  by (simp_all add: setHoles_def freeHead_def option.case_eq_if option.map_sel)

lemma free_hole:
  assumes inv: "arena_inv a B F L" and f: "a_free a = Some f" and L: "r \<in> dom L" and at: "ref_at r = (s, 0)"
    and blk: "B (s, 0) = Some block" "s_cap (a_segments a ! s) = block" "length (dat a s) = block"
  defines "a' \<equiv> (setHoles a (holesOf a @ [s]))\<lparr>a_segments := (a_segments a)[s := \<lparr>s_data = [], s_cap = 0\<rparr>]\<rparr>"
  shows "arena_inv a' (B((s, 0) := None)) F (L(r := None))"
proof -
  have sh: "shape_ok a" and bo: "blocks_ok a B" and fo: "free_ok a B F" and lo: "live_ok a B F L" using inv by (simp_all add: arena_inv_def)
  have pos: "s < length (a_segments a)" "16 \<le> block" using bo blk(1) unfolding blocks_ok_def by blast+
  have dt: "dat a' t = (if t = s then [] else dat a t)" for t using pos(1) by (simp add: dat_def a'_def nth_list_update)
  have cap: "s_cap (a_segments a' ! t) = (if t = s then 0 else s_cap (a_segments a ! t))" for t
    using pos(1) by (simp add: a'_def nth_list_update)
  have hol: "holesOf a' = holesOf a @ [s]" "length (a_segments a') = length (a_segments a)" "a_generation a' = a_generation a"
    by (simp_all add: a'_def holesOf_def setHoles_def f)
  have nohole: "s \<notin> set (holesOf a)" using sh blk(2) pos(2) unfolding shape_ok_def by fastforce
  have only: "p = 0" if "B (s, p) = Some m" for p m
  proof (rule ccontr)
    assume "p \<noteq> 0"
    then have "0 + block \<le> p" "p + m \<le> length (dat a s)" "16 \<le> m" using bo that blk(1) unfolding blocks_ok_def by blast+
    then show False using blk(3) by simp
  qed
  have ag: "agree a a' B p" if "p \<noteq> (s, 0)" for p
  proof (cases "B p")
    case (Some m)
    then have "fst p \<noteq> s" using only [of "snd p" m] that by (cases p) auto
    then show ?thesis by (simp add: agree_def bytes_at_def dt)
  qed (simp add: agree_def)
  have notfree: "(s, 0) \<notin> set (F b)" if "b < freeBucketCount" for b using lo L that at unfolding live_ok_def by force
  have shf: "case a_free a' of None \<Rightarrow> True | Some f \<Rightarrow> length (f_heads f) = freeBucketCount"
    using sh f by (simp add: shape_ok_def a'_def setHoles_def)
  have "shape_ok a'"
    using sh shf nohole pos(1) unfolding shape_ok_def hol by (auto simp: dt cap)
  moreover have "blocks_ok a' (B((s, 0) := None))"
  proof -
    have o: "t < length (a_segments a) \<and> p + m \<le> length (dat a' t) \<and> 16 \<le> m \<and> p < 2 ^ 13
      \<and> (8192 < m \<longrightarrow> p = 0 \<and> s_cap (a_segments a' ! t) = m \<and> length (dat a' t) = m)"
      if h: "(B((s, 0) := None)) (t, p) = Some m" for t p m
    proof -
      have B: "B (t, p) = Some m" "(t, p) \<noteq> (s, 0)" using h by (auto split: if_splits)
      then have "t \<noteq> s" using only [of p m] by blast
      moreover have "t < length (a_segments a) \<and> p + m \<le> length (dat a t) \<and> 16 \<le> m \<and> p < 2 ^ 13
        \<and> (8192 < m \<longrightarrow> p = 0 \<and> s_cap (a_segments a ! t) = m \<and> length (dat a t) = m)" using bo B(1) unfolding blocks_ok_def by blast
      ultimately show ?thesis by (simp add: dt cap)
    qed
    have le: "B p = Some m" if "(B((s, 0) := None)) p = Some m" for p m using that by (auto split: if_splits)
    show ?thesis using o le bo unfolding blocks_ok_def hol by blast
  qed
  moreover have "free_ok a' (B((s, 0) := None)) F"
  proof -
    have "chain a' (freeHead a' b) (F b)" if "b < freeBucketCount" for b
    proof -
      have "freeHead a' b = freeHead a b" by (simp add: a'_def freeHead_def setHoles_def f)
      moreover have "agree a a' B p \<and> (\<exists>m. B p = Some m \<and> 16 \<le> m)" if "p \<in> set (F b)" for p
      proof -
        have "B p = Some (blockOf b)" using fo \<open>b < freeBucketCount\<close> that unfolding free_ok_def by fastforce
        moreover have "16 \<le> blockOf b" using calculation bo unfolding blocks_ok_def by (cases p) blast
        moreover have "p \<noteq> (s, 0)" using notfree \<open>b < freeBucketCount\<close> that by blast
        ultimately show ?thesis using ag [of p] by blast
      qed
      moreover have "chain a (freeHead a b) (F b)" using fo that unfolding free_ok_def by blast
      ultimately show ?thesis using chain_agree [of a "freeHead a b" "F b" a' B] by simp
    qed
    moreover have "B (t, q) = Some (blockOf b) \<and> b \<noteq> dedicatedBucket \<and> bytes_at a' t q 8 = put64 0 \<and> (t, q) \<noteq> (s, 0)"
      if "b < freeBucketCount" "(t, q) \<in> set (F b)" for b t q
    proof -
      have o: "B (t, q) = Some (blockOf b) \<and> b \<noteq> dedicatedBucket \<and> bytes_at a t q 8 = put64 0"
        using fo that unfolding free_ok_def by fastforce
      have "(t, q) \<noteq> (s, 0)" using notfree that by blast
      moreover have "t \<noteq> s" using only [of q] calculation o by blast
      ultimately show ?thesis using o by (simp add: bytes_at_def dt)
    qed
    moreover have "(B((s, 0) := None)) p = B p" if "p \<noteq> (s, 0)" for p using that by simp
    moreover have "distinct (concat (map F [0 ..< freeBucketCount]))" using fo unfolding free_ok_def by blast
    ultimately show ?thesis unfolding free_ok_def by auto
  qed
  moreover have "live_ok a' (B((s, 0) := None)) F (L(r := None))"
    by (rule live_ok_remove [OF lo _ L]) (use ag at in auto)
  ultimately show ?thesis by (simp add: arena_inv_def)
qed


lemma push_free:
  assumes inv: "arena_inv a B F L" and f: "a_free a = Some f" and L: "r \<in> dom L" and at: "ref_at r = (s, off)"
    and b: "b < freeBucketCount" "b \<noteq> dedicatedBucket" and blk: "B (s, off) = Some (blockOf b)"
  shows "\<exists>a2 a3. writeBytes a s off (put64 0) = Some a2 \<and> writeBytes a2 s (off + 8) (put64 (freeHead a b)) = Some a3
    \<and> arena_inv (setHead a3 b (addressOf s off)) B (F(b := (s, off) # F b)) (L(r := None)) \<and> same_layout a a3
    \<and> bytes_at a3 s off 8 = put64 0"
proof -
  have sh: "shape_ok a" and bo: "blocks_ok a B" and fo: "free_ok a B F" and lo: "live_ok a B F L" using inv by (simp_all add: arena_inv_def)
  have pos: "s < length (a_segments a)" "off + blockOf b \<le> length (dat a s)" "16 \<le> blockOf b" using bo blk(1) unfolding blocks_ok_def by blast+
  let ?h = "put64 (freeHead a b)"
  have l8: "length (put64 0) = 8" "length ?h = 8" by simp_all
  have pos0: "off + length (put64 0) \<le> length (dat a s)" using pos l8 by simp
  obtain a2 where w1: "writeBytes a s off (put64 0) = Some a2" "same_layout a a2" "a_free a2 = a_free a" "a_generation a2 = a_generation a"
    "bytes_at a2 s off (length (put64 0)) = put64 0"
    "\<And>t p n. t \<noteq> s \<or> p + n \<le> off \<or> off + length (put64 0) \<le> p \<Longrightarrow> bytes_at a2 t p n = bytes_at a t p n"
    by (rule writeBytes_spec [OF pos(1) pos0]) (rule that, assumption+)
  have pos1: "s < length (a_segments a2)" "(off + 8) + length ?h \<le> length (dat a2 s)"
    using w1(2) pos by (simp_all add: same_layout_def)
  obtain a3 where w2: "writeBytes a2 s (off + 8) ?h = Some a3" "same_layout a2 a3" "a_free a3 = a_free a2" "a_generation a3 = a_generation a2"
    "bytes_at a3 s (off + 8) (length ?h) = ?h"
    "\<And>t p n. t \<noteq> s \<or> p + n \<le> off + 8 \<or> off + 8 + length ?h \<le> p \<Longrightarrow> bytes_at a3 t p n = bytes_at a2 t p n"
    by (rule writeBytes_spec [OF pos1]) (rule that, assumption+)
  note lay = same_layout_trans [OF w1(2) w2(2)]
  have z: "bytes_at a3 s off 8 = put64 0" using w2(6) [of s off 8] w1(5) by simp
  have ag: "agree a a3 B p" if "p \<noteq> (s, off)" for p
    unfolding agree_def
  proof (intro allI impI)
    fix m i k assume m: "B p = Some m" "i + k \<le> m"
    obtain t q where p: "p = (t, q)" by fastforce
    have "t \<noteq> s \<or> q + m \<le> off \<or> off + blockOf b \<le> q" using blocks_disjoint [OF bo blk(1), of t q m] m that p by blast
    then show "bytes_at a3 (fst p) (snd p + i) k = bytes_at a (fst p) (snd p + i) k"
      using w1(6) [of t "q + i" k] w2(6) [of t "q + i" k] m(2) pos(3) p by auto
  qed
  let ?a = "setHead a3 b (addressOf s off)" let ?F = "F(b := (s, off) # F b)"
  have notfree: "(s, off) \<notin> set (F c)" if "c < freeBucketCount" for c using lo L that at unfolding live_ok_def by force
  have af: "a_free a3 = Some f" "length (f_heads f) = freeBucketCount" using w1(3) w2(3) f sh by (simp_all add: shape_ok_def)
  have heads: "freeHead ?a c = (if c = b then addressOf s off else freeHead a c)" if "c < freeBucketCount" for c
    using af f b(1) that by (auto simp: freeHead_def setHead_def)
  have g3: "a_generation a3 = a_generation a" using w1(4) w2(4) by simp
  have "shape_ok a3 \<and> blocks_ok a3 B"
    using same_layout_ok [OF lay] sh bo w1(3) w2(3) g3 by (simp add: shape_ok_def)
  then have "shape_ok ?a" "blocks_ok ?a B"
    using af by (simp_all add: shape_ok_def blocks_ok_def) (simp_all add: setHead_def)
  moreover have "free_ok ?a B ?F"
  proof -
    have old: "chain ?a (freeHead a c) (F c)" if "c < freeBucketCount" for c
    proof -
      have "agree a a3 B p \<and> (\<exists>m. B p = Some m \<and> 16 \<le> m)" if "p \<in> set (F c)" for p
      proof -
        have "B p = Some (blockOf c)" using fo \<open>c < freeBucketCount\<close> that unfolding free_ok_def by fastforce
        moreover have "16 \<le> blockOf c" using calculation bo unfolding blocks_ok_def by (cases p) blast
        moreover have "p \<noteq> (s, off)" using notfree \<open>c < freeBucketCount\<close> that by blast
        ultimately show ?thesis using ag [of p] by blast
      qed
      moreover have "chain a (freeHead a c) (F c)" using fo that unfolding free_ok_def by blast
      ultimately have "chain a3 (freeHead a c) (F c)" using chain_agree [of a "freeHead a c" "F c" a3 B] by blast
      moreover have "chain ?a x ys = chain a3 x ys" for x ys by (induction ys arbitrary: x) auto
      ultimately show ?thesis by simp
    qed
    have ch: "chain ?a (freeHead ?a c) (?F c)" if "c < freeBucketCount" for c
      using old [OF that] w2(5) heads [OF that] by auto
    moreover have "B (t, q) = Some (blockOf c) \<and> c \<noteq> dedicatedBucket \<and> bytes_at ?a t q 8 = put64 0"
      if c: "c < freeBucketCount" and m: "(t, q) \<in> set (?F c)" for c t q
    proof (cases "(t, q) = (s, off)")
      case True
      then have "c = b" using m notfree [OF c] by (auto split: if_splits)
      then show ?thesis using True blk b z by simp
    next
      case False
      then have "(t, q) \<in> set (F c)" using m by (auto split: if_splits)
      then have o: "B (t, q) = Some (blockOf c)" "c \<noteq> dedicatedBucket" "bytes_at a t q 8 = put64 0"
        using fo c unfolding free_ok_def by fastforce+
      have "16 \<le> blockOf c" using o(1) bo unfolding blocks_ok_def by blast
      then have "bytes_at a3 t q 8 = bytes_at a t q 8" using agreeD [OF ag [OF False] o(1), of 0 8] by simp
      then show ?thesis using o by simp
    qed
    moreover have "distinct (concat (map ?F [0 ..< freeBucketCount]))"
    proof -
      have split: "concat (map G [0 ..< freeBucketCount]) = concat (map G [0 ..< b]) @ G b @ concat (map G [Suc b ..< freeBucketCount])"
        for G :: "nat \<Rightarrow> (nat \<times> nat) list"
        using b(1) upt_add_eq_append [of 0 b "freeBucketCount - b"] by (simp add: upt_conv_Cons)
      have same: "map ?F [0 ..< b] = map F [0 ..< b]" "map ?F [Suc b ..< freeBucketCount] = map F [Suc b ..< freeBucketCount]" by auto
      have "(s, off) \<notin> set (concat (map F [0 ..< freeBucketCount]))" using notfree by auto
      then show ?thesis using fo unfolding free_ok_def split same by auto
    qed
    ultimately show ?thesis unfolding free_ok_def by blast
  qed
  moreover have "live_ok a3 B ?F (L(r := None))"
    by (rule live_ok_remove [OF lo _ L]) (use ag at in \<open>auto split: if_splits\<close>)
  then have "live_ok ?a B ?F (L(r := None))" by (simp add: live_ok_def live_ref_def)
  ultimately show ?thesis using w1(1) w2(1) lay z by (auto simp: arena_inv_def)
qed

lemma sum_list_cap_update:
  "s < length xs \<Longrightarrow> sum_list (map s_cap (xs[s := x])) + s_cap (xs ! s) = sum_list (map s_cap xs) + s_cap x"
  by (induction xs arbitrary: s) (auto split: nat.split)

lemma Free_inv:
  assumes inv: "arena_inv a B F L" and L: "L r = Some v"
  shows "\<exists>n a' B' F'. Free a r = Some (n, a') \<and> arena_inv a' B' F' (L(r := None)) \<and> View a' r = Inl StaleReference
    \<and> length (a_segments a') = length (a_segments a) \<and> MemoryBytes a' + n = MemoryBytes a \<and> a_free a' \<noteq> None"
proof -
  have lr: "live_ref a B r v" and bo: "blocks_ok a B" using inv L unfolding arena_inv_def live_ok_def by blast+
  obtain b block where sc: "sizeClass (length v) = Some (b, block)" "B (ref_at r) = Some block" using lr unfolding live_ref_def by blast
  define s off where "s = unat (r_segment r)" and "off = unat (r_offset r)"
  have at: "ref_at r = (s, off)" by (simp add: ref_at_def s_def off_def)
  have blk: "B (s, off) = Some block" using sc(2) at by simp
  have cl: "class_ok (length v + 8) b block" using sizeClass_SomeD [OF sc(1)] by simp
  have pos: "s < length (a_segments a)" "off + block \<le> length (dat a s)"
    "8192 < block \<longrightarrow> off = 0 \<and> s_cap (a_segments a ! s) = block \<and> length (dat a s) = block"
    using bo blk unfolding blocks_ok_def by blast+
  have g: "unat (r_length r) = length v" "r_generation r \<noteq> 0" "\<not> IsInline r" using lr not_inline [of r] by (simp_all add: live_ref_def)
  have vw: "View a r = Inr v" by (rule View_inv [OF inv L])
  let ?a = "ensureFree a"
  note inv' = ensureFree_inv(1) [OF inv]
  obtain f where f: "a_free ?a = Some f" using ensureFree_inv(2) [OF inv] by blast
  have rL: "r \<in> dom L" using L by blast
  have fa: "(if a_free a = None then a\<lparr>a_free := Some newFreeTable\<rparr> else a) = ?a" by (simp add: ensureFree_def)
  let ?hole = "dedicatedBlock block \<and> off = 0 \<and> s_cap (a_segments a ! s) = block \<and> length (dat a s) = block"
  note Free_eq = Free_def [of a r, unfolded Let_def g(1) vw sc(1) fa s_def [symmetric] off_def [symmetric] dat_def [symmetric], simplified g(2,3) if_False sum.case option.case prod.case]
  show ?thesis
  proof (cases ?hole)
    case True
    let ?r = "(setHoles ?a (holesOf ?a @ [s]))\<lparr>a_segments := (a_segments ?a)[s := \<lparr>s_data = [], s_cap = 0\<rparr>]\<rparr>"
    have "arena_inv ?r (B((s, 0) := None)) F (L(r := None))"
      by (rule free_hole [OF inv' f rL]) (use at blk True in simp_all)
    moreover have "Free a r = Some (block, ?r)" using True by (simp add: Free_eq)
    moreover have "View ?r r = Inl StaleReference" using g pos(1) by (simp add: View_def Let_def s_def [symmetric])
    moreover have "MemoryBytes ?r + block = MemoryBytes a"
      using sum_list_cap_update [OF pos(1), of "\<lparr>s_data = [], s_cap = 0\<rparr>"] True by (simp add: MemoryBytes_def)
    moreover have "a_free ?r \<noteq> None" using f by (simp add: setHoles_def)
    ultimately show ?thesis by fastforce
  next
    case False
    have b: "b < freeBucketCount" using cl by (simp add: class_ok_def freeBucketCount_def)
    have b58: "b \<noteq> dedicatedBucket"
    proof
      assume "b = dedicatedBucket"
      then have "8192 < block" using cl by (simp add: class_ok_def dedicatedBucket_def)
      then show False using pos(3) False by (simp add: dedicatedBlock_def SegmentBytes_def)
    qed
    then have "block = blockOf b" using cl by (simp add: class_ok_def dedicatedBucket_def)
    then obtain a2 a3 where w: "writeBytes ?a s off (put64 0) = Some a2" "writeBytes a2 s (off + 8) (put64 (freeHead ?a b)) = Some a3"
      "arena_inv (setHead a3 b (addressOf s off)) B (F(b := (s, off) # F b)) (L(r := None))" "same_layout ?a a3" "bytes_at a3 s off 8 = put64 0"
      using push_free [OF inv' f rL at b b58] blk by blast
    have "Free a r = Some (0, setHead a3 b (addressOf s off))" using False w(1,2) by (auto simp: Free_eq)
    moreover have "View (setHead a3 b (addressOf s off)) r = Inl StaleReference"
    proof -
      have "get64 (drop off (dat a3 s)) = 0" using w(5) get64_take [of "drop off (dat a3 s)"] get64_put64_self [of 0] by (simp add: bytes_at_def)
      moreover have "s < length (a_segments a3)" using w(4) pos(1) by (simp add: same_layout_def)
      ultimately show ?thesis using g(2,3) by (simp add: View_def Let_def s_def [symmetric] off_def [symmetric] dat_def [symmetric])
    qed
    moreover have "map s_cap (a_segments a3) = map s_cap (a_segments a)" "a_segcap a3 = a_segcap a" "length (a_segments a3) = length (a_segments a)"
      using w(4) by (simp_all add: same_layout_def list_eq_iff_nth_eq)
    moreover have "a_free (setHead a3 b (addressOf s off)) \<noteq> None"
      using w(1,2) f by (auto simp: setHead_def writeBytes_def Let_def split: if_splits)
    ultimately show ?thesis using w(3) by (auto simp: MemoryBytes_def)
  qed
qed

lemma emptyArena_inv: "arena_inv emptyArena Map.empty (\<lambda>_. []) Map.empty"
proof -
  have "concat (map (\<lambda>_. [] :: (nat \<times> nat) list) xs) = []" for xs :: "nat list" by (induction xs) auto
  then show ?thesis
    by (simp add: arena_inv_def shape_ok_def blocks_ok_def free_ok_def live_ok_def emptyArena_def holesOf_def freeHead_def del: concat_eq_Nil_conv)
qed


subsection \<open>Growth planning\<close>

text \<open>The simulated state of \<open>GrowthFor\<close> against the arena that really performs the allocations.\<close>

definition room :: "Arena \<Rightarrow> nat" where
  "room a = (if a_segments a = [] then 0 else s_cap (last (a_segments a)) - length (s_data (last (a_segments a))))"

definition frees_from :: "Arena \<Rightarrow> blocks \<Rightarrow> Arena \<Rightarrow> (nat \<Rightarrow> (nat \<times> nat) list) \<Rightarrow> bool" where
  "frees_from a B c Fc \<longleftrightarrow> (\<forall>b < freeBucketCount. \<forall>p \<in> set (Fc b). p \<in> dom B \<and> agree a c B p)"

definition counters_ok :: "Arena \<Rightarrow> growthSim \<Rightarrow> Arena \<Rightarrow> bool" where
  "counters_ok a g c \<longleftrightarrow> length (g_heads g) = freeBucketCount \<and> (\<forall>b < freeBucketCount. g_heads g ! b = freeHead c b)
     \<and> g_holes g = length (holesOf c) \<and> g_count g = length (a_segments c) \<and> g_capacity g = a_segcap c
     \<and> g_size g - g_used g = room c \<and> MemoryBytes c = MemoryBytes a + g_growth g"

lemma growthStart_ok:
  assumes "arena_inv a B F L"
  shows "counters_ok a (growthStart a) a" "frees_from a B a F"
proof -
  have "case a_free a of None \<Rightarrow> True | Some f \<Rightarrow> length (f_heads f) = freeBucketCount"
    using assms unfolding arena_inv_def shape_ok_def by blast
  then show "counters_ok a (growthStart a) a"
    by (cases "a_free a") (auto simp: counters_ok_def growthStart_def freeHead_def room_def)
  have "free_ok a B F" using assms by (simp add: arena_inv_def)
  then show "frees_from a B a F" using frees_in_dom unfolding frees_from_def by (fastforce simp: agree_def)
qed

lemma same_layout_counters:
  assumes "same_layout c d" "a_free d = a_free c"
  shows "counters_ok a g d \<longleftrightarrow> counters_ok a g c"
proof -
  have l: "length (a_segments d) = length (a_segments c)" "a_segcap d = a_segcap c" using assms(1) by (simp_all add: same_layout_def)
  have "map s_cap (a_segments d) = map s_cap (a_segments c)" using assms(1) by (simp add: same_layout_def list_eq_iff_nth_eq)
  moreover have "room d = room c"
  proof (cases "a_segments c = []")
    case False
    then have "a_segments d \<noteq> []" using l(1) by auto
    then show ?thesis using False assms(1) l(1) by (simp add: room_def same_layout_def last_conv_nth dat_def)
  qed (use l in \<open>simp add: room_def\<close>)
  ultimately show ?thesis using assms(2) l by (simp add: counters_ok_def freeHead_def holesOf_def MemoryBytes_def)
qed

lemma head_in_list:
  assumes inv: "arena_inv a B F L" and b: "b < freeBucketCount" "freeHead a b \<noteq> 0"
  defines "p \<equiv> (addressSegment (freeHead a b), addressOffset (freeHead a b))"
  shows "p \<in> set (F b) \<and> B p = Some (blockOf b) \<and> 16 \<le> blockOf b \<and> readU64 a (fst p) (snd p + 8) = Some (get64 (bytes_at a (fst p) (snd p + 8) 8))"
proof -
  have sh: "shape_ok a" and bo: "blocks_ok a B" and fo: "free_ok a B F" using inv by (simp_all add: arena_inv_def)
  have ch: "chain a (freeHead a b) (F b)" using fo b(1) by (simp add: free_ok_def)
  then obtain s off xs where F: "F b = (s, off) # xs" using b(2) by (cases "F b") auto
  have ad: "freeHead a b = addressOf s off" using ch F by simp
  have Bp: "B (s, off) = Some (blockOf b)" using fo b(1) F unfolding free_ok_def by fastforce
  have pos: "s < length (a_segments a)" "off + blockOf b \<le> length (dat a s)" "off < 2 ^ 13" "16 \<le> blockOf b"
    using bo Bp(1) unfolding blocks_ok_def by blast+
  have "s < 2 ^ 25" using sh pos(1) by (simp add: shape_ok_def)
  then have p: "p = (s, off)" using address_decode [of s off] pos(3) by (simp add: p_def ad)
  moreover have "readU64 a s (off + 8) = Some (get64 (bytes_at a s (off + 8) 8))" by (rule readU64_bytes) (use pos in simp_all)
  ultimately show ?thesis using F Bp pos(4) by simp
qed

lemma growthStep_free:
  assumes inv: "arena_inv a B F L" and invc: "arena_inv c Bc Fc Lc" and ff: "frees_from a B c Fc" and co: "counters_ok a g c"
    and le: "B \<subseteq>\<^sub>m Bc" and sc: "sizeClass n = Some (b, block)" "n \<noteq> 0" and b: "b < freeBucketCount" "freeHead c b \<noteq> 0"
  shows "\<exists>s off c1 g'. takeFree c b = Some (s, off, c1) \<and> growthStep a g n = Some g' \<and> counters_ok a g' c1"
proof -
  let ?s = "addressSegment (freeHead c b)" and ?off = "addressOffset (freeHead c b)"
  let ?next = "get64 (bytes_at c ?s (?off + 8) 8)"
  have h: "(?s, ?off) \<in> set (Fc b)" "Bc (?s, ?off) = Some (blockOf b)" "16 \<le> blockOf b" "readU64 c ?s (?off + 8) = Some ?next"
    using head_in_list [OF invc b] by simp_all
  have d: "(?s, ?off) \<in> dom B" "agree a c B (?s, ?off)" using ff b(1) h(1) unfolding frees_from_def by blast+
  have B: "B (?s, ?off) = Some (blockOf b)" using d(1) le h(2) by (auto simp: map_le_def)
  have "blocks_ok a B" using inv by (simp add: arena_inv_def)
  then have pos: "?s < length (a_segments a)" "?off + blockOf b \<le> length (dat a ?s)" using B unfolding blocks_ok_def by blast+
  have "bytes_at c ?s (?off + 8) 8 = bytes_at a ?s (?off + 8) 8" by (rule agreeD [OF d(2) B]) (use h(3) in simp)
  then have rd: "readU64 a ?s (?off + 8) = Some ?next" using readU64_bytes [of ?s a "?off + 8"] pos h(3) by simp
  have tf: "takeFree c b = Some (?s, ?off, setHead c b ?next)" using h(4) by (simp add: takeFree_def Let_def)
  have gh: "g_heads g ! b = freeHead c b" using co b(1) by (simp add: counters_ok_def)
  have gs: "growthStep a g n = Some (g\<lparr>g_heads := (g_heads g)[b := ?next]\<rparr>)"
    using sc b(2) rd by (simp add: growthStep_def gh Let_def)
  have "shape_ok c" using invc by (simp add: arena_inv_def)
  then obtain f where f: "a_free c = Some f" "length (f_heads f) = freeBucketCount"
    using b(2) by (cases "a_free c") (auto simp: freeHead_def shape_ok_def)
  have "freeHead (setHead c b ?next) e = (if e = b then ?next else freeHead c e)" if "e < freeBucketCount" for e
    using f b(1) that by (auto simp: freeHead_def setHead_def)
  then have "counters_ok a (g\<lparr>g_heads := (g_heads g)[b := ?next]\<rparr>) (setHead c b ?next)"
    using co b(1) by (simp add: counters_ok_def nth_list_update room_def MemoryBytes_def)
  then show ?thesis using tf gs by blast
qed

lemma growthStep_hole:
  assumes invc: "arena_inv c Bc Fc Lc" and co: "counters_ok a g c" and sc: "sizeClass n = Some (b, block)" "n \<noteq> 0"
    and b: "b < freeBucketCount" "freeHead c b = 0" and hole: "dedicatedBlock block" "holesOf c \<noteq> []" and n: "16 \<le> block"
  shows "\<exists>s off c1 g'. takeHole c block = Some (s, off, c1) \<and> growthStep a g n = Some g' \<and> counters_ok a g' c1"
proof -
  obtain s c1 where t: "takeHole c block = Some (s, 0, c1)" "a_segments c1 = (a_segments c)[s := \<lparr>s_data = replicate block 0, s_cap = block\<rparr>]"
    "s = last (holesOf c)" "holesOf c1 = butlast (holesOf c)" "a_segcap c1 = a_segcap c"
    using takeHole_ok [OF invc hole n] by blast
  have hd: "freeHead c1 e = freeHead c e" for e
    using t(1) by (auto simp: takeHole_def Let_def freeHead_def setHoles_def option.case_eq_if option.map_sel split: if_splits)
  have "shape_ok c" "s \<in> set (holesOf c)" using invc hole(2) t(3) by (simp_all add: arena_inv_def)
  then have s: "s < length (a_segments c)" "dat c s = []" "s_cap (a_segments c ! s) = 0" unfolding shape_ok_def by blast+
  have rm: "room c1 = room c"
  proof -
    have ne: "a_segments c \<noteq> []" "a_segments c1 \<noteq> []" using s(1) t(2) by auto
    show ?thesis
    proof (cases "s = length (a_segments c) - 1")
      case True
      then have "last (a_segments c) = a_segments c ! s" "last (a_segments c1) = a_segments c1 ! s" using ne t(2) by (simp_all add: last_conv_nth)
      then show ?thesis using ne s t(2) by (simp add: room_def dat_def)
    qed (use ne s t(2) in \<open>simp add: room_def last_conv_nth\<close>)
  qed
  let ?g = "g\<lparr>g_holes := g_holes g - 1, g_growth := g_growth g + segmentSizeForBlock block\<rparr>"
  have "growthStep a g n = Some ?g" using sc b hole co by (simp add: growthStep_def counters_ok_def)
  moreover have "MemoryBytes c1 = MemoryBytes c + block"
    using sum_list_cap_update [OF s(1), of "\<lparr>s_data = replicate block 0, s_cap = block\<rparr>"] s(3) t(2,5) by (simp add: MemoryBytes_def)
  then have "counters_ok a ?g c1"
    using co rm hd t(2,4,5) hole(2) segmentSizeForBlock_dedicated [OF hole(1)] by (simp add: counters_ok_def)
  ultimately show ?thesis using t(1) by blast
qed


lemma growthStep_tail:
  assumes invc: "arena_inv c Bc Fc Lc" and co: "counters_ok a g c" and sc: "sizeClass n = Some (b, block)" "n \<noteq> 0"
    and b: "b < freeBucketCount" "freeHead c b = 0" and hole: "\<not> (dedicatedBlock block \<and> holesOf c \<noteq> [])" and n: "16 \<le> block"
  shows "\<exists>s off c1 g'. takeTail c block = Some (s, off, c1) \<and> growthStep a g n = Some g' \<and> counters_ok a g' c1"
proof (cases "room c < block")
  case True
  let ?k = "length (a_segments c)" let ?sz = "segmentSizeForAllocation block ?k" let ?cap = "a_segcap (growSegments c ?sz)"
  let ?c = "c\<lparr>a_segments := a_segments c @ [\<lparr>s_data = replicate block 0, s_cap = ?sz\<rparr>], a_segcap := ?cap\<rparr>"
  note ge = segmentSizeForAllocation_ge(1) [OF n, of ?k]
  have "a_segments c = [] \<or> s_cap (last (a_segments c)) - length (s_data (last (a_segments c))) < block"
    using True by (auto simp: room_def split: if_splits)
  then have tt: "takeTail c block = Some (?k, 0, ?c)" using ge by (simp add: takeTail_def Let_def growSegments_def)
  let ?nx = "if a_segcap c * 2 = 0 then 1 else a_segcap c * 2" and ?gr = "?k = a_segcap c"
  let ?g = "g\<lparr>g_size := ?sz, g_used := block, g_growth := g_growth g + ?sz + (if ?gr then (?nx - a_segcap c) * segmentMetadata else 0),
    g_capacity := (if ?gr then ?nx else a_segcap c), g_count := ?k + 1\<rparr>"
  have gs: "growthStep a g n = Some ?g" using sc b hole co True by (auto simp: growthStep_def counters_ok_def Let_def)
  have cap: "?cap = (if ?gr then ?nx else a_segcap c)" by (simp add: growSegments_def Let_def mult.commute)
  have "MemoryBytes ?c = MemoryBytes c + ?sz + (?cap - a_segcap c) * segmentMetadata"
  proof -
    have "a_segcap c \<le> ?cap" by (simp add: cap)
    then have "?cap * segmentMetadata = a_segcap c * segmentMetadata + (?cap - a_segcap c) * segmentMetadata"
      by (simp add: add_mult_distrib [symmetric])
    then show ?thesis by (simp add: MemoryBytes_def)
  qed
  then have "counters_ok a ?g ?c"
    using co unfolding counters_ok_def cap by (simp add: room_def freeHead_def holesOf_def)
  then show ?thesis using tt gs by blast
next
  case False
  let ?s = "length (a_segments c) - 1" let ?l = "a_segments c ! ?s"
  have ne: "a_segments c \<noteq> []" using False n by (auto simp: room_def)
  have l: "last (a_segments c) = ?l" using ne by (simp add: last_conv_nth)
  have rm: "block \<le> s_cap ?l - length (s_data ?l)" "room c = s_cap ?l - length (s_data ?l)" using False ne by (simp_all add: room_def l)
  let ?x = "?l\<lparr>s_data := s_data ?l @ replicate block 0\<rparr>" let ?c = "c\<lparr>a_segments := (a_segments c)[?s := ?x]\<rparr>"
  have s: "?s < length (a_segments c)" using ne by simp
  have tt: "takeTail c block = Some (?s, length (s_data ?l), ?c)"
    using rm(1) ne n unfolding takeTail_def Let_def l by auto
  let ?g = "g\<lparr>g_used := g_used g + block\<rparr>"
  have "growthStep a g n = Some ?g" using sc b hole co False by (auto simp: growthStep_def counters_ok_def)
  moreover have "room ?c = room c - block" using s rm(2) ne by (simp add: room_def last_list_update)
  moreover have "MemoryBytes ?c = MemoryBytes c" using sum_list_cap_update [OF s, of ?x] by (simp add: MemoryBytes_def)
  moreover have "g_size g - (g_used g + block) = room c - block"
    using co diff_diff_left [of "g_size g" "g_used g" block] by (simp add: counters_ok_def)
  ultimately show ?thesis using tt co by (auto simp: counters_ok_def freeHead_def holesOf_def)
qed

lemma growthStep_ok:
  assumes inv: "arena_inv a B F L" and invc: "arena_inv c Bc Fc Lc" and ff: "frees_from a B c Fc" and co: "counters_ok a g c"
    and le: "B \<subseteq>\<^sub>m Bc" and sc: "sizeClass n = Some (b, block)" "n \<noteq> 0"
  shows "\<exists>s off c1 g'. takeBlock c b block = Some (s, off, c1) \<and> growthStep a g n = Some g' \<and> counters_ok a g' c1"
proof -
  have "class_ok (n + 8) b block" using sizeClass_SomeD [OF sc(1)] by simp
  then have b: "b < freeBucketCount" "16 \<le> block" by (simp_all add: class_ok_def freeBucketCount_def)
  consider (free) "freeHead c b \<noteq> 0" | (hole) "freeHead c b = 0" "dedicatedBlock block" "holesOf c \<noteq> []"
    | (tail) "freeHead c b = 0" "\<not> (dedicatedBlock block \<and> holesOf c \<noteq> [])" by blast
  then show ?thesis
  proof cases
    case free
    then have "takeBlock c b block = takeFree c b" by (simp add: takeBlock_def)
    then show ?thesis using growthStep_free [OF inv invc ff co le sc b(1) free] by simp
  next
    case hole
    then have "a_free c \<noteq> None" by (cases "a_free c") (simp_all add: holesOf_def)
    then have "takeBlock c b block = takeHole c block" using hole by (simp add: takeBlock_def)
    then show ?thesis using growthStep_hole [OF invc co sc b(1) hole b(2)] by simp
  next
    case tail
    then have "takeBlock c b block = takeTail c block" by (auto simp: takeBlock_def holesOf_def)
    then show ?thesis using growthStep_tail [OF invc co sc b(1) tail b(2)] by simp
  qed
qed

text \<open>One allocation, in the arena and in the simulation.\<close>

lemma agree_mono: "agree c d Bc p \<Longrightarrow> B \<subseteq>\<^sub>m Bc \<Longrightarrow> agree c d B p"
  unfolding agree_def map_le_def by (metis domI)

lemma agree_trans: "agree a b B p \<Longrightarrow> agree b c B p \<Longrightarrow> agree a c B p"
  by (simp add: agree_def)

lemma Alloc_growth:
  assumes inv: "arena_inv a B F L" and invc: "arena_inv c Bc Fc Lc" and ff: "frees_from a B c Fc" and co: "counters_ok a g c"
    and le: "B \<subseteq>\<^sub>m Bc" and v: "v \<noteq> []" "length v + 8 \<le> maxArenaBlock" and len: "length (a_segments c) < 2 ^ 25"
  shows "\<exists>r d g' Bd Fd. Alloc c v = Some (r, d) \<and> growthStep a g (length v) = Some g' \<and> counters_ok a g' d
    \<and> arena_inv d Bd Fd (Lc(r \<mapsto> v)) \<and> frees_from a B d Fd \<and> B \<subseteq>\<^sub>m Bd \<and> length (a_segments d) \<le> Suc (length (a_segments c))"
proof -
  obtain b block where sc: "sizeClass (length v) = Some (b, block)" "class_ok (length v + 8) b block" by (rule sizeClass_ok [OF v(2)])
  obtain s off c1 B1 F1 where tk: "takeBlock c b block = Some (s, off, c1)" "taken c Bc Fc Lc block (s, off) c1 B1 F1"
    "length (a_segments c1) \<le> Suc (length (a_segments c))" using takeBlock_ok [OF invc sc(2) len] by blast
  have inv1: "arena_inv c1 B1 F1 Lc" "B1 (s, off) = Some block" "\<forall>b < freeBucketCount. (s, off) \<notin> set (F1 b)" "(s, off) \<notin> ref_at ` dom Lc"
    and sub: "\<forall>b < freeBucketCount. set (F1 b) \<subseteq> set (Fc b)" "Bc \<subseteq>\<^sub>m B1" "\<forall>q \<in> dom Bc. agree c c1 Bc q"
    using tk(2) by (simp_all add: taken_def)
  have vn: "length v \<noteq> 0" using v(1) by simp
  obtain s' off' c1' g' where st: "takeBlock c b block = Some (s', off', c1')" "growthStep a g (length v) = Some g'" "counters_ok a g' c1'"
    using growthStep_ok [OF inv invc ff co le sc(1) vn] by blast
  have gs: "growthStep a g (length v) = Some g'" "counters_ok a g' c1" using st tk(1) by simp_all
  have gen: "unat (a_generation c1) < 2 ^ 18" using inv1(1) by (simp add: arena_inv_def shape_ok_def)
  obtain w c1' where ng: "nextGeneration c1 = (w, c1')" by fastforce
  have w: "nextGeneration c1 = (w, c1\<lparr>a_generation := w\<rparr>)" "w \<noteq> 0" "unat w < 2 ^ 18"
    using ng nextGeneration_range [OF ng gen] by simp_all
  obtain r a2 d where fb: "writeBytes (c1\<lparr>a_generation := w\<rparr>) s off (put64 w) = Some a2" "writeBytes a2 s (off + 8) v = Some d"
    "newRef (word_of_nat s) (word_of_nat off) (word_of_nat (length v)) w = Some r"
    "arena_inv d B1 F1 (Lc(r \<mapsto> v))" "same_layout c1 d" "a_free d = a_free c1" "\<And>p. p \<in> dom B1 \<Longrightarrow> p \<noteq> (s, off) \<Longrightarrow> agree c1 d B1 p"
    by (rule fill_block [OF inv1(1,2) sc(1) v(1) inv1(3,4) w(2,3)]) (rule that, assumption+)
  have al: "Alloc c v = Some (r, d)" using v(1) by (simp add: Alloc_def sc(1) tk(1) w(1) fb(1-3))
  have B1: "B \<subseteq>\<^sub>m B1" by (rule map_le_trans [OF le sub(2)])
  have "p \<in> dom B \<and> agree a d B p" if "e < freeBucketCount" "p \<in> set (F1 e)" for e p
  proof -
    have p: "p \<in> dom B" "agree a c B p" using ff sub(1) that unfolding frees_from_def by blast+
    have "p \<in> dom Bc" "p \<in> dom B1" using p(1) map_le_implies_dom_le [OF le] map_le_implies_dom_le [OF B1] by blast+
    have "p \<noteq> (s, off)" using inv1(3) that by blast
    then have "agree c c1 Bc p" "agree c1 d B1 p" using sub(3) \<open>p \<in> dom Bc\<close> fb(7) [OF \<open>p \<in> dom B1\<close>] by simp_all
    then have "agree c c1 B p" "agree c1 d B p" using agree_mono le B1 by blast+
    then show ?thesis using p agree_trans by blast
  qed
  then have "frees_from a B d F1" by (simp add: frees_from_def)
  moreover have "counters_ok a g' d" using gs(2) same_layout_counters [OF fb(5,6)] by simp
  moreover have "length (a_segments d) \<le> Suc (length (a_segments c))" using fb(5) tk(3) by (simp add: same_layout_def)
  ultimately show ?thesis using al gs(1) fb(4) B1 by blast
qed

text \<open>A batch of values written one after the other, the way the engine does after planning with
  \<open>GrowthFor\<close>.\<close>

fun AllocAll :: "Arena \<Rightarrow> bytes list \<Rightarrow> (Ref list \<times> Arena) option" where
  "AllocAll a [] = Some ([], a)"
| "AllocAll a (v # vs) =
     (case Alloc a v of None \<Rightarrow> None
      | Some (r, a1) \<Rightarrow> map_option (\<lambda>(rs, a2). (r # rs, a2)) (AllocAll a1 vs))"

lemma growth_run:
  assumes inv: "arena_inv a B F L" and invc: "arena_inv c Bc Fc Lc" and ff: "frees_from a B c Fc" and co: "counters_ok a g c"
    and le: "B \<subseteq>\<^sub>m Bc" and v: "\<forall>v \<in> set vs. length v + 8 \<le> maxArenaBlock" and len: "length (a_segments c) + length vs \<le> 2 ^ 25"
  shows "\<exists>rs d g'. AllocAll c vs = Some (rs, d) \<and> growthLoop a g (map length vs) = Some g' \<and> counters_ok a g' d"
  using invc ff co le v len
proof (induction vs arbitrary: c g Bc Fc Lc)
  case (Cons v vs)
  have vs: "\<forall>v \<in> set vs. length v + 8 \<le> maxArenaBlock" using Cons.prems(5) by simp
  show ?case
  proof (cases "v = []")
    case True
    have "length (a_segments c) + length vs \<le> 2 ^ 25" using Cons.prems(6) by simp
    from Cons.IH [OF Cons.prems(1-4) vs this] show ?thesis using True by (auto simp: Alloc_def growthStep_def)
  next
    case False
    have v: "length v + 8 \<le> maxArenaBlock" and l: "length (a_segments c) < 2 ^ 25" using Cons.prems(5,6) by auto
    obtain r d g' Bd Fd where st: "Alloc c v = Some (r, d)" "growthStep a g (length v) = Some g'" "counters_ok a g' d"
      "arena_inv d Bd Fd (Lc(r \<mapsto> v))" "frees_from a B d Fd" "B \<subseteq>\<^sub>m Bd" "length (a_segments d) \<le> Suc (length (a_segments c))"
      using Alloc_growth [OF inv Cons.prems(1-4) False v l] by blast
    have "length (a_segments d) + length vs \<le> 2 ^ 25" using st(7) Cons.prems(6) by simp
    from Cons.IH [OF st(4,5,3,6) vs this] show ?thesis using st(1,2) by auto
  qed
qed simp

subsection \<open>The allocator interface\<close>

text \<open>A program over an allocator: it makes new cells and drops cells it holds, and it names a cell by the
  number of the step that made it.\<close>

datatype 'v heapOp = New 'v | Drop nat

fun runHeap :: "('s \<Rightarrow> 'v \<Rightarrow> ('r \<times> 's) option) \<Rightarrow> ('s \<Rightarrow> 'r \<Rightarrow> (nat \<times> 's) option) \<Rightarrow> 'v heapOp list \<Rightarrow>
    's \<Rightarrow> 'r option list \<Rightarrow> ('s \<times> 'r option list) option" where
  "runHeap alloc free [] s hs = Some (s, hs)"
| "runHeap alloc free (New v # ops) s hs =
     (case alloc s v of None \<Rightarrow> None | Some (r, s1) \<Rightarrow> runHeap alloc free ops s1 (hs @ [Some r]))"
| "runHeap alloc free (Drop i # ops) s hs =
     (if i < length hs then
        (case hs ! i of None \<Rightarrow> runHeap alloc free ops s hs
         | Some r \<Rightarrow> (case free s r of None \<Rightarrow> None | Some (_, s1) \<Rightarrow> runHeap alloc free ops s1 (hs[i := None])))
      else runHeap alloc free ops s hs)"

fun cellsOf :: "'v heapOp list \<Rightarrow> 'v option list \<Rightarrow> 'v option list" where
  "cellsOf [] vs = vs"
| "cellsOf (New v # ops) vs = cellsOf ops (vs @ [Some v])"
| "cellsOf (Drop i # ops) vs = cellsOf ops (vs[i := None])"

definition tied :: "('r \<Rightarrow> 'v option) \<Rightarrow> 'r option list \<Rightarrow> 'v option list \<Rightarrow> bool" where
  "tied L hs vs \<longleftrightarrow> length hs = length vs
     \<and> (\<forall>i < length vs. case hs ! i of None \<Rightarrow> vs ! i = None | Some r \<Rightarrow> vs ! i \<noteq> None \<and> L r = vs ! i)
     \<and> (\<forall>i < length hs. \<forall>j < length hs. hs ! i = hs ! j \<longrightarrow> hs ! i \<noteq> None \<longrightarrow> i = j)"

definition newCount :: "'v heapOp list \<Rightarrow> nat" where
  "newCount ops = length (filter (\<lambda>p. case p of New _ \<Rightarrow> True | Drop _ \<Rightarrow> False) ops)"

definition news :: "'v heapOp list \<Rightarrow> 'v set" where
  "news ops = {v. New v \<in> set ops}"

lemma tied_new:
  assumes t: "tied L hs vs" and n: "L r = None"
  shows "tied (L(r \<mapsto> v)) (hs @ [Some r]) (vs @ [Some v])"
proof -
  have "hs ! i \<noteq> Some r" if "i < length hs" for i
    using t n that unfolding tied_def by (cases "hs ! i") (auto split: option.splits)
  then show ?thesis using t unfolding tied_def
    by (auto simp: nth_append less_Suc_eq split: option.splits)
qed

lemma tied_drop:
  assumes t: "tied L hs vs" and i: "i < length hs" "hs ! i = Some r"
  shows "tied (L(r := None)) (hs[i := None]) (vs[i := None])"
proof -
  have len: "length hs = length vs" and inj: "\<And>j k. j < length hs \<Longrightarrow> k < length hs \<Longrightarrow> hs ! j = hs ! k \<Longrightarrow> hs ! j \<noteq> None \<Longrightarrow> j = k"
    and val: "\<And>j. j < length vs \<Longrightarrow> case hs ! j of None \<Rightarrow> vs ! j = None | Some r \<Rightarrow> vs ! j \<noteq> None \<and> L r = vs ! j"
    using t unfolding tied_def by blast+
  have other: "hs ! j \<noteq> Some r" if "j < length hs" "j \<noteq> i" for j using inj [of j i] i that by auto
  have "case hs[i := None] ! j of None \<Rightarrow> vs[i := None] ! j = None | Some q \<Rightarrow> vs[i := None] ! j \<noteq> None \<and> (L(r := None)) q = vs[i := None] ! j"
    if "j < length vs" for j
    using val [OF that] other [of j] that len i(1) by (cases "j = i") (auto split: option.splits)
  moreover have "j = k" if "j < length hs" "k < length hs" "hs[i := None] ! j = hs[i := None] ! k" "hs[i := None] ! j \<noteq> None" for j k
    using that inj [of j k] by (cases "j = i"; cases "k = i") simp_all
  ultimately show ?thesis using len unfolding tied_def by simp
qed

locale allocator =
  fixes ok :: "'s \<Rightarrow> ('r \<Rightarrow> 'v option) \<Rightarrow> bool" and alloc :: "'s \<Rightarrow> 'v \<Rightarrow> ('r \<times> 's) option"
    and view :: "'s \<Rightarrow> 'r \<Rightarrow> 'e + 'v" and free :: "'s \<Rightarrow> 'r \<Rightarrow> (nat \<times> 's) option"
    and fits :: "'v \<Rightarrow> bool" and units :: "'s \<Rightarrow> nat" and limit :: nat
  assumes view_live: "ok s L \<Longrightarrow> L r = Some v \<Longrightarrow> view s r = Inr v"
    and alloc_live: "ok s L \<Longrightarrow> fits v \<Longrightarrow> units s < limit \<Longrightarrow>
      \<exists>r s'. alloc s v = Some (r, s') \<and> L r = None \<and> ok s' (L(r \<mapsto> v)) \<and> units s' \<le> Suc (units s)"
    and free_live: "ok s L \<Longrightarrow> L r = Some v \<Longrightarrow>
      \<exists>n s'. free s r = Some (n, s') \<and> ok s' (L(r := None)) \<and> units s' = units s"
begin

lemma run_cells:
  assumes "ok s L" "tied L hs vs" "\<forall>v \<in> news ops. fits v" "units s + newCount ops \<le> limit"
  shows "\<exists>s' hs' L'. runHeap alloc free ops s hs = Some (s', hs') \<and> ok s' L' \<and> tied L' hs' (cellsOf ops vs)"
  using assms
proof (induction ops arbitrary: s L hs vs)
  case (Cons p ops)
  have rest: "\<forall>v \<in> news ops. fits v" using Cons.prems(3) by (simp add: news_def)
  show ?case
  proof (cases p)
    case (New v)
    have "fits v" "units s < limit" using Cons.prems(3,4) New by (auto simp: news_def newCount_def)
    then obtain r s1 where a: "alloc s v = Some (r, s1)" "L r = None" "ok s1 (L(r \<mapsto> v))" "units s1 \<le> Suc (units s)"
      using alloc_live [OF Cons.prems(1)] by blast
    have "units s1 + newCount ops \<le> limit" using a(4) Cons.prems(4) New by (simp add: newCount_def)
    from Cons.IH [OF a(3) tied_new [OF Cons.prems(2) a(2)] rest this] show ?thesis using New a(1) by simp
  next
    case (Drop i)
    have u: "units s + newCount ops \<le> limit" using Cons.prems(4) Drop by (simp add: newCount_def)
    have len: "length hs = length vs" using Cons.prems(2) by (simp add: tied_def)
    show ?thesis
    proof (cases "i < length hs \<and> hs ! i \<noteq> None")
      case True
      then obtain r where r: "i < length hs" "hs ! i = Some r" by blast
      then obtain v where "L r = Some v" using Cons.prems(2) len unfolding tied_def by fastforce
      then obtain n s1 where f: "free s r = Some (n, s1)" "ok s1 (L(r := None))" "units s1 = units s"
        using free_live [OF Cons.prems(1)] by blast
      have "units s1 + newCount ops \<le> limit" using u f(3) by simp
      from Cons.IH [OF f(2) tied_drop [OF Cons.prems(2) r] rest this] show ?thesis using Drop r f(1) by simp
    next
      case False
      have "vs[i := None] = vs"
      proof (cases "i < length hs")
        case True
        then have "vs ! i = None" using Cons.prems(2) False len unfolding tied_def by (auto split: option.splits)
        then show ?thesis by (metis list_update_id)
      qed (simp add: len list_update_beyond)
      then show ?thesis using Cons.IH [OF Cons.prems(1,2) rest u] Drop False by (auto split: option.splits)
    qed
  qed
qed auto

lemma run_reads:
  assumes "ok s Map.empty" "\<forall>v \<in> news ops. fits v" "units s + newCount ops \<le> limit"
  shows "\<exists>s' hs. runHeap alloc free ops s [] = Some (s', hs) \<and> length hs = length (cellsOf ops [])
    \<and> (\<forall>i < length hs. case hs ! i of None \<Rightarrow> cellsOf ops [] ! i = None
        | Some r \<Rightarrow> \<exists>v. cellsOf ops [] ! i = Some v \<and> view s' r = Inr v)"
proof -
  have "tied Map.empty [] []" by (simp add: tied_def)
  then obtain s' hs L where r: "runHeap alloc free ops s [] = Some (s', hs)" "ok s' L" "tied L hs (cellsOf ops [])"
    using run_cells [OF assms(1) _ assms(2,3)] by blast
  then show ?thesis using view_live [OF r(2)] unfolding tied_def by (fastforce split: option.splits)
qed

end

interpretation heap: allocator arena_ok Alloc View Free "\<lambda>v. v \<noteq> [] \<and> length v + 8 \<le> maxArenaBlock" SegmentCount "2 ^ 25"
proof unfold_locales
  show "View s r = Inr v" if "arena_ok s L" "L r = Some v" for s L r v
    using that View_inv unfolding arena_ok_def by blast
  show "\<exists>r s'. Alloc s v = Some (r, s') \<and> L r = None \<and> arena_ok s' (L(r \<mapsto> v)) \<and> SegmentCount s' \<le> Suc (SegmentCount s)"
    if "arena_ok s L" "v \<noteq> [] \<and> length v + 8 \<le> maxArenaBlock" "SegmentCount s < 2 ^ 25" for s L v
    using that Alloc_inv unfolding arena_ok_def SegmentCount_def by blast
  show "\<exists>n s'. Free s r = Some (n, s') \<and> arena_ok s' (L(r := None)) \<and> SegmentCount s' = SegmentCount s"
    if "arena_ok s L" "L r = Some v" for s L r v
    using that Free_inv unfolding arena_ok_def SegmentCount_def by blast
qed


subsection \<open>Inline values\<close>

lemma AllocInline_view:
  assumes v: "v \<noteq> []" "length v \<le> 8"
  shows "\<exists>r a'. AllocInline a v = Some (r, a') \<and> IsInline r \<and> InlineInto r = Some v \<and> a' = snd (nextGeneration a)"
proof -
  obtain g a' where g: "nextGeneration a = (g, a')" by fastforce
  define r where "r = \<lparr>r_location = get64 (v @ replicate (8 - length v) 0),
    r_generation = inlineMarker OR push_bit 14 (word_of_nat (length v)) OR (g AND inlineGenerationMask)\<rparr>"
  have al: "AllocInline a v = Some (r, a')" using v g by (simp add: AllocInline_def r_def)
  have n: "length v < 2 ^ 4" using v(2) by simp
  have ml: "inlineGenerationMask = mask 14" by (simp add: inlineGenerationMask_def mask_eq_exp_minus_1)
  have "bit (r_generation r) 18" by (simp add: r_def inlineMarker_def bit_or_iff bit_push_bit_iff)
  then have "bit (r_generation r AND inlineMarker) 18" by (simp add: bit_and_iff inlineMarker_def bit_push_bit_iff)
  then have inl: "IsInline r" unfolding IsInline_def by (metis bit_0_eq bot_apply bot_bool_def)
  have "drop_bit 14 (r_generation r AND inlineLengthMask) = (word_of_nat (length v) :: u64)"
  proof (rule bit_word_eqI)
    fix k assume k: "k < LENGTH(64)"
    have "bit (15 :: u64) k \<longleftrightarrow> k < 4"
    proof -
      have "(15 :: u64) = mask 4" by (simp add: mask_eq_exp_minus_1)
      then show ?thesis using k by (simp only: bit_mask_iff) simp
    qed
    moreover have "bit (16 :: u64) k \<longleftrightarrow> k = 4"
    proof -
      have "(16 :: u64) = 2 ^ 4" by simp
      then show ?thesis using k by (simp only: bit_exp_iff) auto
    qed
    moreover have "\<not> bit (word_of_nat (length v) :: u64) k" if "4 \<le> k"
    proof -
      have "unat (word_of_nat (length v) :: u64) < 2 ^ 4" using n by (simp add: unat_of_nat)
      then show ?thesis using bits_below [of "word_of_nat (length v) :: u64" 4 k] that by blast
    qed
    ultimately show "bit (drop_bit 14 (r_generation r AND inlineLengthMask)) k = bit (word_of_nat (length v) :: u64) k"
      using k by (auto simp: r_def ml bit_drop_bit_eq bit_and_iff bit_or_iff bit_push_bit_iff bit_mask_iff inlineLengthMask_def inlineMarker_def
        dest: bit_imp_le_length)
  qed
  then have len: "unat (drop_bit 14 (r_generation r AND inlineLengthMask)) = length v" using v(2) by (simp add: unat_of_nat)
  have "put64 (r_location r) = v @ replicate (8 - length v) 0"
    using put64_get64 [of "v @ replicate (8 - length v) 0"] v(2) by (simp add: r_def)
  then have "InlineInto r = Some v" using inl len v by (simp add: InlineInto_def Let_def Suc_le_eq)
  then show ?thesis using al inl g by simp
qed


subsection \<open>Properties\<close>

text \<open>C4: Any program of allocations and frees on an empty arena runs to the end, as long as its values are not empty,
  none exceeds the largest block, and it makes at most $2^{25}$ cells. Every cell it still holds at the end reads back, through
  \<open>View\<close>, exactly the bytes that were stored in it, whatever was allocated, freed and reused in between.\<close>

theorem arena_programs:
  assumes "\<forall>v \<in> news ops. v \<noteq> [] \<and> length v + 8 \<le> maxArenaBlock" "newCount ops \<le> 2 ^ 25"
  shows "\<exists>a hs. runHeap Alloc Free ops emptyArena [] = Some (a, hs) \<and> length hs = length (cellsOf ops [])
    \<and> (\<forall>i < length hs. case hs ! i of None \<Rightarrow> cellsOf ops [] ! i = None
        | Some r \<Rightarrow> \<exists>v. cellsOf ops [] ! i = Some v \<and> View a r = Inr v)"
proof -
  have "arena_ok emptyArena Map.empty" using emptyArena_inv unfolding arena_ok_def by blast
  moreover have "SegmentCount emptyArena + newCount ops \<le> 2 ^ 25" using assms(2) by (simp add: SegmentCount_def emptyArena_def)
  ultimately show ?thesis using heap.run_reads assms(1) by blast
qed

theorem arena_programs_witness:
  "\<exists>a hs. runHeap Alloc Free [New [1, 2], New [3], Drop 0, New [4, 5]] emptyArena [] = Some (a, hs) \<and> length hs = 3
    \<and> (\<forall>i < length hs. case hs ! i of None \<Rightarrow> ([None, Some [3], Some [4, 5]] :: bytes option list) ! i = None
        | Some r \<Rightarrow> \<exists>v. [None, Some [3], Some [4, 5]] ! i = Some v \<and> View a r = Inr v)"
proof -
  let ?ops = "[New [1, 2], New [3], Drop 0, New [4, 5]] :: bytes heapOp list"
  have h: "\<forall>v \<in> news ?ops. v \<noteq> [] \<and> length v + 8 \<le> maxArenaBlock" "newCount ?ops \<le> 2 ^ 25"
    by (auto simp: news_def maxArenaBlock_def newCount_def)
  have c: "cellsOf ?ops [] = [None, Some [3], Some [4, 5]]" and l: "length ([None, Some [3], Some [4, 5]] :: bytes option list) = 3" by simp_all
  show ?thesis using arena_programs [OF h] unfolding c l .
qed

text \<open>C31: In an arena whose live references are the map \<open>L\<close>, a live reference reads its value on both read paths,
  freeing it succeeds, keeps every other reference live, makes the freed one stale, and changes the memory the
  arena owns by exactly the bytes it reports as released and the growth announced by \<open>FreeGrowth\<close>.\<close>

theorem Free_exact:
  assumes "arena_ok a L" "L r = Some v"
  shows "View a r = Inr v \<and> ViewKnownLive a r = Inr v
    \<and> (\<exists>n a'. Free a r = Some (n, a') \<and> arena_ok a' (L(r := None)) \<and> View a' r = Inl StaleReference
        \<and> TotalMemoryBytes a' + n = TotalMemoryBytes a + FreeGrowth a r)"
proof -
  obtain B F where inv: "arena_inv a B F L" using assms(1) unfolding arena_ok_def by blast
  have "live_ref a B r v" using inv assms(2) unfolding arena_inv_def live_ok_def by blast
  then have g: "r_generation r \<noteq> 0" "\<not> IsInline r" using not_inline [of r] by (simp_all add: live_ref_def)
  obtain n a' B' F' where f: "Free a r = Some (n, a')" "arena_inv a' B' F' (L(r := None))" "View a' r = Inl StaleReference"
    "MemoryBytes a' + n = MemoryBytes a" "a_free a' \<noteq> None" using Free_inv [OF inv assms(2)] by blast
  have "TotalMemoryBytes a' + n = TotalMemoryBytes a + FreeGrowth a r"
    using f(4,5) g by (cases "a_free a") (simp_all add: TotalMemoryBytes_def FreeGrowth_def)
  then show ?thesis using f(1-3) View_inv [OF inv assms(2)] unfolding arena_ok_def by blast
qed

theorem Free_exact_witness:
  "\<exists>r a n a'. Alloc emptyArena [7] = Some (r, a) \<and> View a r = Inr [7] \<and> Free a r = Some (n, a') \<and> View a' r = Inl StaleReference
    \<and> TotalMemoryBytes a' + n = TotalMemoryBytes a + FreeGrowth a r"
proof -
  obtain r a B F where al: "Alloc emptyArena [7] = Some (r, a)" "arena_inv a B F (Map.empty(r \<mapsto> [7]))"
    using Alloc_inv [OF emptyArena_inv, of "[7]"] by (auto simp: emptyArena_def maxArenaBlock_def)
  have "arena_ok a (Map.empty(r \<mapsto> [7]))" using al(2) unfolding arena_ok_def by blast
  from Free_exact [OF this, of r "[7]"] al(1) show ?thesis by auto
qed

text \<open>C30: \<open>GrowthFor\<close> is exact. For any batch of values the arena can hold, writing the batch one value after the
  other succeeds and makes the memory of the arena grow by precisely the number the planner computed beforehand
  without changing anything, including reuse of free blocks, reuse of holes and growth of the segment table.\<close>

theorem GrowthFor_exact:
  assumes "arena_ok a L" "\<forall>v \<in> set vs. length v + 8 \<le> maxArenaBlock" "SegmentCount a + length vs \<le> 2 ^ 25"
  shows "\<exists>rs a' n. AllocAll a vs = Some (rs, a') \<and> GrowthFor a (map length vs) = Some n \<and> MemoryBytes a' = MemoryBytes a + n"
proof -
  obtain B F where inv: "arena_inv a B F L" using assms(1) unfolding arena_ok_def by blast
  obtain rs d g where g: "AllocAll a vs = Some (rs, d)" "growthLoop a (growthStart a) (map length vs) = Some g" "counters_ok a g d"
    using growth_run [OF inv inv growthStart_ok(2,1) [OF inv] _ assms(2)] assms(3) by (auto simp: SegmentCount_def)
  then show ?thesis by (simp add: GrowthFor_def counters_ok_def)
qed

theorem GrowthFor_exact_witness:
  "\<exists>rs a' n. AllocAll emptyArena [[1, 2], [], [3]] = Some (rs, a') \<and> GrowthFor emptyArena [2, 0, 1] = Some n \<and> MemoryBytes a' = n"
proof -
  let ?vs = "[[1, 2], [], [3]] :: bytes list"
  have ok: "arena_ok emptyArena Map.empty" using emptyArena_inv unfolding arena_ok_def by blast
  have h: "\<forall>v \<in> set ?vs. length v + 8 \<le> maxArenaBlock" "SegmentCount emptyArena + length ?vs \<le> 2 ^ 25"
    by (simp_all add: maxArenaBlock_def SegmentCount_def emptyArena_def)
  have e: "MemoryBytes emptyArena = 0" and l: "map length ?vs = [2, 0, 1]" by (simp_all add: MemoryBytes_def emptyArena_def)
  show ?thesis using GrowthFor_exact [OF ok h] unfolding e l add_0 .
qed

text \<open>C32: A value of one to eight bytes is stored inside the reference itself. It reads back in any arena, costs no
  allocation, freeing it changes nothing, and any other length is refused.\<close>

theorem AllocInline_roundtrip:
  "if 1 \<le> length v \<and> length v \<le> 8
   then \<exists>r a'. AllocInline a v = Some (r, a') \<and> (\<forall>b. View b r = Inr v \<and> ViewKnownLive b r = Inr v \<and> Free b r = Some (0, b))
     \<and> AllocationBytes r = Some 0 \<and> RefFromWords (fst (Words r)) (snd (Words r)) = r \<and> MemoryBytes a' = MemoryBytes a
   else AllocInline a v = None"
proof (cases "1 \<le> length v \<and> length v \<le> 8")
  case True
  then have "v \<noteq> []" "length v \<le> 8" by auto
  then obtain r a' where r: "AllocInline a v = Some (r, a')" "IsInline r" "InlineInto r = Some v" "a' = snd (nextGeneration a)"
    using AllocInline_view [of v a] by blast
  have "MemoryBytes a' = MemoryBytes a" by (simp add: r(4) nextGeneration_def Let_def MemoryBytes_def)
  then show ?thesis using True r(1-3)
    by (simp add: View_def ViewKnownLive_def Free_def AllocationBytes_def RefFromWords_def Words_def)
qed (auto simp: AllocInline_def Suc_le_eq)

text \<open>C33: The size classes cover exactly the payloads whose record fits the largest block. The block always has
  room for the eight-byte header and the payload, its bucket is inside the table of free lists, and two payloads in
  the same bucket get blocks of the same size, except in the bucket of dedicated blocks.\<close>

theorem sizeClass_sound:
  "(sizeClass n = None \<longleftrightarrow> maxArenaBlock < n + 8)
   \<and> (case sizeClass n of None \<Rightarrow> True
      | Some (b, block) \<Rightarrow> n + 8 \<le> block \<and> b < freeBucketCount
          \<and> (case sizeClass m of None \<Rightarrow> True
             | Some (b', block') \<Rightarrow> if b' = b then block' = block \<or> b = dedicatedBucket else True))"
proof -
  have c: "class_ok (k + 8) b block" if "sizeClass k = Some (b, block)" for k b block using sizeClass_SomeD [OF that] by simp
  have "sizeClass n = None \<longleftrightarrow> maxArenaBlock < n + 8"
  proof (cases "maxArenaBlock < n + 8")
    case False
    then have le: "n + 8 \<le> maxArenaBlock" by simp
    show ?thesis by (rule sizeClass_ok [OF le]) (use False in auto)
  qed (simp add: sizeClass_fails)
  then show ?thesis using c [of n] c [of m]
    by (auto simp: class_ok_def freeBucketCount_def dedicatedBucket_def split: option.splits prod.splits if_splits)
qed

text \<open>C34: Packing a reference succeeds exactly when segment, offset and length fit their bit fields, and the fields
  then read back unchanged.\<close>

theorem newRef_roundtrip:
  "case newRef s off n g of
     None \<Rightarrow> unat s \<ge> 2 ^ 25 \<or> unat off \<ge> 2 ^ 13 \<or> unat n \<ge> 2 ^ 26
   | Some r \<Rightarrow> r_segment r = s \<and> r_offset r = off \<and> r_length r = n \<and> r_generation r = g"
proof (cases "unat s < 2 ^ 25 \<and> unat off < 2 ^ 13 \<and> unat n < 2 ^ 26")
  case True
  then show ?thesis using newRef_eq [of s off n g] ref_fields [of s off n g] by simp
next
  case False
  have "newRef s off n g = None"
    using False by (auto simp: newRef_def word_less_nat_alt refSegmentMask_def refOffsetMask_def refLengthMask_def)
  then show ?thesis using False by auto
qed

end
