(* ===== verification/EntryPack.thy ===== *)
theory EntryPack
  imports Arena
begin

unbundle bit_operations_syntax

text \<open>The stored form of a value descriptor (internal/engine/entry\_pack.go, and the descriptor types of engine.go and
  value\_type.go): an arena reference, the raw length, codec, type and two flags packed into two words.\<close>

type_synonym codecID = "8 word"

type_synonym valueType = "8 word"

record SnugValue =
  v_ref :: Ref
  v_rawLength :: u32
  v_codecID :: codecID
  v_valueType :: valueType
  v_hasExpiry :: bool
  v_rawStable :: bool

definition TypeJSON :: valueType where
  "TypeJSON = 6"

definition TypeHash :: valueType where
  "TypeHash = 7"

definition TypeSet :: valueType where
  "TypeSet = 8"

definition TypeList :: valueType where
  "TypeList = 9"

definition TypeZSet :: valueType where
  "TypeZSet = 10"

definition TypeStream :: valueType where
  "TypeStream = 11"

definition TypeBloom :: valueType where
  "TypeBloom = 12"

definition TypeCuckoo :: valueType where
  "TypeCuckoo = 13"

definition TypeCMS :: valueType where
  "TypeCMS = 14"

definition TypeTopK :: valueType where
  "TypeTopK = 15"

definition TypeTDigest :: valueType where
  "TypeTDigest = 16"

definition TypeTimeSeries :: valueType where
  "TypeTimeSeries = 17"

definition TypeVectorSet :: valueType where
  "TypeVectorSet = 18"

definition isRaw :: "SnugValue \<Rightarrow> bool" where
  "isRaw v \<longleftrightarrow> v_codecID v = 0"

definition isHotHash :: "SnugValue \<Rightarrow> bool" where
  "isHotHash v \<longleftrightarrow> v_rawStable v \<and> v_valueType v = TypeHash"

definition isNativeContainerType :: "valueType \<Rightarrow> bool" where
  "isNativeContainerType t \<longleftrightarrow> t \<in> {TypeHash, TypeSet, TypeList, TypeZSet, TypeStream, TypeBloom, TypeCuckoo, TypeCMS, TypeTopK, TypeTDigest,
     TypeTimeSeries, TypeVectorSet}"

record packedEntry =
  p_location :: u64
  p_meta :: u64

definition GenerationBits :: nat where
  "GenerationBits = 19"

definition packCodecMask :: u64 where
  "packCodecMask = push_bit 6 1 - 1"

definition packTypeMask :: u64 where
  "packTypeMask = push_bit 5 1 - 1"

definition packExpiryBit :: u64 where
  "packExpiryBit = push_bit 43 1"

definition packStableBit :: u64 where
  "packStableBit = push_bit 44 1"

definition packGenMask :: u64 where
  "packGenMask = push_bit GenerationBits 1 - 1"

definition packRawLenMask :: u64 where
  "packRawLenMask = push_bit 32 1 - 1"

text \<open>\<open>None\<close> is the panic of a field that does not fit.\<close>

definition packEntry :: "SnugValue \<Rightarrow> packedEntry option" where
  "packEntry v =
     (let (location, generation) = Words (v_ref v) in
      if generation > packGenMask then None
      else if ucast (v_codecID v) > packCodecMask then None
      else if ucast (v_valueType v) > packTypeMask then None
      else
        let m = ucast (v_rawLength v) OR push_bit 32 (ucast (v_codecID v)) OR push_bit 38 (ucast (v_valueType v))
              OR push_bit 45 generation;
            m = (if v_hasExpiry v then m OR packExpiryBit else m);
            m = (if v_rawStable v then m OR packStableBit else m) in
        Some \<lparr>p_location = location, p_meta = m\<rparr>)"

definition unpack :: "packedEntry \<Rightarrow> SnugValue" where
  "unpack p =
     \<lparr>v_ref = RefFromWords (p_location p) (drop_bit 45 (p_meta p) AND packGenMask),
      v_rawLength = ucast (p_meta p AND packRawLenMask),
      v_codecID = ucast (drop_bit 32 (p_meta p) AND packCodecMask),
      v_valueType = ucast (drop_bit 38 (p_meta p) AND packTypeMask),
      v_hasExpiry = (p_meta p AND packExpiryBit \<noteq> 0),
      v_rawStable = (p_meta p AND packStableBit \<noteq> 0)\<rparr>"

lemmas pack_masks = packCodecMask_def packTypeMask_def packExpiryBit_def packStableBit_def packGenMask_def packRawLenMask_def GenerationBits_def

text \<open>The descriptors the store holds: every field within its packed width.\<close>

definition packable :: "SnugValue \<Rightarrow> bool" where
  "packable v \<longleftrightarrow> unat (r_generation (v_ref v)) < 2 ^ 19 \<and> unat (v_codecID v) < 2 ^ 6 \<and> unat (v_valueType v) < 2 ^ 5"

lemma mask_bits:
  "bit packCodecMask i \<longleftrightarrow> i < 6" "bit packTypeMask i \<longleftrightarrow> i < 5" "bit packGenMask i \<longleftrightarrow> i < 19" "bit packRawLenMask i \<longleftrightarrow> i < 32"
  "bit packExpiryBit i \<longleftrightarrow> i = 43" "bit packStableBit i \<longleftrightarrow> i = 44"
proof -
  have e: "packCodecMask = mask 6" "packTypeMask = mask 5" "packGenMask = mask 19" "packRawLenMask = mask 32"
    by (simp_all add: pack_masks mask_eq_exp_minus_1 push_bit_eq_mult)
  show "bit packCodecMask i \<longleftrightarrow> i < 6" "bit packTypeMask i \<longleftrightarrow> i < 5" "bit packGenMask i \<longleftrightarrow> i < 19" "bit packRawLenMask i \<longleftrightarrow> i < 32"
    unfolding e by (auto simp: bit_mask_iff)
  show "bit packExpiryBit i \<longleftrightarrow> i = 43" "bit packStableBit i \<longleftrightarrow> i = 44"
    unfolding packExpiryBit_def packStableBit_def bit_push_bit_iff bit_1_iff by auto
qed

lemma and_single:
  fixes x m :: u64
  assumes "\<And>k. bit m k \<longleftrightarrow> k = i"
  shows "x AND m \<noteq> 0 \<longleftrightarrow> bit x i"
proof -
  have b: "bit (x AND m) k \<longleftrightarrow> k = i \<and> bit x i" for k using assms by (auto simp: bit_and_iff)
  have "x AND m = 0 \<longleftrightarrow> (\<forall>k. \<not> bit (x AND m) k)" by (metis bit_0_eq bot_apply bot_bool_def bit_eqI)
  then show ?thesis using b by auto
qed

lemma packable_iff: "packEntry v \<noteq> None \<longleftrightarrow> packable v"
proof -
  have "unat packGenMask = 2 ^ 19 - 1" "unat packCodecMask = 2 ^ 6 - 1" "unat packTypeMask = 2 ^ 5 - 1" by (simp_all add: pack_masks)
  moreover have "unat (ucast x :: u64) = unat x" for x :: "8 word"
  proof -
    have "unat x < 2 ^ 64" by (rule less_trans [OF unat_byte_less]) simp
    then show ?thesis by (simp add: unsigned_ucast_eq take_bit_nat_eq_self)
  qed
  ultimately show ?thesis by (auto simp: packEntry_def packable_def Words_def Let_def word_less_nat_alt not_less)
qed

lemma unpack_pack:
  assumes "packEntry v = Some p"
  shows "unpack p = v"
proof -
  have fit: "packable v" using assms packable_iff [of v] by simp
  define g c t r where "g = r_generation (v_ref v)" and "c = v_codecID v" and "t = v_valueType v" and "r = v_rawLength v"
  have gb: "k < 19" if "bit g k" for k using bits_below [of g 19 k] fit that by (force simp: packable_def g_def)
  have cb: "k < 6" if "bit c k" for k using bits_below [of c 6 k] fit that by (force simp: packable_def c_def)
  have tb: "k < 5" if "bit t k" for k using bits_below [of t 5 k] fit that by (force simp: packable_def t_def)
  have rb: "k < 32" if "bit r k" for k using bit_imp_le_length [OF that] by simp
  have p: "p_location p = r_location (v_ref v)"
    "bit (p_meta p) k \<longleftrightarrow> bit (ucast r OR push_bit 32 (ucast c) OR push_bit 38 (ucast t) OR push_bit 45 g :: u64) k
       \<or> v_hasExpiry v \<and> k = 43 \<or> v_rawStable v \<and> k = 44" for k
    using assms by (auto simp: packEntry_def Words_def Let_def g_def c_def t_def r_def bit_or_iff mask_bits split: if_splits)
  note b = p(2) bit_simps mask_bits
  have "drop_bit 45 (p_meta p) AND packGenMask = g"
    by (rule bit_word_eqI) (auto simp: b dest: gb cb tb rb)
  moreover have "ucast (p_meta p AND packRawLenMask) = r" by (rule bit_word_eqI) (auto simp: b dest: gb cb tb rb)
  moreover have "ucast (drop_bit 32 (p_meta p) AND packCodecMask) = c"
    by (rule bit_word_eqI) (auto simp: b dest: gb cb tb rb)
  moreover have "ucast (drop_bit 38 (p_meta p) AND packTypeMask) = t"
    by (rule bit_word_eqI) (auto simp: b dest: gb cb tb rb)
  moreover have "p_meta p AND packExpiryBit \<noteq> 0 \<longleftrightarrow> v_hasExpiry v"
  proof -
    have "p_meta p AND packExpiryBit \<noteq> 0 \<longleftrightarrow> bit (p_meta p) 43" by (rule and_single) (simp add: mask_bits)
    also have "\<dots> \<longleftrightarrow> v_hasExpiry v" by (auto simp: b dest: gb cb tb rb)
    finally show ?thesis .
  qed
  moreover have "p_meta p AND packStableBit \<noteq> 0 \<longleftrightarrow> v_rawStable v"
  proof -
    have "p_meta p AND packStableBit \<noteq> 0 \<longleftrightarrow> bit (p_meta p) 44" by (rule and_single) (simp add: mask_bits)
    also have "\<dots> \<longleftrightarrow> v_rawStable v" by (auto simp: b dest: gb cb tb rb)
    finally show ?thesis .
  qed
  ultimately show ?thesis using p(1) by (simp add: unpack_def RefFromWords_def g_def c_def t_def r_def)
qed

text \<open>C40: Packing a descriptor panics exactly when the generation, codec or type exceeds its field, and otherwise
  unpacking gives the descriptor back with every field and flag.\<close>

theorem packEntry_roundtrip:
  "case packEntry v of None \<Rightarrow> \<not> packable v | Some p \<Rightarrow> packable v \<and> unpack p = v"
  using packable_iff [of v] unpack_pack [of v] by (auto split: option.splits)

end
