(* ===== verification/Expiration.thy ===== *)
theory Expiration
  imports Prelude "HOL-Library.Multiset" "HOL-Library.Monad_Syntax"
begin

text \<open>The expiration queue of a shard (internal/engine/expiration.go): a binary heap of deadlines with a map from keys to
  heap positions, driven by the algorithms of \<^verbatim>\<open>container/heap\<close>, which are modelled as the library has them.
  \<open>None\<close> is a panic: an index out of range or a write to a nil map.\<close>

type_synonym stamp = int

record expiration =
  x_key :: bytes
  x_at :: stamp

record expirationQueue =
  q_items :: "expiration list"
  q_positions :: "(bytes \<rightharpoonup> nat) option"

definition emptyQueue :: expirationQueue where
  "emptyQueue = \<lparr>q_items = [], q_positions = None\<rparr>"

definition q_Len :: "expirationQueue \<Rightarrow> nat" where
  "q_Len q = length (q_items q)"

definition Less :: "expirationQueue \<Rightarrow> nat \<Rightarrow> nat \<Rightarrow> bool option" where
  "Less q i j =
     (if i < length (q_items q) \<and> j < length (q_items q) then Some (x_at (q_items q ! i) < x_at (q_items q ! j)) else None)"

definition Swap :: "expirationQueue \<Rightarrow> nat \<Rightarrow> nat \<Rightarrow> expirationQueue option" where
  "Swap q i j =
     (if i < length (q_items q) \<and> j < length (q_items q) then
        let items = (q_items q)[i := q_items q ! j, j := q_items q ! i] in
        map_option (\<lambda>m. \<lparr>q_items = items, q_positions = Some (m(x_key (items ! i) \<mapsto> i, x_key (items ! j) \<mapsto> j))\<rparr>)
          (q_positions q)
      else None)"

definition Push :: "expirationQueue \<Rightarrow> expiration \<Rightarrow> expirationQueue option" where
  "Push q e =
     map_option (\<lambda>m. \<lparr>q_items = q_items q @ [e], q_positions = Some (m(x_key e \<mapsto> length (q_items q)))\<rparr>) (q_positions q)"

text \<open>Deleting from a nil map does nothing.\<close>

definition Pop :: "expirationQueue \<Rightarrow> (expiration \<times> expirationQueue) option" where
  "Pop q =
     (if q_items q = [] then None
      else let e = List.last (q_items q) in
        Some (e, \<lparr>q_items = butlast (q_items q), q_positions = map_option (\<lambda>m. m(x_key e := None)) (q_positions q)\<rparr>))"

definition atFor :: "expirationQueue \<Rightarrow> bytes \<Rightarrow> stamp option" where
  "atFor q key =
     (case q_positions q of None \<Rightarrow> None
      | Some m \<Rightarrow>
          (case m key of None \<Rightarrow> None
           | Some i \<Rightarrow>
               if i \<ge> length (q_items q) \<or> x_key (q_items q ! i) \<noteq> key then None else Some (x_at (q_items q ! i))))"

text \<open>Sifting, from the standard library.\<close>

function heapUp :: "expirationQueue \<Rightarrow> nat \<Rightarrow> expirationQueue option" where
  "heapUp q j =
     (let i = (j - 1) div 2 in
      if i = j then Some q
      else do {
        less \<leftarrow> Less q j i;
        if \<not> less then Some q
        else do { q \<leftarrow> Swap q i j; heapUp q i }
      })"
  by pat_completeness auto

termination heapUp
  by (relation "measure snd") auto

declare heapUp.simps [simp del]

function heapDown :: "expirationQueue \<Rightarrow> nat \<Rightarrow> nat \<Rightarrow> (expirationQueue \<times> nat) option" where
  "heapDown q i n =
     (let j1 = 2 * i + 1; j2 = j1 + 1 in
      if j1 \<ge> n then Some (q, i)
      else do {
        right \<leftarrow> (if j2 < n then Less q j2 j1 else Some False);
        let j = (if right then j2 else j1);
        less \<leftarrow> Less q j i;
        if \<not> less then Some (q, i)
        else do { q \<leftarrow> Swap q i j; heapDown q j n }
      })"
  by pat_completeness auto

termination heapDown
  by (relation "measure (\<lambda>(q, i, n). n - i)") auto

declare heapDown.simps [simp del]

definition heapPush :: "expirationQueue \<Rightarrow> expiration \<Rightarrow> expirationQueue option" where
  "heapPush q e = do { q \<leftarrow> Push q e; heapUp q (q_Len q - 1) }"

definition heapRemove :: "expirationQueue \<Rightarrow> nat \<Rightarrow> (expiration \<times> expirationQueue) option" where
  "heapRemove q i =
     (let n = q_Len q - 1 in
      if n \<noteq> i then do {
        q \<leftarrow> Swap q i n;
        (q, k) \<leftarrow> heapDown q i n;
        q \<leftarrow> (if k > i then Some q else heapUp q i);
        Pop q
      } else Pop q)"

definition heapFix :: "expirationQueue \<Rightarrow> nat \<Rightarrow> expirationQueue option" where
  "heapFix q i = do {
     (q, k) \<leftarrow> heapDown q i (q_Len q);
     if k > i then Some q else heapUp q i
   }"

text \<open>Setting or, with the zero stamp, clearing the deadline of a key.\<close>

definition schedule :: "expirationQueue \<Rightarrow> bytes \<Rightarrow> stamp \<Rightarrow> expirationQueue option" where
  "schedule q key at =
     (if at = 0 then
        (case q_positions q of None \<Rightarrow> Some q
         | Some m \<Rightarrow> (case m key of None \<Rightarrow> Some q | Some i \<Rightarrow> map_option snd (heapRemove q i)))
      else
        let m = (case q_positions q of None \<Rightarrow> Map.empty | Some m \<Rightarrow> m); q = q\<lparr>q_positions := Some m\<rparr> in
        (case m key of
           Some i \<Rightarrow>
             if i \<ge> length (q_items q) then None
             else if x_at (q_items q ! i) = at then Some q
             else heapFix (q\<lparr>q_items := (q_items q)[i := (q_items q ! i)\<lparr>x_at := at\<rparr>]\<rparr>) i
         | None \<Rightarrow> heapPush q \<lparr>x_key = key, x_at = at\<rparr>))"

subsection \<open>Invariant and abstraction\<close>

definition pos_ok :: "expirationQueue \<Rightarrow> bool" where
  "pos_ok q \<longleftrightarrow> (\<exists>m. q_positions q = Some m
     \<and> (\<forall>k i. m k = Some i \<longleftrightarrow> i < length (q_items q) \<and> x_key (q_items q ! i) = k))"

definition par :: "nat \<Rightarrow> nat" where
  "par k = (k - 1) div 2"

abbreviation due :: "expirationQueue \<Rightarrow> nat \<Rightarrow> stamp" where
  "due q i \<equiv> x_at (q_items q ! i)"

definition heap_upto :: "expirationQueue \<Rightarrow> nat \<Rightarrow> bool" where
  "heap_upto q n \<longleftrightarrow> (\<forall>k. 0 < k \<and> k < n \<longrightarrow> due q (par k) \<le> due q k)"

definition queue_ok :: "expirationQueue \<Rightarrow> bool" where
  "queue_ok q \<longleftrightarrow> (q_items q = [] \<and> q_positions q = None \<or> pos_ok q) \<and> heap_upto q (length (q_items q))"

definition deadlines :: "expirationQueue \<Rightarrow> bytes \<rightharpoonup> stamp" where
  "deadlines q = map_of (map (\<lambda>e. (x_key e, x_at e)) (q_items q))"

lemma pos_distinct: "pos_ok q \<Longrightarrow> distinct (map x_key (q_items q))"
  unfolding pos_ok_def distinct_conv_nth by (metis length_map nth_map option.inject)

lemma deadlines_Some:
  assumes "distinct (map x_key (q_items q))"
  shows "deadlines q k = Some t \<longleftrightarrow> (\<exists>i < length (q_items q). x_key (q_items q ! i) = k \<and> due q i = t)"
proof -
  have d: "distinct (map fst (map (\<lambda>e. (x_key e, x_at e)) (q_items q)))" using assms by (simp add: comp_def)
  show ?thesis unfolding deadlines_def map_of_eq_Some_iff [OF d] in_set_conv_nth by auto
qed

lemma deadlines_None: "deadlines q k = None \<longleftrightarrow> k \<notin> x_key ` set (q_items q)"
  by (simp add: deadlines_def map_of_eq_None_iff image_image)

lemma queue_distinct: "queue_ok q \<Longrightarrow> distinct (map x_key (q_items q))"
  using pos_distinct by (auto simp: queue_ok_def)

text \<open>Two queues with the same deadlines in another heap order.\<close>

definition same_items :: "expirationQueue \<Rightarrow> expirationQueue \<Rightarrow> bool" where
  "same_items q q' \<longleftrightarrow> pos_ok q' \<and> mset (q_items q') = mset (q_items q)"

lemma same_refl: "pos_ok q \<Longrightarrow> same_items q q"
  by (simp add: same_items_def)

lemma same_trans: "same_items a b \<Longrightarrow> same_items b c \<Longrightarrow> same_items a c"
  by (simp add: same_items_def)

lemma same_length: "same_items q q' \<Longrightarrow> length (q_items q') = length (q_items q)"
  unfolding same_items_def by (metis size_mset)

lemma same_deadlines:
  assumes "same_items q q'"
  shows "deadlines q' = deadlines q"
proof
  fix k
  have d: "distinct (map x_key (q_items q'))" using assms pos_distinct by (simp add: same_items_def)
  have "mset (map x_key (q_items q')) = mset (map x_key (q_items q))" using assms by (simp add: same_items_def)
  then have d2: "distinct (map x_key (q_items q))" using d mset_eq_imp_distinct_iff by blast
  have s: "set (q_items q') = set (q_items q)" using assms mset_eq_setD by (auto simp: same_items_def)
  have "deadlines q' k = Some t \<longleftrightarrow> deadlines q k = Some t" for t
    using s unfolding deadlines_Some [OF d] deadlines_Some [OF d2] by (metis in_set_conv_nth)
  then show "deadlines q' k = deadlines q k" by (metis not_Some_eq)
qed

lemma Swap_same:
  assumes "pos_ok q" "i < length (q_items q)" "j < length (q_items q)"
  obtains q' where "Swap q i j = Some q'" "same_items q q'" "q_items q' = (q_items q)[i := q_items q ! j, j := q_items q ! i]"
proof -
  obtain m where m: "q_positions q = Some m" "\<forall>k l. m k = Some l \<longleftrightarrow> l < length (q_items q) \<and> x_key (q_items q ! l) = k"
    using assms(1) by (auto simp: pos_ok_def)
  let ?is = "(q_items q)[i := q_items q ! j, j := q_items q ! i]"
  let ?q = "\<lparr>q_items = ?is, q_positions = Some (m(x_key (?is ! i) \<mapsto> i, x_key (?is ! j) \<mapsto> j))\<rparr>"
  have inj: "x_key (q_items q ! a) = x_key (q_items q ! b) \<longleftrightarrow> a = b" if "a < length (q_items q)" "b < length (q_items q)" for a b
    using m(2) that by (metis option.inject)
  have "(m(x_key (?is ! i) \<mapsto> i, x_key (?is ! j) \<mapsto> j)) k = Some l \<longleftrightarrow> l < length ?is \<and> x_key (?is ! l) = k" for k l
    using assms(2,3) m(2) inj by (auto simp: nth_list_update split: if_splits)
  then have "pos_ok ?q" by (simp add: pos_ok_def)
  moreover have "mset ?is = mset (q_items q)" by (rule mset_swap [OF assms(3,2)])
  ultimately show ?thesis using that [of ?q] m(1) assms(2,3) by (simp add: Swap_def Let_def same_items_def)
qed

subsection \<open>Sifting\<close>

definition moved :: "nat \<Rightarrow> expirationQueue \<Rightarrow> expirationQueue \<Rightarrow> bool" where
  "moved n q q' \<longleftrightarrow> same_items q q' \<and> drop n (q_items q') = drop n (q_items q)"

lemma moved_trans: "moved n a b \<Longrightarrow> moved n b c \<Longrightarrow> moved n a c"
  using same_trans by (auto simp: moved_def)

lemma moved_length: "moved n q q' \<Longrightarrow> length (q_items q') = length (q_items q)"
  by (simp add: moved_def same_length)

lemma Swap_moved:
  assumes "pos_ok q" "i < n" "j < n" "n \<le> length (q_items q)"
  obtains q' where "Swap q i j = Some q'" "moved n q q'" "pos_ok q'"
    "\<forall>k < length (q_items q). due q' k = (if k = i then due q j else if k = j then due q i else due q k)"
proof -
  obtain q' where q': "Swap q i j = Some q'" "same_items q q'" "q_items q' = (q_items q)[i := q_items q ! j, j := q_items q ! i]"
    using Swap_same [of q i j] assms by auto
  show ?thesis by (rule that [OF q'(1)]) (use q'(2,3) assms in \<open>auto simp: moved_def same_items_def nth_list_update drop_update_cancel\<close>)
qed

definition up_inv :: "expirationQueue \<Rightarrow> nat \<Rightarrow> nat \<Rightarrow> bool" where
  "up_inv q n j \<longleftrightarrow> (\<forall>k. 0 < k \<and> k < n \<and> k \<noteq> j \<longrightarrow> due q (par k) \<le> due q k)
     \<and> (\<forall>k. 0 < j \<and> 0 < k \<and> k < n \<and> par k = j \<longrightarrow> due q (par j) \<le> due q k)"

lemma par_less: "0 < k \<Longrightarrow> par k < k"
  by (simp add: par_def)

lemma heapUp_ok:
  assumes "pos_ok q" "j < n" "n \<le> length (q_items q)" "up_inv q n j"
  shows "\<exists>q'. heapUp q j = Some q' \<and> moved n q q' \<and> heap_upto q' n"
  using assms
proof (induction j arbitrary: q rule: less_induct)
  case (less j)
  let ?i = "par j"
  show ?case
  proof (cases "j = 0 \<or> due q ?i \<le> due q j")
    case True
    then have "heapUp q j = Some q" using less.prems(2,3) by (subst heapUp.simps) (auto simp: Let_def Less_def par_def)
    moreover have "heap_upto q n" using True less.prems(4) by (auto simp: up_inv_def heap_upto_def)
    ultimately show ?thesis using less.prems(1) by (auto simp: moved_def same_refl)
  next
    case False
    then have j: "0 < j" and lt: "due q j < due q ?i" by auto
    have ij: "?i < j" using par_less [OF j] .
    obtain q1 where q1: "Swap q ?i j = Some q1" "moved n q q1" "pos_ok q1"
      "\<forall>k < length (q_items q). due q1 k = (if k = ?i then due q j else if k = j then due q ?i else due q k)"
      using Swap_moved [OF less.prems(1) _ less.prems(2,3), of ?i] ij less.prems(2) by auto
    have a: "due q1 k = (if k = ?i then due q j else if k = j then due q ?i else due q k)" if "k < n" for k
      using q1(4) that less.prems(3) by simp
    have "up_inv q1 n ?i" unfolding up_inv_def
    proof (intro conjI allI impI)
      fix k assume k: "0 < k \<and> k < n \<and> k \<noteq> ?i"
      then have pk: "par k < n" using par_less [of k] by simp
      show "due q1 (par k) \<le> due q1 k"
      proof (cases "k = j")
        case True
        then show ?thesis using a [of k] a [of "par k"] k pk ij lt by simp
      next
        case kj: False
        have old: "due q (par k) \<le> due q k" using less.prems(4) k kj by (simp add: up_inv_def)
        have "par k = j \<Longrightarrow> due q ?i \<le> due q k" using less.prems(4) k j by (simp add: up_inv_def)
        then show ?thesis using a [of k] a [of "par k"] k pk kj old lt by auto
      qed
    next
      fix k assume k: "0 < ?i \<and> 0 < k \<and> k < n \<and> par k = ?i"
      have pi: "par ?i < ?i" using par_less k by simp
      have pij: "due q (par ?i) \<le> due q ?i" using less.prems(4) k ij less.prems(2) by (simp add: up_inv_def)
      have "k \<noteq> j \<Longrightarrow> due q ?i \<le> due q k" using less.prems(4) k by (auto simp: up_inv_def)
      moreover have "par ?i < n" "par ?i \<noteq> j" "k \<noteq> ?i" using pi ij less.prems(2) k par_less [of k] by auto
      ultimately show "due q1 (par ?i) \<le> due q1 k" using a [of k] a [of "par ?i"] k pi pij by auto
    qed
    then obtain q2 where q2: "heapUp q1 ?i = Some q2" "moved n q1 q2" "heap_upto q2 n"
      using less.IH [OF ij q1(3)] ij less.prems(2,3) moved_length [OF q1(2)] by auto
    have "heapUp q j = heapUp q1 ?i" using lt ij less.prems(2,3) q1(1) by (subst heapUp.simps) (auto simp: Let_def Less_def par_def)
    then show ?thesis using q2 moved_trans [OF q1(2)] by auto
  qed
qed

definition down_inv :: "expirationQueue \<Rightarrow> nat \<Rightarrow> nat \<Rightarrow> bool" where
  "down_inv q n i \<longleftrightarrow> (\<forall>k. 0 < k \<and> k < n \<and> k \<noteq> i \<and> par k \<noteq> i \<longrightarrow> due q (par k) \<le> due q k)
     \<and> (\<forall>k. 0 < i \<and> 0 < k \<and> k < n \<and> par k = i \<longrightarrow> due q (par i) \<le> due q k)"

lemma children: "0 < k \<Longrightarrow> par k = i \<Longrightarrow> k = 2 * i + 1 \<or> k = 2 * i + 2"
  by (auto simp: par_def)

text \<open>One step of the downward loop: stop with the children in order, or swap with the smaller child.\<close>

lemma heapDown_step:
  assumes "pos_ok q" "i < n" "n \<le> length (q_items q)" "down_inv q n i"
  obtains "heapDown q i n = Some (q, i)" "\<forall>k. 0 < k \<and> k < n \<and> par k = i \<longrightarrow> due q i \<le> due q k"
  | j q1 where "heapDown q i n = heapDown q1 j n" "i < j" "j < n" "moved n q q1" "pos_ok q1" "down_inv q1 n j"
      "due q1 (par j) \<le> due q1 j" "0 < i \<Longrightarrow> due q1 (par i) \<le> due q1 i"
proof -
  let ?j1 = "2 * i + 1" let ?j2 = "2 * i + 2"
  define j where "j = (if ?j2 < n \<and> due q ?j2 < due q ?j1 then ?j2 else ?j1)"
  show ?thesis
  proof (cases "?j1 < n \<and> due q j < due q i")
    case False
    have "heapDown q i n = Some (q, i)" using False assms(2,3) by (subst heapDown.simps) (auto simp: Let_def Less_def j_def)
    moreover have "due q i \<le> due q k" if k: "0 < k" "k < n" "par k = i" for k
      using children [OF k(1,3)] False k(2) by (auto simp: j_def split: if_splits)
    then have "\<forall>k. 0 < k \<and> k < n \<and> par k = i \<longrightarrow> due q i \<le> due q k" by blast
    ultimately show ?thesis by (rule that(1))
  next
    case True
    have j: "j = ?j1 \<or> j = ?j2" "j < n" using True by (auto simp: j_def)
    have pj: "par j = i" "i < j" using j(1) by (auto simp: par_def)
    have small: "due q j \<le> due q k" if k: "0 < k" "k < n" "par k = i" for k
      using children [OF k(1,3)] k(2) by (auto simp: j_def)
    obtain q1 where q1: "Swap q i j = Some q1" "moved n q q1" "pos_ok q1"
      "\<forall>k < length (q_items q). due q1 k = (if k = i then due q j else if k = j then due q i else due q k)"
      using Swap_moved [OF assms(1,2) j(2) assms(3)] by blast
    have a: "due q1 k = (if k = i then due q j else if k = j then due q i else due q k)" if "k < n" for k using q1(4) that assms(3) by simp
    have "heapDown q i n = heapDown q1 j n" using True q1(1) assms(2,3) by (subst heapDown.simps) (auto simp: Let_def Less_def j_def)
    moreover have "down_inv q1 n j" unfolding down_inv_def
    proof (intro conjI allI impI)
      fix k assume k: "0 < k \<and> k < n \<and> k \<noteq> j \<and> par k \<noteq> j"
      then have pk: "par k < n" using par_less [of k] by simp
      show "due q1 (par k) \<le> due q1 k"
      proof (cases "par k = i")
        case True
        then show ?thesis using a [of k] a [of i] k assms(2) small [of k] par_less [of k] by auto
      next
        case pi: False
        show ?thesis
        proof (cases "k = i")
          case ki: True
          have "due q (par i) \<le> due q j" using assms(4) k ki j(2) pj by (auto simp: down_inv_def)
          then show ?thesis using a [of k] a [of "par k"] ki k pk pj par_less [of i] by auto
        next
          case False
          then have "due q (par k) \<le> due q k" using assms(4) k pi by (simp add: down_inv_def)
          then show ?thesis using a [of k] a [of "par k"] k pk pi False by simp
        qed
      qed
    next
      fix k assume k: "0 < j \<and> 0 < k \<and> k < n \<and> par k = j"
      have kn: "k \<noteq> i" "k \<noteq> j" using k par_less [of k] pj by auto
      have "due q (par k) \<le> due q k" using assms(4) k kn pj by (auto simp: down_inv_def)
      then show "due q1 (par j) \<le> due q1 k" using a [of k] a [of i] kn k pj assms(2) by simp
    qed
    moreover have "due q1 (par j) \<le> due q1 j" using a [of i] a [of j] pj j(2) assms(2) True by simp
    moreover have "due q1 (par i) \<le> due q1 i" if "0 < i"
    proof -
      have "due q (par i) \<le> due q j" using assms(4) that j(2) pj by (auto simp: down_inv_def)
      moreover have "par i < i" using par_less [OF that] .
      ultimately show ?thesis using a [of i] a [of "par i"] assms(2) pj by auto
    qed
    ultimately show ?thesis using that(2) [of q1 j] pj j(2) q1(2,3) by blast
  qed
qed

lemma heapDown_good:
  assumes "pos_ok q" "i < n" "n \<le> length (q_items q)" "down_inv q n i" "0 < i \<Longrightarrow> due q (par i) \<le> due q i"
  shows "\<exists>q' k. heapDown q i n = Some (q', k) \<and> i \<le> k \<and> moved n q q' \<and> pos_ok q' \<and> heap_upto q' n"
  using assms
proof (induction "n - i" arbitrary: q i rule: less_induct)
  case less
  from less.prems(1-4) show ?case
  proof (cases rule: heapDown_step)
    case 1
    have "heap_upto q n" using 1(2) less.prems(4,5) by (auto simp: heap_upto_def down_inv_def)
    then show ?thesis using 1(1) less.prems(1) by (auto simp: moved_def same_refl)
  next
    case (2 j q1)
    then have "n - j < n - i" by simp
    from less.hyps [OF this 2(5,3) _ 2(6)] obtain q' k where "heapDown q1 j n = Some (q', k)" "j \<le> k" "moved n q1 q'" "pos_ok q'" "heap_upto q' n"
      using 2 less.prems(3) moved_length [OF 2(4)] by auto
    then show ?thesis using 2 moved_trans [OF 2(4)] by auto
  qed
qed

text \<open>Restoring the heap after the item at \<open>i\<close> changed: down, and up if it did not move.\<close>

lemma restore_ok:
  assumes "pos_ok q" "i < n" "n \<le> length (q_items q)" "down_inv q n i"
  obtains q1 k q' where "heapDown q i n = Some (q1, k)" "(if k > i then Some q1 else heapUp q1 i) = Some q'" "moved n q q'" "heap_upto q' n"
proof (cases rule: heapDown_step [OF assms])
  case 1
  have "up_inv q n i" using assms(4) 1(2) by (auto simp: up_inv_def down_inv_def)
  then show ?thesis using that [OF 1(1)] heapUp_ok [OF assms(1-3)] by auto
next
  case (2 j q1)
  from heapDown_good [OF 2(5,3) _ 2(6,7)] obtain q' k where "heapDown q1 j n = Some (q', k)" "j \<le> k" "moved n q1 q'" "heap_upto q' n"
    using moved_length [OF 2(4)] assms(3) by auto
  then show ?thesis using that [of q' k q'] 2 moved_trans [OF 2(4)] by auto
qed

subsection \<open>Scheduling\<close>

lemma heap_old: "heap_upto q n \<Longrightarrow> 0 < k \<Longrightarrow> k < n \<Longrightarrow> due q (par k) \<le> due q k"
  by (simp add: heap_upto_def)

lemma moved_last:
  assumes "moved n q q'" "n < length (q_items q)"
  shows "q_items q' ! n = q_items q ! n"
proof -
  have "drop n (q_items q') ! 0 = drop n (q_items q) ! 0" using assms(1) by (simp add: moved_def)
  then show ?thesis using assms moved_length [OF assms(1)] by simp
qed

lemma image_nth_neq: "x \<notin> f ` set ys \<Longrightarrow> i < length ys \<Longrightarrow> f (ys ! i) \<noteq> x"
  by auto

lemma Pop_ok:
  assumes "pos_ok q" "q_items q \<noteq> []" "heap_upto q (length (q_items q) - 1)"
  obtains q' where "Pop q = Some (List.last (q_items q), q')" "queue_ok q'" "deadlines q' = (deadlines q)(x_key (List.last (q_items q)) := None)"
proof -
  obtain m where m: "q_positions q = Some m" "\<forall>k i. m k = Some i \<longleftrightarrow> i < length (q_items q) \<and> x_key (q_items q ! i) = k"
    using assms(1) by (auto simp: pos_ok_def)
  obtain ys e where it: "q_items q = ys @ [e]" using assms(2) by (cases "q_items q" rule: rev_exhaust) auto
  let ?q = "\<lparr>q_items = ys, q_positions = Some (m(x_key e := None))\<rparr>"
  have old: "m k = Some i \<longleftrightarrow> i < length ys \<and> x_key (ys ! i) = k \<or> i = length ys \<and> x_key e = k" for k i
    using m(2) by (auto simp: it nth_append less_Suc_eq)
  have fresh: "x_key e \<notin> x_key ` set ys" using pos_distinct [OF assms(1)] by (simp add: it)
  have "(m(x_key e := None)) k = Some i \<longleftrightarrow> i < length ys \<and> x_key (ys ! i) = k" for k i using old image_nth_neq [OF fresh] by auto
  then have pos: "pos_ok ?q" by (simp add: pos_ok_def)
  have h: "heap_upto ?q (length ys)" unfolding heap_upto_def
  proof (intro allI impI)
    fix k assume k: "0 < k \<and> k < length ys"
    then have "par k < length ys" using par_less [of k] by simp
    then show "due ?q (par k) \<le> due ?q k" using heap_old [OF assms(3), of k] k by (simp add: it nth_append)
  qed
  have "map_of (map (\<lambda>x. (x_key x, x_at x)) ys) (x_key e) = None" using fresh by (auto simp: map_of_eq_None_iff)
  then have "deadlines ?q = (deadlines q)(x_key e := None)" by (auto simp: deadlines_def it map_add_def fun_eq_iff split: option.splits)
  then show ?thesis using that [of ?q] m(1) pos h by (simp add: Pop_def queue_ok_def it)
qed

lemma heapPush_ok:
  assumes "pos_ok q" "heap_upto q (length (q_items q))" "deadlines q key = None"
  obtains q' where "heapPush q \<lparr>x_key = key, x_at = t\<rparr> = Some q'" "queue_ok q'" "deadlines q' = (deadlines q)(key \<mapsto> t)"
proof -
  obtain m where m: "q_positions q = Some m" "\<forall>k i. m k = Some i \<longleftrightarrow> i < length (q_items q) \<and> x_key (q_items q ! i) = k"
    using assms(1) by (auto simp: pos_ok_def)
  let ?n = "length (q_items q)" let ?e = "\<lparr>x_key = key, x_at = t\<rparr>"
  let ?q = "\<lparr>q_items = q_items q @ [?e], q_positions = Some (m(key \<mapsto> ?n))\<rparr>"
  have fresh: "key \<notin> x_key ` set (q_items q)" using assms(3) by (simp add: deadlines_None)
  have "(m(key \<mapsto> ?n)) k = Some i \<longleftrightarrow> i < length (q_items ?q) \<and> x_key (q_items ?q ! i) = k" for k i
    using m(2) image_nth_neq [OF fresh] by (auto simp: nth_append less_Suc_eq)
  then have pos: "pos_ok ?q" by (simp add: pos_ok_def)
  have "up_inv ?q (?n + 1) ?n" unfolding up_inv_def
  proof (intro conjI allI impI)
    fix k assume k: "0 < k \<and> k < ?n + 1 \<and> k \<noteq> ?n"
    then have "par k < ?n" using par_less [of k] by simp
    then show "due ?q (par k) \<le> due ?q k" using heap_old [OF assms(2), of k] k by (simp add: nth_append)
  next
    fix k assume "0 < ?n \<and> 0 < k \<and> k < ?n + 1 \<and> par k = ?n"
    then show "due ?q (par ?n) \<le> due ?q k" using par_less [of k] by simp
  qed
  then obtain q' where q': "heapUp ?q ?n = Some q'" "moved (?n + 1) ?q q'" "heap_upto q' (?n + 1)"
    using heapUp_ok [OF pos, of ?n "?n + 1"] by auto
  have "deadlines ?q = (deadlines q)(key \<mapsto> t)"
    using assms(3) by (auto simp: deadlines_def map_add_def fun_eq_iff split: option.splits)
  then have "deadlines q' = (deadlines q)(key \<mapsto> t)" using same_deadlines [of ?q q'] q'(2) by (simp add: moved_def)
  moreover have "queue_ok q'" using q'(2,3) moved_length [OF q'(2)] by (simp add: queue_ok_def moved_def same_items_def)
  ultimately show ?thesis using that [of q'] q'(1) m(1) by (simp add: heapPush_def Push_def q_Len_def)
qed

lemma down_inv_change:
  assumes "heap_upto q n" "i < n" "\<forall>k. k < n \<and> k \<noteq> i \<longrightarrow> due q1 k = due q k"
  shows "down_inv q1 n i"
  unfolding down_inv_def
proof (intro conjI allI impI)
  fix k assume k: "0 < k \<and> k < n \<and> k \<noteq> i \<and> par k \<noteq> i"
  then have "par k < n" using par_less [of k] by simp
  then show "due q1 (par k) \<le> due q1 k" using heap_old [OF assms(1), of k] assms(3) k by simp
next
  fix k assume k: "0 < i \<and> 0 < k \<and> k < n \<and> par k = i"
  have "par i < i" "i < k" using par_less [of i] par_less [of k] k by simp_all
  moreover have "due q (par i) \<le> due q i" "due q i \<le> due q k" using heap_old [OF assms(1)] assms(2) k by auto
  ultimately show "due q1 (par i) \<le> due q1 k" using assms(3) k by simp
qed

lemma heapFix_ok:
  fixes t :: stamp
  assumes "pos_ok q" "heap_upto q (length (q_items q))" "i < length (q_items q)"
  defines "q1 \<equiv> q\<lparr>q_items := (q_items q)[i := (q_items q ! i)\<lparr>x_at := t\<rparr>]\<rparr>"
  obtains q' where "heapFix q1 i = Some q'" "queue_ok q'" "deadlines q' = (deadlines q)(x_key (q_items q ! i) \<mapsto> t)"
proof -
  let ?n = "length (q_items q)"
  have n1: "length (q_items q1) = ?n" by (simp add: q1_def)
  have key: "x_key (q_items q1 ! k) = x_key (q_items q ! k)" if "k < ?n" for k using that by (cases "k = i") (simp_all add: q1_def)
  have pos: "pos_ok q1" using assms(1) key n1 by (auto simp: pos_ok_def q1_def)
  have at1: "\<forall>k. k < ?n \<and> k \<noteq> i \<longrightarrow> due q1 k = due q k" "due q1 i = t" using assms(3) by (simp_all add: q1_def)
  have di: "down_inv q1 ?n i" by (rule down_inv_change [OF assms(2,3) at1(1)])
  obtain q2 k q' where r: "heapDown q1 i ?n = Some (q2, k)" "(if k > i then Some q2 else heapUp q2 i) = Some q'" "moved ?n q1 q'" "heap_upto q' ?n"
    using restore_ok [OF pos assms(3) _ di] n1 by auto
  have "deadlines q1 = (deadlines q)(x_key (q_items q ! i) \<mapsto> t)"
  proof
    fix k
    have d: "distinct (map x_key (q_items q1))" "distinct (map x_key (q_items q))" using pos_distinct pos assms(1) by blast+
    have hit: "deadlines q1 (x_key (q_items q ! i)) = Some t"
      using deadlines_Some [OF d(1)] n1 key [OF assms(3)] at1(2) assms(3) by auto
    have "deadlines q1 k = Some v \<longleftrightarrow> ((deadlines q)(x_key (q_items q ! i) \<mapsto> t)) k = Some v" for v
    proof (cases "k = x_key (q_items q ! i)")
      case False
      have "(a < ?n \<and> x_key (q_items q1 ! a) = k \<and> due q1 a = v) \<longleftrightarrow> (a < ?n \<and> x_key (q_items q ! a) = k \<and> due q a = v)" for a
        using key [of a] at1(1) False by (cases "a = i") auto
      then show ?thesis using False by (simp add: deadlines_Some [OF d(1)] deadlines_Some [OF d(2)] n1)
    qed (simp add: hit)
    then show "deadlines q1 k = ((deadlines q)(x_key (q_items q ! i) \<mapsto> t)) k" by (metis not_Some_eq)
  qed
  then have "deadlines q' = (deadlines q)(x_key (q_items q ! i) \<mapsto> t)" using same_deadlines [of q1 q'] r(3) by (simp add: moved_def)
  moreover have "queue_ok q'" using r(3,4) moved_length [OF r(3)] n1 by (simp add: queue_ok_def moved_def same_items_def)
  ultimately show ?thesis using that [of q'] r(1,2) n1 by (simp add: heapFix_def q_Len_def)
qed

lemma heapRemove_ok:
  assumes "pos_ok q" "heap_upto q (length (q_items q))" "i < length (q_items q)"
  obtains q' where "heapRemove q i = Some (q_items q ! i, q')" "queue_ok q'" "deadlines q' = (deadlines q)(x_key (q_items q ! i) := None)"
proof -
  define n where "n = length (q_items q) - 1"
  have n: "length (q_items q) = n + 1" "i \<le> n" "q_Len q - 1 = n" using assms(3) by (simp_all add: n_def q_Len_def)
  show ?thesis
  proof (cases "n = i")
    case True
    have "q_items q \<noteq> []" "heap_upto q (length (q_items q) - 1)" using assms(2,3) by (auto simp: heap_upto_def)
    then obtain q' where "Pop q = Some (List.last (q_items q), q')" "queue_ok q'" "deadlines q' = (deadlines q)(x_key (List.last (q_items q)) := None)"
      using Pop_ok [OF assms(1)] by blast
    moreover have "List.last (q_items q) = q_items q ! i" using True n \<open>q_items q \<noteq> []\<close> by (simp add: last_conv_nth)
    ultimately show ?thesis using that [of q'] True unfolding heapRemove_def n(3) by simp
  next
    case False
    then have i: "i < n" using n(2) by simp
    obtain q1 where q1: "Swap q i n = Some q1" "moved (n + 1) q q1" "pos_ok q1"
      "\<forall>k < length (q_items q). due q1 k = (if k = i then due q n else if k = n then due q i else due q k)"
      using Swap_moved [OF assms(1), of i "n + 1" n] i n(1) by auto
    have l1: "length (q_items q1) = n + 1" "q_items q1 ! n = q_items q ! i"
      using q1(1) n(1) i by (auto simp: Swap_def Let_def)
    have "heap_upto q n" using assms(2) n(1) by (simp add: heap_upto_def)
    then have di: "down_inv q1 n i" using i q1(4) n(1) by (intro down_inv_change) auto
    obtain q2 k q3 where r: "heapDown q1 i n = Some (q2, k)" "(if k > i then Some q2 else heapUp q2 i) = Some q3" "moved n q1 q3" "heap_upto q3 n"
      using restore_ok [OF q1(3) i _ di] l1(1) by auto
    have l3: "length (q_items q3) = n + 1" "pos_ok q3" "q_items q3 ! n = q_items q ! i" "q_items q3 \<noteq> []"
      using moved_length [OF r(3)] moved_last [OF r(3)] l1 r(3) by (auto simp: moved_def same_items_def)
    have "heap_upto q3 (length (q_items q3) - 1)" using r(4) l3(1) by simp
    then obtain q' where q': "Pop q3 = Some (List.last (q_items q3), q')" "queue_ok q'" "deadlines q' = (deadlines q3)(x_key (List.last (q_items q3)) := None)"
      using Pop_ok [OF l3(2,4)] by blast
    have "List.last (q_items q3) = q_items q ! i" using l3 by (simp add: last_conv_nth)
    moreover have "deadlines q3 = deadlines q" using same_deadlines [of q q1] same_deadlines [of q1 q3] q1(2) r(3) by (simp add: moved_def)
    ultimately show ?thesis using that [of q'] q' False q1(1) r(1,2) unfolding heapRemove_def n(3) Let_def by simp
  qed
qed

lemma position_of:
  assumes "queue_ok q"
  shows "case q_positions q of None \<Rightarrow> deadlines q = Map.empty
    | Some m \<Rightarrow> pos_ok q \<and> (case m k of None \<Rightarrow> deadlines q k = None
        | Some i \<Rightarrow> i < length (q_items q) \<and> x_key (q_items q ! i) = k \<and> deadlines q k = Some (due q i))"
proof (cases "q_positions q")
  case None
  then have "q_items q = []" using assms by (auto simp: queue_ok_def pos_ok_def)
  then show ?thesis using None by (simp add: deadlines_def)
next
  case (Some m)
  then have p: "pos_ok q" using assms by (auto simp: queue_ok_def)
  then have m: "\<forall>k i. m k = Some i \<longleftrightarrow> i < length (q_items q) \<and> x_key (q_items q ! i) = k" using Some by (auto simp: pos_ok_def)
  have "case m k of None \<Rightarrow> deadlines q k = None
        | Some i \<Rightarrow> i < length (q_items q) \<and> x_key (q_items q ! i) = k \<and> deadlines q k = Some (due q i)"
  proof (cases "m k")
    case None
    have "x_key (q_items q ! i) \<noteq> k" if "i < length (q_items q)" for i
    proof
      assume "x_key (q_items q ! i) = k"
      then have "m k = Some i" using m that by simp
      then show False using None by simp
    qed
    then have "k \<notin> x_key ` set (q_items q)" by (fastforce simp: in_set_conv_nth)
    then show ?thesis using None by (simp add: deadlines_None)
  next
    case (Some i)
    then have i: "i < length (q_items q)" "x_key (q_items q ! i) = k" using m by simp_all
    then have "deadlines q k = Some (due q i)" using deadlines_Some [OF pos_distinct [OF p]] by blast
    then show ?thesis using Some i by simp
  qed
  then show ?thesis using Some p by simp
qed

lemma atFor_deadlines: "queue_ok q \<Longrightarrow> atFor q k = deadlines q k"
  using position_of [of q k] by (auto simp: atFor_def split: option.splits)

lemma schedule_ok:
  assumes "queue_ok q"
  obtains q' where "schedule q k t = Some q'" "queue_ok q'" "deadlines q' = (if t = 0 then (deadlines q)(k := None) else (deadlines q)(k \<mapsto> t))"
proof -
  have h: "heap_upto q (length (q_items q))" using assms by (simp add: queue_ok_def)
  show ?thesis
  proof (cases "q_positions q")
    case None
    then have em: "q_items q = []" "deadlines q = Map.empty" using assms position_of [OF assms] by (auto simp: queue_ok_def pos_ok_def)
    let ?q = "q\<lparr>q_positions := Some Map.empty\<rparr>"
    have "pos_ok ?q" "heap_upto ?q (length (q_items ?q))" "deadlines ?q = Map.empty" using em by (simp_all add: pos_ok_def heap_upto_def deadlines_def)
    then obtain q' where q': "heapPush ?q \<lparr>x_key = k, x_at = t\<rparr> = Some q'" "queue_ok q'" "deadlines q' = [k \<mapsto> t]"
      using heapPush_ok [of ?q k t] by auto
    show ?thesis
    proof (cases "t = 0")
      case True
      then have "schedule q k t = Some q" using None by (simp add: schedule_def)
      then show ?thesis using that [of q] True assms em(2) by simp
    next
      case False
      then have "schedule q k t = Some q'" using None q'(1) by (simp add: schedule_def Let_def)
      then show ?thesis using that [of q'] False q'(2,3) em(2) by simp
    qed
  next
    case (Some m)
    have qq: "q\<lparr>q_positions := Some m\<rparr> = q" using Some by simp
    have p: "pos_ok q" using position_of [OF assms] Some by simp
    show ?thesis
    proof (cases "m k")
      case None
      then have d: "deadlines q k = None" using position_of [OF assms, of k] Some None by simp
      obtain q' where q': "heapPush q \<lparr>x_key = k, x_at = t\<rparr> = Some q'" "queue_ok q'" "deadlines q' = (deadlines q)(k \<mapsto> t)"
        using heapPush_ok [OF p h d] by blast
      have "(deadlines q)(k := None) = deadlines q" using d by auto
      moreover have "schedule q k t = Some (if t = 0 then q else q')" using Some None q'(1) by (simp add: schedule_def Let_def qq)
      ultimately show ?thesis using that [of "if t = 0 then q else q'"] assms q'(2,3) by simp
    next
      case i: (Some i)
      have d: "i < length (q_items q)" "x_key (q_items q ! i) = k" "deadlines q k = Some (due q i)"
        using position_of [OF assms, of k] Some i by simp_all
      obtain q1 where q1: "heapRemove q i = Some (q_items q ! i, q1)" "queue_ok q1" "deadlines q1 = (deadlines q)(k := None)"
        using heapRemove_ok [OF p h d(1)] d(2) by auto
      obtain q2 where q2: "heapFix (q\<lparr>q_items := (q_items q)[i := (q_items q ! i)\<lparr>x_at := t\<rparr>]\<rparr>) i = Some q2" "queue_ok q2" "deadlines q2 = (deadlines q)(k \<mapsto> t)"
        using heapFix_ok [OF p h d(1)] d(2) by metis
      show ?thesis
      proof (cases "t = 0")
        case True
        then show ?thesis using that [of q1] q1 Some i by (simp add: schedule_def)
      next
        case False
        show ?thesis
        proof (cases "due q i = t")
          case True
          then have "(deadlines q)(k \<mapsto> t) = deadlines q" using d(3) by auto
          then show ?thesis using that [of q] False True assms Some i d(1) by (simp add: schedule_def Let_def qq)
        next
          case ne: False
          then show ?thesis using that [of q2] False q2 Some i d(1) by (simp add: schedule_def Let_def qq)
        qed
      qed
    qed
  qed
qed

lemma heap_root:
  assumes "heap_upto q n" "k < n"
  shows "due q 0 \<le> due q k"
  using assms(2)
proof (induction k rule: less_induct)
  case (less k)
  show ?case
  proof (cases "k = 0")
    case False
    then have "par k < k" "due q (par k) \<le> due q k" using par_less [of k] heap_old [OF assms(1), of k] less.prems by simp_all
    then show ?thesis using less.IH [of "par k"] less.prems by simp
  qed simp
qed

lemma earliest:
  assumes "queue_ok q" "q_items q \<noteq> []"
  shows "deadlines q (x_key (q_items q ! 0)) = Some (due q 0) \<and> (\<forall>k t. deadlines q k = Some t \<longrightarrow> due q 0 \<le> t)"
proof -
  note d = deadlines_Some [OF queue_distinct [OF assms(1)]]
  have "heap_upto q (length (q_items q))" using assms(1) by (simp add: queue_ok_def)
  then show ?thesis using assms(2) heap_root by (auto simp: d)
qed

subsection \<open>The interface\<close>

fun scheduleAll :: "('q \<Rightarrow> 'k \<Rightarrow> stamp \<Rightarrow> 'q option) \<Rightarrow> ('k \<times> stamp) list \<Rightarrow> 'q \<Rightarrow> 'q option" where
  "scheduleAll put [] q = Some q"
| "scheduleAll put ((k, t) # ops) q = do { q \<leftarrow> put q k t; scheduleAll put ops q }"

fun deadlinesAfter :: "('k \<times> stamp) list \<Rightarrow> ('k \<rightharpoonup> stamp) \<Rightarrow> 'k \<rightharpoonup> stamp" where
  "deadlinesAfter [] m = m"
| "deadlinesAfter ((k, t) # ops) m = deadlinesAfter ops (if t = 0 then m(k := None) else m(k \<mapsto> t))"

locale deadline_table =
  fixes ok :: "'q \<Rightarrow> bool" and abst :: "'q \<Rightarrow> 'k \<rightharpoonup> stamp" and put :: "'q \<Rightarrow> 'k \<Rightarrow> stamp \<Rightarrow> 'q option"
    and get :: "'q \<Rightarrow> 'k \<Rightarrow> stamp option" and next' :: "'q \<Rightarrow> ('k \<times> stamp) option"
  assumes get_abst: "ok q \<Longrightarrow> get q k = abst q k"
    and put_abst: "ok q \<Longrightarrow> \<exists>q'. put q k t = Some q' \<and> ok q' \<and> abst q' = (if t = 0 then (abst q)(k := None) else (abst q)(k \<mapsto> t))"
    and next_abst: "ok q \<Longrightarrow> (case next' q of None \<Rightarrow> abst q = Map.empty
      | Some (k, t) \<Rightarrow> abst q k = Some t \<and> (\<forall>k' t'. abst q k' = Some t' \<longrightarrow> t \<le> t'))"
begin

lemma run_deadlines: "ok q \<Longrightarrow> \<exists>q'. scheduleAll put ops q = Some q' \<and> ok q' \<and> abst q' = deadlinesAfter ops (abst q)"
proof (induction ops arbitrary: q)
  case (Cons p ops)
  obtain k t where p: "p = (k, t)" by force
  obtain q1 where q1: "put q k t = Some q1" "ok q1" "abst q1 = (if t = 0 then (abst q)(k := None) else (abst q)(k \<mapsto> t))"
    using put_abst [OF Cons.prems] by blast
  from Cons.IH [OF q1(2)] show ?case unfolding p scheduleAll.simps deadlinesAfter.simps q1(1,3) by simp
qed simp

end

definition nextDeadline :: "expirationQueue \<Rightarrow> (bytes \<times> stamp) option" where
  "nextDeadline q = (case q_items q of [] \<Rightarrow> None | e # _ \<Rightarrow> Some (x_key e, x_at e))"

interpretation ttl: deadline_table queue_ok deadlines schedule atFor nextDeadline
proof unfold_locales
  show "\<exists>q'. schedule q k t = Some q' \<and> queue_ok q' \<and> deadlines q' = (if t = 0 then (deadlines q)(k := None) else (deadlines q)(k \<mapsto> t))"
    if "queue_ok q" for q k t using schedule_ok [OF that, of k t] by metis
  show "case nextDeadline q of None \<Rightarrow> deadlines q = Map.empty
      | Some (k, t) \<Rightarrow> deadlines q k = Some t \<and> (\<forall>k' t'. deadlines q k' = Some t' \<longrightarrow> t \<le> t')" if "queue_ok q" for q
    using earliest [OF that] by (cases "q_items q") (auto simp: nextDeadline_def deadlines_def)
qed (rule atFor_deadlines)

lemma emptyQueue_ok: "queue_ok emptyQueue" "deadlines emptyQueue = Map.empty"
  by (simp_all add: emptyQueue_def queue_ok_def heap_upto_def deadlines_def)

text \<open>C10: After any sequence of deadlines set, changed and cleared on an empty queue, no step panics, every key reads its
  current deadline, and the head of the queue is a key with the earliest deadline, or the queue is empty and no key
  has one.\<close>

theorem schedule_refines_deadlines:
  "\<exists>q. scheduleAll schedule ops emptyQueue = Some q \<and> (\<forall>k. atFor q k = deadlinesAfter ops Map.empty k)
     \<and> (case q_items q of [] \<Rightarrow> deadlinesAfter ops Map.empty = Map.empty
        | e # _ \<Rightarrow> deadlinesAfter ops Map.empty (x_key e) = Some (x_at e)
            \<and> (\<forall>k. case deadlinesAfter ops Map.empty k of None \<Rightarrow> True | Some t \<Rightarrow> x_at e \<le> t))"
proof -
  obtain q where q: "scheduleAll schedule ops emptyQueue = Some q" "queue_ok q" "deadlines q = deadlinesAfter ops Map.empty"
    using ttl.run_deadlines [OF emptyQueue_ok(1), of ops] emptyQueue_ok(2) by auto
  show ?thesis using q ttl.get_abst [OF q(2)] ttl.next_abst [OF q(2)]
    by (auto simp: nextDeadline_def split: list.splits option.splits)
qed

end
