(* ===== verification/ArenaUse.thy ===== *)
theory ArenaUse
  imports ArenaCorrect
begin

text \<open>What the store relies on of the arena: one allocation with the exact growth the planner predicts, one free with the
  exact bytes given back, and a write into the bytes a view of a live reference aliases.\<close>

text \<open>The free table appears with the first free and never goes away.\<close>

lemma setHead_none [simp]: "a_free (setHead a b x) = None \<longleftrightarrow> a_free a = None"
  by (simp add: setHead_def)

lemma setHoles_none [simp]: "a_free (setHoles a x) = None \<longleftrightarrow> a_free a = None"
  by (simp add: setHoles_def)

lemma takeBlock_none:
  assumes "takeBlock a b block = Some (s, off, a')"
  shows "a_free a' = None \<longleftrightarrow> a_free a = None"
proof -
  have "a_free a' = None \<longleftrightarrow> a_free a = None" if "takeFree a b = Some (s, off, a')" using that by (auto simp: takeFree_def Let_def)
  moreover have "a_free a' = None \<longleftrightarrow> a_free a = None" if "takeHole a block = Some (s, off, a')"
    using that by (auto simp: takeHole_def Let_def split: if_splits)
  moreover have "a_free a' = None \<longleftrightarrow> a_free a = None" if "takeTail a block = Some (s, off, a')"
    using that by (auto simp: takeTail_def growSegments_def Let_def split: if_splits)
  ultimately show ?thesis using assms unfolding takeBlock_def by (auto split: if_splits)
qed

lemma writeBytes_none: "writeBytes a s off bs = Some a' \<Longrightarrow> a_free a' = a_free a"
  by (auto simp: writeBytes_def Let_def split: if_splits)

lemma Alloc_none:
  assumes "Alloc a v = Some (r, a')"
  shows "a_free a' = None \<longleftrightarrow> a_free a = None"
proof (cases "length v = 0")
  case False
  then obtain b block s off a1 a3 where t: "takeBlock a b block = Some (s, off, a1)"
    "writeBytes (snd (nextGeneration a1)) s off (put64 (fst (nextGeneration a1))) = Some a3" "writeBytes a3 s (off + 8) v = Some a'"
    using assms by (auto simp: Alloc_def go_res Let_def split: prod.splits)
  have "a_free (snd (nextGeneration a1)) = a_free a1" by (simp add: nextGeneration_def Let_def)
  then show ?thesis using takeBlock_none [OF t(1)] writeBytes_none [OF t(2)] writeBytes_none [OF t(3)] by simp
qed (use assms in \<open>simp add: Alloc_def\<close>)

lemma live_generation:
  assumes "arena_ok a L" "L r = Some v"
  shows "r_generation r \<noteq> 0 \<and> unat (r_generation r) < 2 ^ 18 \<and> \<not> IsInline r \<and> unat (r_length r) = length v \<and> v \<noteq> []"
proof -
  obtain B F where "arena_inv a B F L" using assms(1) unfolding arena_ok_def by blast
  then have "live_ref a B r v" using assms(2) unfolding arena_inv_def live_ok_def by blast
  then show ?thesis using not_inline [of r] by (simp add: live_ref_def)
qed

lemma Alloc_store:
  assumes ok: "arena_ok a L" and v: "v \<noteq> []" "length v + 8 \<le> maxArenaBlock" and n: "SegmentCount a < 2 ^ 25"
  obtains r a' g where "Alloc a v = Some (r, a')" "L r = None" "arena_ok a' (L(r \<mapsto> v))" "GrowthFor a [length v] = Some g"
    "TotalMemoryBytes a' = TotalMemoryBytes a + g" "a_free a' = None \<longleftrightarrow> a_free a = None" "SegmentCount a' \<le> Suc (SegmentCount a)"
proof -
  obtain B F where inv: "arena_inv a B F L" using ok unfolding arena_ok_def by blast
  have len: "length (a_segments a) < 2 ^ 25" using n by (simp add: SegmentCount_def)
  obtain r a' B' F' where al: "Alloc a v = Some (r, a')" "L r = None" "arena_inv a' B' F' (L(r \<mapsto> v))" "length (a_segments a') \<le> Suc (length (a_segments a))"
    using Alloc_inv [OF inv len v] by blast
  obtain rs d g where g: "AllocAll a [v] = Some (rs, d)" "growthLoop a (growthStart a) (map length [v]) = Some g" "counters_ok a g d"
    using growth_run [OF inv inv growthStart_ok(2,1) [OF inv] _, of "[v]"] v(2) len by auto
  have "d = a'" using g(1) al(1) by simp
  then have gf: "GrowthFor a [length v] = Some (g_growth g)" "MemoryBytes a' = MemoryBytes a + g_growth g"
    using g(2,3) by (simp_all add: GrowthFor_def counters_ok_def)
  have none: "a_free a' = None \<longleftrightarrow> a_free a = None" by (rule Alloc_none [OF al(1)])
  then have t: "TotalMemoryBytes a' = TotalMemoryBytes a + g_growth g" using gf(2) by (simp add: TotalMemoryBytes_def)
  have "arena_ok a' (L(r \<mapsto> v))" unfolding arena_ok_def using al(3) by blast
  then show ?thesis by (rule that [OF al(1,2) _ gf(1) t none]) (use al(4) in \<open>simp add: SegmentCount_def\<close>)
qed

lemma Free_store:
  assumes ok: "arena_ok a L" and L: "L r = Some v"
  obtains n a' where "Free a r = Some (n, a')" "arena_ok a' (L(r := None))" "TotalMemoryBytes a' + n = TotalMemoryBytes a + FreeGrowth a r"
    "SegmentCount a' = SegmentCount a"
proof -
  obtain B F where inv: "arena_inv a B F L" using ok unfolding arena_ok_def by blast
  have g: "r_generation r \<noteq> 0" "\<not> IsInline r" using live_generation [OF ok L] by simp_all
  obtain n a' B' F' where f: "Free a r = Some (n, a')" "arena_inv a' B' F' (L(r := None))" "length (a_segments a') = length (a_segments a)"
    "MemoryBytes a' + n = MemoryBytes a" "a_free a' \<noteq> None" using Free_inv [OF inv L] by blast
  have t: "TotalMemoryBytes a' + n = TotalMemoryBytes a + FreeGrowth a r"
    using f(4,5) g by (cases "a_free a") (simp_all add: TotalMemoryBytes_def FreeGrowth_def)
  have "arena_ok a' (L(r := None))" unfolding arena_ok_def using f(2) by blast
  then show ?thesis by (rule that [OF f(1) _ t]) (use f(3) in \<open>simp add: SegmentCount_def\<close>)
qed

subsection \<open>Writing through a view\<close>

text \<open>A view is a slice of the segment: storing into it changes the bytes behind the reference in place.\<close>

definition viewWrite :: "Arena \<Rightarrow> Ref \<Rightarrow> bytes \<Rightarrow> Arena option" where
  "viewWrite a r bs = writeBytes a (unat (r_segment r)) (unat (r_offset r) + 8) bs"

lemma viewWrite_store:
  assumes ok: "arena_ok a L" and L: "L r = Some v" and len: "length v' = length v"
  obtains a' where "viewWrite a r v' = Some a'" "arena_ok a' (L(r \<mapsto> v'))" "TotalMemoryBytes a' = TotalMemoryBytes a"
    "SegmentCount a' = SegmentCount a"
proof -
  obtain B F where inv: "arena_inv a B F L" using ok unfolding arena_ok_def by blast
  have sh: "shape_ok a" and bo: "blocks_ok a B" and fo: "free_ok a B F" and lo: "live_ok a B F L"
    using inv by (simp_all add: arena_inv_def)
  have lr: "live_ref a B r v" and nf: "\<forall>b < freeBucketCount. ref_at r \<notin> set (F b)" using lo L unfolding live_ok_def by blast+
  obtain b block where sc: "sizeClass (length v) = Some (b, block)" "B (ref_at r) = Some block" using lr unfolding live_ref_def by blast
  define s off where "s = unat (r_segment r)" and "off = unat (r_offset r)"
  have rat: "ref_at r = (s, off)" by (simp add: ref_at_def s_def off_def)
  have cl: "length v + 8 \<le> block" using sizeClass_SomeD [OF sc(1)] by (simp add: class_ok_def)
  have pos: "s < length (a_segments a)" "off + block \<le> length (dat a s)" using bo sc(2) unfolding rat blocks_ok_def by blast+
  obtain a' where w: "writeBytes a s (off + 8) v' = Some a'" "same_layout a a'" "a_free a' = a_free a" "a_generation a' = a_generation a"
    "bytes_at a' s (off + 8) (length v') = v'"
    "\<And>t p n. t \<noteq> s \<or> p + n \<le> off + 8 \<or> off + 8 + length v' \<le> p \<Longrightarrow> bytes_at a' t p n = bytes_at a t p n"
    by (rule writeBytes_spec [of s a "off + 8" v']) (use pos cl len in \<open>simp_all, blast?\<close>)
  have ag: "agree a a' B q" if "q \<noteq> (s, off)" for q
  proof -
    obtain t p where q: "q = (t, p)" by fastforce
    have "bytes_at a' t (p + i) k = bytes_at a t (p + i) k" if "B (t, p) = Some m" "i + k \<le> m" for m i k
    proof (rule w(6))
      have "t \<noteq> s \<or> p + m \<le> off \<or> off + block \<le> p"
        using blocks_disjoint [OF bo sc(2) [unfolded rat] that(1)] \<open>q \<noteq> (s, off)\<close> q by blast
      then show "t \<noteq> s \<or> p + i + k \<le> off + 8 \<or> off + 8 + length v' \<le> p + i" using that(2) cl len by linarith
    qed
    then show ?thesis unfolding agree_def q by simp
  qed
  have hd8: "bytes_at a' s off 8 = bytes_at a s off 8" by (rule w(6)) simp
  have gen: "unat (a_generation a') < 2 ^ 18" using sh w(4) by (simp add: shape_ok_def)
  note lay = same_layout_ok [OF w(2,3) gen]
  have "free_ok a' B F"
  proof (rule free_ok_agree [OF fo bo])
    show "freeHead a' b = freeHead a b" for b using w(3) by (simp add: freeHead_def)
    show "agree a a' B p" if "b < freeBucketCount" "p \<in> set (F b)" for b p using ag [of p] nf that rat by metis
  qed
  moreover have "live_ref a' B r v'" using lr hd8 w(5) sc len unfolding live_ref_def rat by auto
  moreover have "live_ref a' B r' x" if "L r' = Some x" "r' \<noteq> r" for r' x
  proof -
    have "ref_at r' \<noteq> ref_at r" using lo that L unfolding live_ok_def inj_on_def by blast
    then show ?thesis using live_ref_agree [of a B r' x a'] ag lo that(1) unfolding live_ok_def rat by blast
  qed
  moreover have "dom (L(r \<mapsto> v')) = dom L" using L by auto
  ultimately have "live_ok a' B F (L(r \<mapsto> v'))" "free_ok a' B F" using lo nf unfolding live_ok_def by auto
  then have inv': "arena_inv a' B F (L(r \<mapsto> v'))" using lay sh bo by (simp add: arena_inv_def)
  have "map s_cap (a_segments a') = map s_cap (a_segments a)"
    using w(2) by (intro nth_equalityI) (simp_all add: same_layout_def)
  then have t: "TotalMemoryBytes a' = TotalMemoryBytes a" using w(2,3) by (simp add: TotalMemoryBytes_def MemoryBytes_def same_layout_def)
  have "viewWrite a r v' = Some a'" using w(1) by (simp add: viewWrite_def s_def off_def)
  moreover have "arena_ok a' (L(r \<mapsto> v'))" unfolding arena_ok_def using inv' by blast
  ultimately show ?thesis by (rule that) (use t w(2) in \<open>simp_all add: SegmentCount_def same_layout_def\<close>)
qed

end
