(* ===== verification/Shard.thy ===== *)
theory Shard
  imports EntryPack Expiration IndexCorrect ArenaUse
begin

text \<open>One shard of the store and the publication of values into it (internal/engine/shard.go, engine.go and memory.go):
  the key index maps keys to entry identifiers, the packed entries refer to the arena, the expiration queue owns the
  deadlines, and the accounting record tracks the bytes the engine owns. Commands hold the shard lock, so a command is a
  function of the shard and the accounting; the clock is an argument. \<open>None\<close> is a panic.

  The model is the store without sidecars: no entry has optimizer metadata (so no JSON schema handle), no hot hash table and
  no stream log is attached to a key, and no search index is defined. There the metadata, schema, hot hash and stream charges
  of the code are all zero and its search hooks return at once; the tests of the hot-hash flag of an entry are kept.\<close>

record shard =
  sh_arena :: Arena
  sh_data :: table
  sh_entries :: "packedEntry list"
  sh_entryCap :: nat
  sh_freeIDs :: "u32 list"
  sh_expiration :: expirationQueue

definition emptyShard :: shard where
  "emptyShard = \<lparr>sh_arena = emptyArena, sh_data = New_table, sh_entries = [], sh_entryCap = 0, sh_freeIDs = [],
     sh_expiration = emptyQueue\<rparr>"

subsection \<open>Entries\<close>

definition nextEntryCap :: "nat \<Rightarrow> nat" where
  "nextEntryCap capacity =
     (if capacity = 0 then 4
      else if capacity = 4 then 6
      else if capacity = 6 then 8
      else if capacity < 64 then (let c = 2 * capacity in if c > 64 then 64 else c)
      else let growth = capacity div 2; growth = (if growth < 64 then 64 else growth) in capacity + growth)"

lemma nextEntryCap_gt: "capacity < nextEntryCap capacity"
  by (simp add: nextEntryCap_def Let_def)

function entryCapLoop :: "nat \<Rightarrow> nat \<Rightarrow> nat" where
  "entryCapLoop target capacity = (if target > capacity then entryCapLoop target (nextEntryCap capacity) else capacity)"
  by pat_completeness auto

termination entryCapLoop
  by (relation "measure (\<lambda>(target, capacity). target - capacity)") (use nextEntryCap_gt in \<open>auto intro: diff_less_mono2\<close>)

declare entryCapLoop.simps [simp del]

definition entryCapacityFor :: "shard \<Rightarrow> nat \<Rightarrow> nat" where
  "entryCapacityFor sh additional =
     (if additional = 0 then sh_entryCap sh
      else if additional \<le> length (sh_freeIDs sh) then sh_entryCap sh
      else entryCapLoop (length (sh_entries sh) + (additional - length (sh_freeIDs sh))) (sh_entryCap sh))"

definition entryView :: "shard \<Rightarrow> u32 \<Rightarrow> SnugValue option" where
  "entryView sh eid = (if unat eid \<ge> length (sh_entries sh) then None else Some (unpack (sh_entries sh ! unat eid)))"

definition getHashed :: "shard \<Rightarrow> bytes \<Rightarrow> u64 \<Rightarrow> SnugValue option option" where
  "getHashed sh key hash = do {
     found \<leftarrow> GetHashed (sh_data sh) key hash;
     case found of None \<Rightarrow> Some None | Some eid \<Rightarrow> map_option Some (entryView sh eid)
   }"

definition sh_get :: "(bytes \<Rightarrow> u64) \<Rightarrow> shard \<Rightarrow> bytes \<Rightarrow> SnugValue option option" where
  "sh_get h sh key = getHashed sh key (h key)"

definition storeEntry :: "shard \<Rightarrow> u32 \<Rightarrow> SnugValue \<Rightarrow> shard option" where
  "storeEntry sh eid e = do {
     p \<leftarrow> packEntry e;
     if unat eid < length (sh_entries sh) then Some (sh\<lparr>sh_entries := (sh_entries sh)[unat eid := p]\<rparr>) else None
   }"

definition insertEntry :: "(bytes \<Rightarrow> u64) \<Rightarrow> shard \<Rightarrow> bytes \<Rightarrow> u64 \<Rightarrow> SnugValue \<Rightarrow> bool \<Rightarrow> shard option" where
  "insertEntry h sh key hash e hashKnown = do {
     (eid, sh) \<leftarrow>
       (if sh_freeIDs sh \<noteq> [] then
          let eid = List.last (sh_freeIDs sh) in
          map_option (\<lambda>sh. (eid, sh)) (storeEntry (sh\<lparr>sh_freeIDs := butlast (sh_freeIDs sh)\<rparr>) eid e)
        else
          let eid = word_of_nat (length (sh_entries sh));
              capacity = (if length (sh_entries sh) = sh_entryCap sh then entryCapacityFor sh 1 else sh_entryCap sh) in
          map_option (\<lambda>p. (eid, sh\<lparr>sh_entryCap := capacity, sh_entries := sh_entries sh @ [p]\<rparr>)) (packEntry e));
     t \<leftarrow> (if hashKnown then SetKnownHashed h (sh_data sh) key eid hash False else Set h (sh_data sh) key eid);
     Some (sh\<lparr>sh_data := t\<rparr>)
   }"

definition sh_set :: "(bytes \<Rightarrow> u64) \<Rightarrow> shard \<Rightarrow> bytes \<Rightarrow> SnugValue \<Rightarrow> shard option" where
  "sh_set h sh key e = do {
     found \<leftarrow> Get h (sh_data sh) key;
     case found of Some eid \<Rightarrow> storeEntry sh eid e | None \<Rightarrow> insertEntry h sh key (h key) e False
   }"

definition setKnownHashed :: "(bytes \<Rightarrow> u64) \<Rightarrow> shard \<Rightarrow> bytes \<Rightarrow> u64 \<Rightarrow> SnugValue \<Rightarrow> bool \<Rightarrow> shard option" where
  "setKnownHashed h sh key hash e exists =
     (if exists then do {
        found \<leftarrow> GetHashed (sh_data sh) key hash;
        case found of None \<Rightarrow> None | Some eid \<Rightarrow> storeEntry sh eid e
      } else insertEntry h sh key hash e True)"

definition sh_delete :: "(bytes \<Rightarrow> u64) \<Rightarrow> shard \<Rightarrow> bytes \<Rightarrow> (bool \<times> shard) option" where
  "sh_delete h sh key = do {
     found \<leftarrow> Get h (sh_data sh) key;
     case found of None \<Rightarrow> Some (False, sh)
     | Some eid \<Rightarrow> do {
         t \<leftarrow> Delete h (sh_data sh) key;
         if unat eid \<ge> length (sh_entries sh) then None
         else Some (True, sh\<lparr>sh_data := t, sh_entries := (sh_entries sh)[unat eid := \<lparr>p_location = 0, p_meta = 0\<rparr>],
                             sh_freeIDs := sh_freeIDs sh @ [eid]\<rparr>)
       }
   }"

definition encoded :: "shard \<Rightarrow> SnugValue \<Rightarrow> bytes option" where
  "encoded sh e = (case View (sh_arena sh) (v_ref e) of Inl _ \<Rightarrow> None | Inr v \<Rightarrow> Some v)"

definition expirationAt :: "shard \<Rightarrow> bytes \<Rightarrow> SnugValue \<Rightarrow> stamp option" where
  "expirationAt sh key e = (if \<not> v_hasExpiry e then Some 0 else atFor (sh_expiration sh) key)"

definition expired :: "shard \<Rightarrow> bytes \<Rightarrow> SnugValue \<Rightarrow> stamp \<Rightarrow> bool option" where
  "expired sh key e now = (if \<not> v_hasExpiry e then Some False else map_option (\<lambda>t. now \<ge> t) (expirationAt sh key e))"

definition sh_schedule :: "shard \<Rightarrow> bytes \<Rightarrow> stamp \<Rightarrow> shard option" where
  "sh_schedule sh key t = map_option (\<lambda>q. sh\<lparr>sh_expiration := q\<rparr>) (schedule (sh_expiration sh) key t)"

subsection \<open>Accounting\<close>

record accounting =
  m_used :: u64
  m_index :: u64
  m_entries :: u64
  m_arenas :: u64
  m_arenaPayload :: u64
  m_arenaLiveBlocks :: u64
  m_max :: u64

datatype memoryAdmission = EnforceMemoryLimit | AllowOverMemoryLimit

definition exceedsMemoryLimitLocked :: "accounting \<Rightarrow> u64 \<Rightarrow> memoryAdmission \<Rightarrow> bool" where
  "exceedsMemoryLimitLocked m next' admission \<longleftrightarrow> admission = EnforceMemoryLimit \<and> m_max m > 0 \<and> next' > m_max m"

definition entryStructBytes :: nat where
  "entryStructBytes = 16"

definition entryCharge :: "bytes \<Rightarrow> u64" where
  "entryCharge key = word_of_nat (KeyRecordSize key)"

definition entryGrowthBytes :: "shard \<Rightarrow> nat \<Rightarrow> u64" where
  "entryGrowthBytes sh additional = word_of_nat ((entryCapacityFor sh additional - sh_entryCap sh) * entryStructBytes)"

record preparedEntry =
  e_value :: SnugValue
  e_expiresAt :: stamp
  e_data :: bytes

definition shouldInlinePrepared :: "preparedEntry \<Rightarrow> bool" where
  "shouldInlinePrepared e \<longleftrightarrow> length (e_data e) \<noteq> 0 \<and> length (e_data e) \<le> 8 \<and> v_codecID (e_value e) \<in> {1, 2, 4, 6}"

record world =
  w_shard :: shard
  w_memory :: accounting
  w_expired :: u64

definition arenaReleased :: "accounting \<Rightarrow> nat \<Rightarrow> accounting" where
  "arenaReleased m n =
     (if n = 0 then m else m\<lparr>m_used := m_used m - word_of_nat n, m_arenas := m_arenas m - word_of_nat n\<rparr>)"

text \<open>The old value whose bytes live in the arena: a hot hash has none.\<close>

definition coldValue :: "SnugValue option \<Rightarrow> SnugValue option" where
  "coldValue old = (case old of None \<Rightarrow> None | Some v \<Rightarrow> if isHotHash v then None else Some v)"

text \<open>The accounting delta of a publication, reserved before anything is written; \<open>None\<close> is the refusal.\<close>

definition reserveMemory :: "shard \<Rightarrow> accounting \<Rightarrow> bytes \<Rightarrow> preparedEntry \<Rightarrow> memoryAdmission \<Rightarrow> SnugValue option \<Rightarrow> accounting option option" where
  "reserveMemory sh m key e admission old = do {
     let exists = (old \<noteq> None);
     let oldCost = (if exists then entryCharge key else 0);
     let newCost = entryCharge key;
     extraIndex \<leftarrow> (if exists then Some 0 else GrowthBytes (sh_data sh) 1);
     let extraEntries = (if exists then 0 else entryGrowthBytes sh 1);
     let inlineNew = shouldInlinePrepared e;
     growth \<leftarrow> (if inlineNew then Some 0 else GrowthFor (sh_arena sh) [length (e_data e)]);
     let extraArena = word_of_nat growth + (case coldValue old of None \<Rightarrow> 0 | Some o' \<Rightarrow> word_of_nat (FreeGrowth (sh_arena sh) (v_ref o')));
     newBlockBytes \<leftarrow> (if inlineNew then Some 0 else AllocationBytesForLength (length (e_data e)));
     oldBlockBytes \<leftarrow> (case coldValue old of None \<Rightarrow> Some 0 | Some o' \<Rightarrow> AllocationBytes (v_ref o'));
     let next' = m_used m - oldCost + newCost + word_of_nat extraIndex + extraEntries + extraArena;
     if exceedsMemoryLimitLocked m next' admission then Some None
     else do {
       oldPayload \<leftarrow> (case coldValue old of None \<Rightarrow> Some 0
         | Some o' \<Rightarrow> if IsInline (v_ref o') then Some 0 else map_option length (encoded sh o'));
       Some (Some (m\<lparr>m_used := next',
         m_entries := m_entries m - oldCost + newCost + extraEntries,
         m_index := m_index m + word_of_nat extraIndex,
         m_arenas := m_arenas m + extraArena,
         m_arenaPayload := m_arenaPayload m - word_of_nat oldPayload + (if inlineNew then 0 else word_of_nat (length (e_data e))),
         m_arenaLiveBlocks := m_arenaLiveBlocks m - word_of_nat oldBlockBytes + word_of_nat newBlockBytes\<rparr>))
     }
   }"

text \<open>Publishing with the old entry known; the result says whether the memory limit admitted it.\<close>

definition publishRecordKnownWithHash ::
    "(bytes \<Rightarrow> u64) \<Rightarrow> world \<Rightarrow> bytes \<Rightarrow> u64 option \<Rightarrow> preparedEntry \<Rightarrow> memoryAdmission \<Rightarrow> SnugValue option \<Rightarrow> (bool \<times> world) option" where
  "publishRecordKnownWithHash h w key hash e admission old = do {
     let sh = w_shard w;
     reserved \<leftarrow> reserveMemory sh (w_memory w) key e admission old;
     case reserved of None \<Rightarrow> Some (False, w)
     | Some m \<Rightarrow> do {
         (ref, a) \<leftarrow> (if shouldInlinePrepared e then AllocInline (sh_arena sh) (e_data e) else Alloc (sh_arena sh) (e_data e));
         let v = (e_value e)\<lparr>v_ref := ref, v_hasExpiry := (e_expiresAt e \<noteq> 0)\<rparr>;
         sh \<leftarrow> (case hash of Some x \<Rightarrow> setKnownHashed h (sh\<lparr>sh_arena := a\<rparr>) key x v (old \<noteq> None)
                 | None \<Rightarrow> sh_set h (sh\<lparr>sh_arena := a\<rparr>) key v);
         (released, sh) \<leftarrow> (case coldValue old of None \<Rightarrow> Some (0, sh)
           | Some o' \<Rightarrow> map_option (\<lambda>(n, a). (n, sh\<lparr>sh_arena := a\<rparr>)) (Free (sh_arena sh) (v_ref o')));
         sh \<leftarrow> sh_schedule sh key (e_expiresAt e);
         Some (True, w\<lparr>w_shard := sh, w_memory := arenaReleased m released\<rparr>)
       }
   }"

definition publishRecordKnown ::
    "(bytes \<Rightarrow> u64) \<Rightarrow> world \<Rightarrow> bytes \<Rightarrow> preparedEntry \<Rightarrow> memoryAdmission \<Rightarrow> SnugValue option \<Rightarrow> (bool \<times> world) option" where
  "publishRecordKnown h w key e admission old = publishRecordKnownWithHash h w key None e admission old"

definition publishRecordKnownHashed ::
    "(bytes \<Rightarrow> u64) \<Rightarrow> world \<Rightarrow> bytes \<Rightarrow> u64 \<Rightarrow> preparedEntry \<Rightarrow> memoryAdmission \<Rightarrow> SnugValue option \<Rightarrow> (bool \<times> world) option" where
  "publishRecordKnownHashed h w key hash e admission old = publishRecordKnownWithHash h w key (Some hash) e admission old"

definition publishRecord :: "(bytes \<Rightarrow> u64) \<Rightarrow> world \<Rightarrow> bytes \<Rightarrow> preparedEntry \<Rightarrow> memoryAdmission \<Rightarrow> (bool \<times> world) option" where
  "publishRecord h w key e admission = do {
     old \<leftarrow> sh_get h (w_shard w) key;
     publishRecordKnown h w key e admission old
   }"

definition publish :: "(bytes \<Rightarrow> u64) \<Rightarrow> world \<Rightarrow> bytes \<Rightarrow> preparedEntry \<Rightarrow> (bool \<times> world) option" where
  "publish h w key e = publishRecord h w key e EnforceMemoryLimit"

definition removeKey :: "(bytes \<Rightarrow> u64) \<Rightarrow> world \<Rightarrow> bytes \<Rightarrow> stamp \<Rightarrow> world option" where
  "removeKey h w key now = do {
     let sh = w_shard w;
     found \<leftarrow> sh_get h sh key;
     case found of None \<Rightarrow> Some w
     | Some e \<Rightarrow> do {
         gone \<leftarrow> expired sh key e now;
         let freeGrowth = (if isHotHash e then 0 else word_of_nat (FreeGrowth (sh_arena sh) (v_ref e)));
         payload \<leftarrow> (if isHotHash e \<or> IsInline (v_ref e) then Some 0 else map_option length (encoded sh e));
         blockBytes \<leftarrow> (if isHotHash e then Some 0 else AllocationBytes (v_ref e));
         let m = w_memory w;
         let m = m\<lparr>m_used := m_used m - entryCharge key + freeGrowth,
           m_entries := m_entries m - entryCharge key,
           m_arenas := m_arenas m + freeGrowth,
           m_arenaPayload := m_arenaPayload m - word_of_nat payload,
           m_arenaLiveBlocks := m_arenaLiveBlocks m - word_of_nat blockBytes\<rparr>;
         (_, sh) \<leftarrow> sh_delete h sh key;
         (released, a) \<leftarrow> (if isHotHash e then Some (0, sh_arena sh) else Free (sh_arena sh) (v_ref e));
         sh \<leftarrow> sh_schedule (sh\<lparr>sh_arena := a\<rparr>) key 0;
         Some (w\<lparr>w_shard := sh, w_memory := arenaReleased m released,
                 w_expired := (if gone then w_expired w + 1 else w_expired w)\<rparr>)
       }
   }"

end
