(* ===== verification/ShardEntries.thy ===== *)
theory ShardEntries
  imports Shard
begin

text \<open>Correctness of the entry storage of a shard: the index, the packed entries and the free identifiers together are a map
  from keys to value descriptors, which setting and deleting an entry update, growing by the announced bytes.\<close>

subsection \<open>The entry storage\<close>

definition ent :: "shard \<Rightarrow> bytes \<rightharpoonup> SnugValue" where
  "ent sh k = map_option (\<lambda>eid. unpack (sh_entries sh ! unat eid)) (tmap (sh_data sh) k)"

definition ids_ok :: "(bytes \<Rightarrow> u64) \<Rightarrow> shard \<Rightarrow> bool" where
  "ids_ok h sh \<longleftrightarrow> table_ok h (sh_data sh) \<and> inj_on (tmap (sh_data sh)) (dom (tmap (sh_data sh)))
     \<and> (\<forall>k eid. tmap (sh_data sh) k = Some eid \<longrightarrow> unat eid < length (sh_entries sh) \<and> eid \<notin> set (sh_freeIDs sh))
     \<and> distinct (sh_freeIDs sh) \<and> (\<forall>eid \<in> set (sh_freeIDs sh). unat eid < length (sh_entries sh))
     \<and> length (sh_entries sh) \<le> sh_entryCap sh \<and> length (sh_entries sh) \<le> 2 ^ 27"

lemma ids_parts:
  assumes "ids_ok h sh"
  shows "table_ok h (sh_data sh)" "Get h (sh_data sh) k = Some (tmap (sh_data sh) k)" "GetHashed (sh_data sh) k (h k) = Some (tmap (sh_data sh) k)"
    "tmap (sh_data sh) k = Some eid \<Longrightarrow> unat eid < length (sh_entries sh) \<and> eid \<notin> set (sh_freeIDs sh)"
    "tmap (sh_data sh) k = Some eid \<Longrightarrow> tmap (sh_data sh) k' = Some eid \<Longrightarrow> k = k'"
proof -
  have inj: "inj_on (tmap (sh_data sh)) (dom (tmap (sh_data sh)))" using assms by (simp add: ids_ok_def)
  show "k = k'" if "tmap (sh_data sh) k = Some eid" "tmap (sh_data sh) k' = Some eid" by (rule inj_onD [OF inj]) (use that in auto)
qed (use assms idx.get_abst [of h "sh_data sh" k] idxk.get_abst [of h "sh_data sh" k] in \<open>auto simp: ids_ok_def\<close>)

lemma sh_get_ok:
  assumes "ids_ok h sh"
  shows "sh_get h sh k = Some (ent sh k)"
  using ids_parts(3) [OF assms, of k] ids_parts(4) [OF assms, of k] by (auto simp: sh_get_def getHashed_def entryView_def ent_def split: option.splits)

lemma storeEntry_ok:
  assumes ok: "ids_ok h sh" and k: "tmap (sh_data sh) k = Some eid" and p: "packEntry e = Some p"
  shows "storeEntry sh eid e = Some (sh\<lparr>sh_entries := (sh_entries sh)[unat eid := p]\<rparr>)" (is "_ = Some ?sh")
    "ids_ok h (sh\<lparr>sh_entries := (sh_entries sh)[unat eid := p]\<rparr>)" "ent (sh\<lparr>sh_entries := (sh_entries sh)[unat eid := p]\<rparr>) = (ent sh)(k \<mapsto> e)"
proof -
  have lt: "unat eid < length (sh_entries sh)" using ids_parts(4) [OF ok k] by simp
  show "storeEntry sh eid e = Some ?sh" using lt p by (simp add: storeEntry_def)
  show "ids_ok h ?sh" using ok by (simp add: ids_ok_def)
  have ne: "unat eid' \<noteq> unat eid" if "tmap (sh_data sh) k' = Some eid'" "k' \<noteq> k" for k' eid'
    using ids_parts(5) [OF ok k, of k'] that by (auto dest: unsigned_word_eqI)
  have "ent ?sh k' = ((ent sh)(k \<mapsto> e)) k'" for k'
  proof (cases "k' = k")
    case False
    then show ?thesis using ne [of k'] by (cases "tmap (sh_data sh) k'") (simp_all add: ent_def)
  qed (use k lt unpack_pack [OF p] in \<open>simp add: ent_def\<close>)
  then show "ent ?sh = (ent sh)(k \<mapsto> e)" by blast
qed

lemma entryCapLoop_ge: "capacity \<le> entryCapLoop target capacity \<and> target \<le> entryCapLoop target capacity"
proof (induction target capacity rule: entryCapLoop.induct)
  case (1 target capacity)
  show ?case
  proof (cases "target > capacity")
    case True
    then show ?thesis using 1 [OF True] nextEntryCap_gt [of capacity] by (subst (1 2) entryCapLoop.simps) simp
  next
    case False
    then show ?thesis by (subst (1 2) entryCapLoop.simps) simp
  qed
qed

lemma entryCapacityFor_ge: "sh_entryCap sh \<le> entryCapacityFor sh n"
  using entryCapLoop_ge by (simp add: entryCapacityFor_def)

definition has_room :: "shard \<Rightarrow> bytes \<Rightarrow> bool" where
  "has_room sh key \<longleftrightarrow> length (t_log (sh_data sh)) + KeyRecordSize key \<le> maxLogBytes \<and> length (sh_entries sh) < 2 ^ 27"

text \<open>The slot a new key takes: a free one, or one appended to the entries.\<close>

lemma take_slot:
  assumes ok: "ids_ok h sh" and p: "packEntry e = Some p" and n: "length (sh_entries sh) < 2 ^ 27"
  obtains eid sh1 where "(if sh_freeIDs sh \<noteq> [] then
          let eid = List.last (sh_freeIDs sh) in
          map_option (\<lambda>sh. (eid, sh)) (storeEntry (sh\<lparr>sh_freeIDs := butlast (sh_freeIDs sh)\<rparr>) eid e)
        else
          let eid = word_of_nat (length (sh_entries sh));
              capacity = (if length (sh_entries sh) = sh_entryCap sh then entryCapacityFor sh 1 else sh_entryCap sh) in
          map_option (\<lambda>p. (eid, sh\<lparr>sh_entryCap := capacity, sh_entries := sh_entries sh @ [p]\<rparr>)) (packEntry e)) = Some (eid, sh1)"
    "sh_data sh1 = sh_data sh" "sh_arena sh1 = sh_arena sh" "sh_expiration sh1 = sh_expiration sh" "sh_entryCap sh1 = entryCapacityFor sh 1"
    "ids_ok h sh1" "ent sh1 = ent sh" "unat eid < length (sh_entries sh1)" "eid \<notin> set (sh_freeIDs sh1)" "eid \<notin> ran (tmap (sh_data sh))"
    "unpack (sh_entries sh1 ! unat eid) = e" "unat eid < 2 ^ 27" "length (sh_entries sh1) \<le> Suc (length (sh_entries sh))"
proof (cases "sh_freeIDs sh = []")
  case False
  define eid where "eid = List.last (sh_freeIDs sh)"
  have fs: "sh_freeIDs sh = butlast (sh_freeIDs sh) @ [eid]" using False by (simp add: eid_def)
  have eid: "eid \<in> set (sh_freeIDs sh)" using False by (simp add: eid_def)
  have d: "distinct (sh_freeIDs sh)" using ok by (simp add: ids_ok_def)
  then have nb: "eid \<notin> set (butlast (sh_freeIDs sh))" using fs by (metis distinct_append disjoint_iff list.set_intros(1))
  have lt: "unat eid < length (sh_entries sh)" using ok eid by (simp add: ids_ok_def)
  have nt: "eid \<notin> ran (tmap (sh_data sh))" using ids_parts(4) [OF ok] eid by (auto simp: ran_def)
  let ?sh = "sh\<lparr>sh_freeIDs := butlast (sh_freeIDs sh), sh_entries := (sh_entries sh)[unat eid := p]\<rparr>"
  have sub: "set (butlast (sh_freeIDs sh)) \<subseteq> set (sh_freeIDs sh)" using in_set_butlastD by fastforce
  have "ids_ok h ?sh" using ok sub d by (auto simp: ids_ok_def distinct_butlast)
  moreover have "ent ?sh = ent sh"
  proof
    fix k
    have "unat i \<noteq> unat eid" if "tmap (sh_data sh) k = Some i" for i using nt that by (auto simp: ran_def dest: unsigned_word_eqI)
    then show "ent ?sh k = ent sh k" by (cases "tmap (sh_data sh) k") (auto simp: ent_def nth_list_update)
  qed
  moreover have "entryCapacityFor sh 1 = sh_entryCap sh" using False by (cases "sh_freeIDs sh") (simp_all add: entryCapacityFor_def)
  ultimately show ?thesis using that [of eid ?sh] False lt p nb nt unpack_pack [OF p] n
    by (simp add: storeEntry_def eid_def [symmetric])
next
  case True
  define eid :: u32 where "eid = word_of_nat (length (sh_entries sh))"
  have u: "unat eid = length (sh_entries sh)" using n by (simp add: eid_def unat_u32)
  let ?c = "if length (sh_entries sh) = sh_entryCap sh then entryCapacityFor sh 1 else sh_entryCap sh"
  let ?sh = "sh\<lparr>sh_entryCap := ?c, sh_entries := sh_entries sh @ [p]\<rparr>"
  have le: "length (sh_entries sh) \<le> sh_entryCap sh" using ok by (simp add: ids_ok_def)
  have c: "?c = entryCapacityFor sh 1"
    using True le by (auto simp: entryCapacityFor_def entryCapLoop.simps [of "Suc (length (sh_entries sh))" "sh_entryCap sh"])
  have ge: "Suc (length (sh_entries sh)) \<le> entryCapacityFor sh 1"
    using True entryCapLoop_ge [of "sh_entryCap sh" "Suc (length (sh_entries sh))"] by (simp add: entryCapacityFor_def)
  have lt: "unat i < length (sh_entries sh)" if "tmap (sh_data sh) k = Some i" for k i using ids_parts(4) [OF ok that] by simp
  have "ids_ok h ?sh" using ok ge n lt True unfolding c by (auto simp: ids_ok_def less_SucI)
  moreover have "ent ?sh = ent sh"
  proof
    fix k show "ent ?sh k = ent sh k" using lt [of k] by (cases "tmap (sh_data sh) k") (auto simp: ent_def nth_append)
  qed
  moreover have "eid \<notin> ran (tmap (sh_data sh))" using lt u by (fastforce simp: ran_def)
  ultimately show ?thesis using that [of eid ?sh] True u p unpack_pack [OF p] n c by (simp add: eid_def [symmetric])
qed

lemma ids_bind:
  assumes ok: "ids_ok h sh" and new: "eid \<notin> ran (tmap (sh_data sh))" "unat eid < length (sh_entries sh)" "eid \<notin> set (sh_freeIDs sh)"
    and k: "tmap (sh_data sh) key = None" and t: "table_ok h t" "tmap t = (tmap (sh_data sh))(key \<mapsto> eid)"
  shows "ids_ok h (sh\<lparr>sh_data := t\<rparr>)" "ent (sh\<lparr>sh_data := t\<rparr>) = (ent sh)(key \<mapsto> unpack (sh_entries sh ! unat eid))"
proof -
  have "inj_on ((tmap (sh_data sh))(key \<mapsto> eid)) (insert key (dom (tmap (sh_data sh))))"
    using ok new(1) k by (auto simp: ids_ok_def inj_on_def ran_def dom_def)
  then show "ids_ok h (sh\<lparr>sh_data := t\<rparr>)" using ok new t by (auto simp: ids_ok_def)
  show "ent (sh\<lparr>sh_data := t\<rparr>) = (ent sh)(key \<mapsto> unpack (sh_entries sh ! unat eid))" by (auto simp: ent_def t(2) fun_eq_iff)
qed

definition put_result :: "(bytes \<Rightarrow> u64) \<Rightarrow> shard \<Rightarrow> bytes \<Rightarrow> SnugValue \<Rightarrow> shard \<Rightarrow> bool" where
  "put_result h sh key e sh' \<longleftrightarrow> ids_ok h sh' \<and> ent sh' = (ent sh)(key \<mapsto> e) \<and> sh_arena sh' = sh_arena sh \<and> sh_expiration sh' = sh_expiration sh
     \<and> (\<exists>g. (if ent sh key = None then GrowthBytes (sh_data sh) 1 = Some g else g = 0) \<and> CapacityBytes (sh_data sh') = CapacityBytes (sh_data sh) + g)
     \<and> sh_entryCap sh' = (if ent sh key = None then entryCapacityFor sh 1 else sh_entryCap sh)
     \<and> dom (tmap (sh_data sh')) = insert key (dom (tmap (sh_data sh)))"

lemma ent_None [simp]: "ent sh k = None \<longleftrightarrow> tmap (sh_data sh) k = None"
  by (simp add: ent_def)

lemma growth_of:
  assumes "capacityFor t (t_count t + 1) = Some (length (t_slots t'))"
  shows "\<exists>g. GrowthBytes t 1 = Some g \<and> CapacityBytes t' = CapacityBytes t + g"
proof -
  obtain c where "capacityFor t (t_count t + 1) = Some c" "length (t_slots t) \<le> c"
    by (rule capacityFor_returns [of "t_count t + 1" t]) simp_all
  then have "length (t_slots t) \<le> length (t_slots t')" using assms by simp
  then show ?thesis using assms by (simp add: GrowthBytes_def CapacityBytes_def add_mult_distrib [symmetric])
qed

lemma insertEntry_ok:
  assumes ok: "ids_ok h sh" and p: "packable e" and room: "has_room sh key" and k: "ent sh key = None"
  obtains sh' where "insertEntry h sh key (h key) e known = Some sh'" "put_result h sh key e sh'"
proof -
  obtain pe where pe: "packEntry e = Some pe" using p packable_iff by blast
  have n: "length (sh_entries sh) < 2 ^ 27" and lg: "length (t_log (sh_data sh)) + KeyRecordSize key \<le> maxLogBytes"
    using room by (simp_all add: has_room_def)
  have tn: "tmap (sh_data sh) key = None" using k by simp
  obtain eid sh1 where s1: "(if sh_freeIDs sh \<noteq> [] then
          let eid = List.last (sh_freeIDs sh) in
          map_option (\<lambda>sh. (eid, sh)) (storeEntry (sh\<lparr>sh_freeIDs := butlast (sh_freeIDs sh)\<rparr>) eid e)
        else
          let eid = word_of_nat (length (sh_entries sh));
              capacity = (if length (sh_entries sh) = sh_entryCap sh then entryCapacityFor sh 1 else sh_entryCap sh) in
          map_option (\<lambda>p. (eid, sh\<lparr>sh_entryCap := capacity, sh_entries := sh_entries sh @ [p]\<rparr>)) (packEntry e)) = Some (eid, sh1)"
    "sh_data sh1 = sh_data sh" "sh_arena sh1 = sh_arena sh" "sh_expiration sh1 = sh_expiration sh" "sh_entryCap sh1 = entryCapacityFor sh 1"
    "ids_ok h sh1" "ent sh1 = ent sh" "unat eid < length (sh_entries sh1)" "eid \<notin> set (sh_freeIDs sh1)" "eid \<notin> ran (tmap (sh_data sh))"
    "unpack (sh_entries sh1 ! unat eid) = e" "unat eid < 2 ^ 27" "length (sh_entries sh1) \<le> Suc (length (sh_entries sh))"
    using take_slot [OF ok pe n] by metis
  have tok: "table_ok h (sh_data sh)" using ids_parts(1) [OF ok] .
  obtain t where t: "(if known then SetKnownHashed h (sh_data sh) key eid (h key) False else Set h (sh_data sh) key eid) = Some t"
    "table_ok h t" "tmap t = (tmap (sh_data sh))(key \<mapsto> eid)" "capacityFor (sh_data sh) (t_count (sh_data sh) + 1) = Some (length (t_slots t))"
    using Set_ok [OF tok s1(12) lg] SetKnownHashed_ok [OF tok s1(12) lg] tn by (cases known) auto
  have b: "ids_ok h (sh1\<lparr>sh_data := t\<rparr>)" "ent (sh1\<lparr>sh_data := t\<rparr>) = (ent sh1)(key \<mapsto> unpack (sh_entries sh1 ! unat eid))"
    using ids_bind [OF s1(6) _ s1(8,9), of key t] s1(2,10) tn t(2,3) by simp_all
  have "insertEntry h sh key (h key) e known = Some (sh1\<lparr>sh_data := t\<rparr>)"
    using t(1) s1(2) unfolding insertEntry_def s1(1) by (cases known) simp_all
  moreover have "put_result h sh key e (sh1\<lparr>sh_data := t\<rparr>)"
    using b s1(3,4,5,7,11) growth_of [OF t(4)] t(3) tn by (auto simp: put_result_def)
  ultimately show ?thesis by (rule that)
qed

lemma storeEntry_result:
  assumes ok: "ids_ok h sh" and p: "packable e" and k: "tmap (sh_data sh) key = Some eid"
  obtains sh' where "storeEntry sh eid e = Some sh'" "put_result h sh key e sh'"
proof -
  obtain pe where pe: "packEntry e = Some pe" using p packable_iff by blast
  show ?thesis by (rule that [OF storeEntry_ok(1) [OF ok k pe]])
    (use storeEntry_ok(2,3) [OF ok k pe] k in \<open>auto simp: put_result_def\<close>)
qed

lemma sh_set_ok:
  assumes ok: "ids_ok h sh" and p: "packable e" and room: "ent sh key = None \<Longrightarrow> has_room sh key"
  obtains sh' where "sh_set h sh key e = Some sh'" "put_result h sh key e sh'"
proof (cases "tmap (sh_data sh) key")
  case None
  obtain sh' where "insertEntry h sh key (h key) e False = Some sh'" "put_result h sh key e sh'"
    using insertEntry_ok [OF ok p room] None by (metis ent_None)
  then show ?thesis using that ids_parts(2) [OF ok, of key] None by (simp add: sh_set_def)
next
  case (Some eid)
  obtain sh' where "storeEntry sh eid e = Some sh'" "put_result h sh key e sh'" using storeEntry_result [OF ok p Some] .
  then show ?thesis using that ids_parts(2) [OF ok, of key] Some by (simp add: sh_set_def)
qed

lemma setKnownHashed_ok:
  assumes ok: "ids_ok h sh" and p: "packable e" and room: "ent sh key = None \<Longrightarrow> has_room sh key"
  obtains sh' where "setKnownHashed h sh key (h key) e (ent sh key \<noteq> None) = Some sh'" "put_result h sh key e sh'"
proof (cases "tmap (sh_data sh) key")
  case None
  obtain sh' where "insertEntry h sh key (h key) e True = Some sh'" "put_result h sh key e sh'"
    using insertEntry_ok [OF ok p room] None by (metis ent_None)
  then show ?thesis using that None by (simp add: setKnownHashed_def)
next
  case (Some eid)
  obtain sh' where "storeEntry sh eid e = Some sh'" "put_result h sh key e sh'" using storeEntry_result [OF ok p Some] .
  then show ?thesis using that ids_parts(3) [OF ok, of key] Some by (simp add: setKnownHashed_def)
qed

lemma sh_delete_ok:
  assumes ok: "ids_ok h sh" and k: "ent sh key \<noteq> None"
  obtains sh' where "sh_delete h sh key = Some (True, sh')" "ids_ok h sh'" "ent sh' = (ent sh)(key := None)" "sh_arena sh' = sh_arena sh"
    "sh_expiration sh' = sh_expiration sh" "CapacityBytes (sh_data sh') = CapacityBytes (sh_data sh)" "sh_entryCap sh' = sh_entryCap sh"
    "dom (tmap (sh_data sh')) = dom (tmap (sh_data sh)) - {key}"
proof -
  obtain eid where eid: "tmap (sh_data sh) key = Some eid" using k by auto
  note lt = ids_parts(4) [OF ok eid]
  obtain t where t: "Delete h (sh_data sh) key = Some t" "table_ok h t" "tmap t = (tmap (sh_data sh))(key := None)" "length (t_slots t) = length (t_slots (sh_data sh))"
    using Delete_ok [OF ids_parts(1) [OF ok], of key] by blast
  let ?sh = "sh\<lparr>sh_data := t, sh_entries := (sh_entries sh)[unat eid := \<lparr>p_location = 0, p_meta = 0\<rparr>], sh_freeIDs := sh_freeIDs sh @ [eid]\<rparr>"
  have ne: "i \<noteq> eid" if "tmap (sh_data sh) k' = Some i" "k' \<noteq> key" for k' i using ids_parts(5) [OF ok eid, of k'] that by auto
  have "ids_ok h ?sh" using ok lt t ne by (auto simp: ids_ok_def inj_on_def)
  moreover have "ent ?sh k' = ((ent sh)(key := None)) k'" for k'
  proof (cases "k' = key \<or> tmap (sh_data sh) k' = None")
    case False
    then obtain i where i: "tmap (sh_data sh) k' = Some i" "k' \<noteq> key" by auto
    then have "unat i \<noteq> unat eid" using ne by (auto dest: unsigned_word_eqI)
    then show ?thesis using i by (simp add: ent_def t(3))
  qed (auto simp: ent_def t(3))
  then have "ent ?sh = (ent sh)(key := None)" by blast
  moreover have "sh_delete h sh key = Some (True, ?sh)" using ids_parts(2) [OF ok, of key] eid t(1) lt by (simp add: sh_delete_def)
  ultimately show ?thesis using that [of ?sh] t(3,4) by (simp add: CapacityBytes_def)
qed

end
