(* ===== verification/ShardCorrect.thy ===== *)
theory ShardCorrect
  imports ShardEntries
begin

unbundle bit_operations_syntax

text \<open>Correctness of a shard as a keyspace: the contents is a map from keys to cells, a cell being a typed value with its
  encoded bytes and its deadline. Publication and removal update the map, own every arena block exactly once, and change
  each accounting counter by exactly the change of the bytes it counts.\<close>

subsection \<open>References\<close>

definition is_block :: "Ref \<Rightarrow> bool" where
  "is_block r \<longleftrightarrow> \<not> IsInline r \<and> r_generation r \<noteq> 0"

definition refHolds :: "(Ref \<rightharpoonup> bytes) \<Rightarrow> Ref \<Rightarrow> bytes \<Rightarrow> bool" where
  "refHolds L r v \<longleftrightarrow> (if IsInline r then InlineInto r = Some v else if r_generation r = 0 then v = [] \<and> r_length r = 0 else L r = Some v)"

lemma live_is_block: "arena_ok a L \<Longrightarrow> L r = Some v \<Longrightarrow> is_block r"
  using live_generation by (simp add: is_block_def)

lemma refHolds_block [simp]: "is_block r \<Longrightarrow> refHolds L r v \<longleftrightarrow> L r = Some v"
  by (simp add: refHolds_def is_block_def)

lemma refHolds_other: "\<not> is_block r \<or> r \<noteq> r' \<Longrightarrow> refHolds (L(r' := x)) r v \<longleftrightarrow> refHolds L r v"
  by (auto simp: refHolds_def is_block_def)

lemma View_holds:
  assumes "arena_ok a L" "refHolds L r v"
  shows "View a r = Inr v"
proof (cases "is_block r")
  case True
  then show ?thesis using assms View_inv by (auto simp: arena_ok_def)
qed (use assms(2) in \<open>auto simp: is_block_def refHolds_def View_def\<close>)

lemma live_length:
  assumes "arena_ok a L" "L r = Some v"
  shows "unat (r_length r) = length v" "\<exists>b n. sizeClass (length v) = Some (b, n)"
proof -
  obtain B F where "arena_inv a B F L" using assms(1) unfolding arena_ok_def by blast
  then have "live_ref a B r v" using assms(2) unfolding arena_inv_def live_ok_def by blast
  then show "unat (r_length r) = length v" "\<exists>b n. sizeClass (length v) = Some (b, n)" by (auto simp: live_ref_def)
qed

lemma AllocationBytes_holds:
  assumes "arena_ok a L" "refHolds L r v"
  shows "AllocationBytes r \<noteq> None" "is_block r \<Longrightarrow> AllocationBytes r = AllocationBytesForLength (length v)" "\<not> is_block r \<Longrightarrow> AllocationBytes r = Some 0"
proof -
  have blk: "AllocationBytes r = AllocationBytesForLength (length v) \<and> AllocationBytes r \<noteq> None" if b: "is_block r"
  proof -
    have L: "L r = Some v" using assms(2) b by simp
    obtain k n where "sizeClass (length v) = Some (k, n)" using live_length(2) [OF assms(1) L] by blast
    then show ?thesis using live_length(1) [OF assms(1) L] live_generation [OF assms(1) L] by (simp add: AllocationBytes_def AllocationBytesForLength_def)
  qed
  show "AllocationBytes r = AllocationBytesForLength (length v)" if "is_block r" using blk [OF that] by simp
  show o: "AllocationBytes r = Some 0" if "\<not> is_block r" using that by (auto simp: AllocationBytes_def is_block_def)
  show "AllocationBytes r \<noteq> None" using blk o by (metis option.distinct(1))
qed

lemma Free_holds:
  assumes ok: "arena_ok a L" and r: "refHolds L r v"
  obtains n a' where "Free a r = Some (n, a')" "arena_ok a' (L(r := None))" "TotalMemoryBytes a' + n = TotalMemoryBytes a + FreeGrowth a r"
    "SegmentCount a' = SegmentCount a"
proof (cases "is_block r")
  case True
  then show ?thesis using Free_store [OF ok, of r v] r that by auto
next
  case False
  then have "L(r := None) = L" using live_is_block [OF ok, of r] by (cases "L r") auto
  then show ?thesis using that [of 0 a] False ok by (auto simp: Free_def is_block_def FreeGrowth_def)
qed

lemma nextGeneration_store:
  assumes ok: "arena_ok a L"
  shows "arena_ok (snd (nextGeneration a)) L" "TotalMemoryBytes (snd (nextGeneration a)) = TotalMemoryBytes a"
    "SegmentCount (snd (nextGeneration a)) = SegmentCount a" "a_free (snd (nextGeneration a)) = a_free a"
proof -
  obtain B F where inv: "arena_inv a B F L" using ok unfolding arena_ok_def by blast
  then have sh: "shape_ok a" and bo: "blocks_ok a B" and fo: "free_ok a B F" and lo: "live_ok a B F L" by (simp_all add: arena_inv_def)
  have gen: "unat (a_generation a) < 2 ^ 18" using sh by (simp add: shape_ok_def)
  obtain g where g: "nextGeneration a = (g, a\<lparr>a_generation := g\<rparr>)" "unat g < 2 ^ 18"
    using nextGeneration_range [OF _ gen] by (cases "nextGeneration a") auto
  let ?a = "a\<lparr>a_generation := g\<rparr>"
  have lay: "same_layout a ?a" by (simp add: same_layout_def dat_def)
  have ag: "agree a ?a B p" for p by (simp add: agree_def bytes_at_def dat_def split: prod.splits)
  have "shape_ok ?a" "blocks_ok ?a B" using same_layout_ok [OF lay] g(2) sh bo by simp_all
  moreover have "free_ok ?a B F" by (rule free_ok_agree [OF fo bo]) (simp_all add: freeHead_def ag)
  moreover have "live_ok ?a B F L" using lo ag live_ref_agree [of a B _ _ ?a] unfolding live_ok_def by blast
  ultimately show "arena_ok (snd (nextGeneration a)) L" unfolding arena_ok_def arena_inv_def g(1) by auto
qed (simp_all add: nextGeneration_def Let_def TotalMemoryBytes_def MemoryBytes_def SegmentCount_def)

lemma inline_generation:
  assumes "AllocInline a v = Some (r, a')"
  shows "unat (r_generation r) < 2 ^ 19"
proof -
  have v: "length v \<le> 8" using assms by (auto simp: AllocInline_def split: if_splits)
  have ml: "inlineGenerationMask = mask 14" by (simp add: inlineGenerationMask_def mask_eq_exp_minus_1)
  obtain g where r: "r_generation r = inlineMarker OR push_bit 14 (word_of_nat (length v)) OR (g AND inlineGenerationMask)"
    using assms by (auto simp: AllocInline_def Let_def split: if_splits prod.splits)
  have "unat (word_of_nat (length v) :: u64) < 2 ^ 4" using v by (simp add: unat_of_nat)
  then have w: "k < 4" if "bit (word_of_nat (length v) :: u64) k" for k
    using bits_below [of "word_of_nat (length v) :: u64" 4 k] that by force
  have im: "inlineMarker = 2 ^ 18" by (simp add: inlineMarker_def)
  have m: "bit inlineMarker k \<longleftrightarrow> k = 18" for k unfolding im bit_exp_iff by auto
  have "take_bit 19 (r_generation r) = r_generation r"
  proof (rule bit_word_eqI)
    fix k
    have "k < 19" if "bit (r_generation r) k" using that w [of "k - 14"] unfolding r ml by (auto simp: bit_or_iff bit_and_iff bit_push_bit_iff bit_mask_iff m)
    then show "bit (take_bit 19 (r_generation r)) k = bit (r_generation r) k" by (auto simp: bit_take_bit_iff)
  qed
  then show ?thesis by (metis take_bit_nat_less_exp unsigned_take_bit_eq)
qed

text \<open>Storing the data of a prepared entry, inline or in a block.\<close>

definition allocPrepared :: "Arena \<Rightarrow> preparedEntry \<Rightarrow> (Ref \<times> Arena) option" where
  "allocPrepared a e = (if shouldInlinePrepared e then AllocInline a (e_data e) else Alloc a (e_data e))"

lemma alloc_holds:
  assumes ok: "arena_ok a L" and d: "length (e_data e) + 8 \<le> maxArenaBlock" and n: "SegmentCount a < 2 ^ 25"
  obtains r a' L' g bs where "allocPrepared a e = Some (r, a')" "arena_ok a' L'" "refHolds L' r (e_data e)" "unat (r_generation r) < 2 ^ 19"
    "is_block r \<Longrightarrow> L r = None" "L' = (if is_block r then L(r \<mapsto> e_data e) else L)"
    "(if shouldInlinePrepared e then Some 0 else GrowthFor a [length (e_data e)]) = Some g" "TotalMemoryBytes a' = TotalMemoryBytes a + g"
    "(if shouldInlinePrepared e then Some 0 else AllocationBytesForLength (length (e_data e))) = Some bs" "AllocationBytes r = Some bs"
    "(if is_block r then unat (r_length r) else 0) = (if shouldInlinePrepared e then 0 else length (e_data e))"
    "a_free a' = None \<longleftrightarrow> a_free a = None" "SegmentCount a' \<le> Suc (SegmentCount a)"
proof -
  consider "shouldInlinePrepared e" | "\<not> shouldInlinePrepared e" "e_data e = []" | "\<not> shouldInlinePrepared e" "e_data e \<noteq> []" by blast
  then show ?thesis
  proof cases
    case 1
    then have v: "e_data e \<noteq> []" "length (e_data e) \<le> 8" by (auto simp: shouldInlinePrepared_def)
    obtain r a' where r: "AllocInline a (e_data e) = Some (r, a')" "IsInline r" "InlineInto r = Some (e_data e)" "a' = snd (nextGeneration a)"
      using AllocInline_view [OF v] by blast
    show ?thesis by (rule that [of r a' L 0 0])
      (use 1 r inline_generation [OF r(1)] nextGeneration_store [OF ok] in \<open>simp_all add: allocPrepared_def refHolds_def is_block_def AllocationBytes_def\<close>)
  next
    case 2
    let ?r = "\<lparr>r_location = 0, r_generation = 0\<rparr>"
    have "\<not> IsInline ?r" "r_length ?r = 0" by (simp_all add: IsInline_def r_length_def)
    then show ?thesis by (intro that [of ?r a L 0 0])
      (use 2 ok in \<open>simp_all add: allocPrepared_def Alloc_def refHolds_def is_block_def AllocationBytes_def AllocationBytesForLength_def GrowthFor_def growthStep_def growthStart_def Let_def\<close>)
  next
    case 3
    obtain r a' g where r: "Alloc a (e_data e) = Some (r, a')" "L r = None" "arena_ok a' (L(r \<mapsto> e_data e))" "GrowthFor a [length (e_data e)] = Some g"
      "TotalMemoryBytes a' = TotalMemoryBytes a + g" "a_free a' = None \<longleftrightarrow> a_free a = None" "SegmentCount a' \<le> Suc (SegmentCount a)"
      using Alloc_store [OF ok 3(2) d n] by blast
    have L: "(L(r \<mapsto> e_data e)) r = Some (e_data e)" by simp
    have b: "is_block r" by (rule live_is_block [OF r(3) L])
    have h: "refHolds (L(r \<mapsto> e_data e)) r (e_data e)" using b by simp
    obtain bs where bs: "AllocationBytes r = Some bs" using AllocationBytes_holds(1) [OF r(3) h] by blast
    have "AllocationBytesForLength (length (e_data e)) = Some bs" using AllocationBytes_holds(2) [OF r(3) h b] bs by simp
    then show ?thesis by (intro that [of r a' "L(r \<mapsto> e_data e)" g bs])
      (use 3 r b bs h live_length(1) [OF r(3) L] live_generation [OF r(3) L] in \<open>simp_all add: allocPrepared_def\<close>)
  qed
qed

subsection \<open>The keyspace\<close>

record cell =
  c_type :: valueType
  c_codec :: codecID
  c_rawLength :: u32
  c_stable :: bool
  c_expiresAt :: stamp
  c_data :: bytes

definition cellOf :: "preparedEntry \<Rightarrow> cell" where
  "cellOf e = \<lparr>c_type = v_valueType (e_value e), c_codec = v_codecID (e_value e), c_rawLength = v_rawLength (e_value e),
     c_stable = v_rawStable (e_value e), c_expiresAt = e_expiresAt e, c_data = e_data e\<rparr>"

definition describes :: "(Ref \<rightharpoonup> bytes) \<Rightarrow> SnugValue \<Rightarrow> cell \<Rightarrow> bool" where
  "describes L v c \<longleftrightarrow> v_valueType v = c_type c \<and> v_codecID v = c_codec c \<and> v_rawLength v = c_rawLength c \<and> v_rawStable v = c_stable c
     \<and> v_hasExpiry v = (c_expiresAt c \<noteq> 0) \<and> refHolds L (v_ref v) (c_data c) \<and> \<not> isHotHash v"

definition expiries :: "(bytes \<rightharpoonup> cell) \<Rightarrow> bytes \<rightharpoonup> stamp" where
  "expiries C k = (case C k of None \<Rightarrow> None | Some c \<Rightarrow> if c_expiresAt c = 0 then None else Some (c_expiresAt c))"

definition owned :: "(Ref \<rightharpoonup> bytes) \<Rightarrow> (bytes \<rightharpoonup> SnugValue) \<Rightarrow> bool" where
  "owned L E \<longleftrightarrow> (\<forall>k k' v v'. E k = Some v \<longrightarrow> E k' = Some v' \<longrightarrow> v_ref v = v_ref v' \<longrightarrow> is_block (v_ref v) \<longrightarrow> k = k')
     \<and> (\<forall>r. L r \<noteq> None \<longrightarrow> (\<exists>k v. E k = Some v \<and> v_ref v = r))"

definition contents_ok :: "(Ref \<rightharpoonup> bytes) \<Rightarrow> (bytes \<rightharpoonup> SnugValue) \<Rightarrow> (bytes \<rightharpoonup> cell) \<Rightarrow> bool" where
  "contents_ok L E C \<longleftrightarrow> owned L E \<and> (\<forall>k. rel_option (describes L) (E k) (C k))"

definition shard_inv :: "(bytes \<Rightarrow> u64) \<Rightarrow> shard \<Rightarrow> (Ref \<rightharpoonup> bytes) \<Rightarrow> (bytes \<rightharpoonup> cell) \<Rightarrow> bool" where
  "shard_inv h sh L C \<longleftrightarrow> ids_ok h sh \<and> arena_ok (sh_arena sh) L \<and> queue_ok (sh_expiration sh) \<and> contents_ok L (ent sh) C
     \<and> deadlines (sh_expiration sh) = expiries C"

lemma shard_parts:
  assumes "shard_inv h sh L C"
  shows "ids_ok h sh" "arena_ok (sh_arena sh) L" "queue_ok (sh_expiration sh)" "contents_ok L (ent sh) C"
    "deadlines (sh_expiration sh) = expiries C"
  using assms by (simp_all add: shard_inv_def)

lemma contents_cases:
  assumes "contents_ok L E C"
  obtains "E k = None" "C k = None" | v c where "E k = Some v" "C k = Some c" "describes L v c"
proof -
  have "rel_option (describes L) (E k) (C k)" using assms by (simp add: contents_ok_def)
  then show ?thesis using that by (cases rule: option.rel_cases) auto
qed

lemma contents_Some:
  assumes "contents_ok L E C" "E k = Some v"
  obtains c where "C k = Some c" "describes L v c"
  by (rule contents_cases [OF assms(1), of k]) (use assms(2) that in auto)

lemma contents_rel:
  assumes "contents_ok L E C" "\<And>v c. E k = Some v \<Longrightarrow> describes L v c \<Longrightarrow> describes L' v c"
  shows "rel_option (describes L') (E k) (C k)"
  by (rule contents_cases [OF assms(1), of k]) (use assms(2) in simp_all)

definition release :: "(Ref \<rightharpoonup> bytes) \<Rightarrow> SnugValue option \<Rightarrow> Ref \<rightharpoonup> bytes" where
  "release L old = (case old of None \<Rightarrow> L | Some v \<Rightarrow> L(v_ref v := None))"

lemma contents_drop:
  assumes "contents_ok L E C"
  shows "contents_ok (release L (E key)) (E(key := None)) (C(key := None))"
proof (cases "E key")
  case None
  have "C key = None" by (rule contents_cases [OF assms, of key]) (simp_all add: None)
  then have "E(key := None) = E" "C(key := None) = C" using None by (simp_all add: fun_upd_idem)
  then show ?thesis using assms None by (simp add: release_def)
next
  case (Some o')
  have own: "owned L E" using assms by (simp add: contents_ok_def)
  have "describes (L(v_ref o' := None)) v c" if "E k = Some v" "k \<noteq> key" "describes L v c" for k v c
  proof -
    have "\<not> is_block (v_ref v) \<or> v_ref v \<noteq> v_ref o'" using own that(1,2) Some unfolding owned_def by blast
    then show ?thesis using that(3) by (simp add: describes_def refHolds_other)
  qed
  then have "rel_option (describes (L(v_ref o' := None))) ((E(key := None)) k) ((C(key := None)) k)" for k
    using contents_rel [OF assms, of k] by (cases "k = key") simp_all
  moreover have "owned (L(v_ref o' := None)) (E(key := None))"
    unfolding owned_def
  proof (intro conjI allI impI)
    show "k = k'" if "(E(key := None)) k = Some x" "(E(key := None)) k' = Some x'" "v_ref x = v_ref x'" "is_block (v_ref x)" for k k' x x'
      using that own unfolding owned_def by (simp split: if_splits)
    show "\<exists>k x. (E(key := None)) k = Some x \<and> v_ref x = q" if "(L(v_ref o' := None)) q \<noteq> None" for q
    proof -
      have q: "q \<noteq> v_ref o'" "L q \<noteq> None" using that by (simp_all split: if_splits)
      then obtain k x where x: "E k = Some x" "v_ref x = q" using own unfolding owned_def by blast
      then have "k \<noteq> key" using q(1) Some by auto
      then show ?thesis using x by (intro exI [of _ k] exI [of _ x]) simp
    qed
  qed
  ultimately show ?thesis using Some by (simp add: contents_ok_def release_def)
qed

lemma contents_add:
  assumes "contents_ok L E C" "E key = None" and r: "is_block (v_ref v) \<Longrightarrow> L (v_ref v) = None"
    and L': "L' = (if is_block (v_ref v) then L(v_ref v \<mapsto> c_data c) else L)" and d: "describes L' v c"
  shows "contents_ok L' (E(key \<mapsto> v)) (C(key \<mapsto> c))"
proof -
  have own: "owned L E" using assms by (simp add: contents_ok_def)
  have ne: "is_block (v_ref u) \<Longrightarrow> is_block (v_ref v) \<Longrightarrow> v_ref u \<noteq> v_ref v" if "E k = Some u" for k u
    by (rule contents_Some [OF assms(1) that]) (use r in \<open>auto simp: describes_def\<close>)
  have "describes L' u x" if "E k = Some u" "describes L u x" for k u x
    using that ne [OF that(1)] by (auto simp: L' describes_def refHolds_other)
  then have "rel_option (describes L') ((E(key \<mapsto> v)) k) ((C(key \<mapsto> c)) k)" for k
    using contents_rel [OF assms(1), of k] d by (cases "k = key") simp_all
  moreover have "owned L' (E(key \<mapsto> v))"
    unfolding owned_def
  proof (intro conjI allI impI)
    show "k = k'" if "(E(key \<mapsto> v)) k = Some x" "(E(key \<mapsto> v)) k' = Some x'" "v_ref x = v_ref x'" "is_block (v_ref x)" for k k' x x'
    proof (cases "k = key \<or> k' = key")
      case True
      then show ?thesis using that ne [of k x] ne [of k' x'] by (auto split: if_splits)
    next
      case False
      then show ?thesis using that own unfolding owned_def by (simp split: if_splits)
    qed
    show "\<exists>k x. (E(key \<mapsto> v)) k = Some x \<and> v_ref x = q" if "L' q \<noteq> None" for q
    proof (cases "q = v_ref v")
      case False
      then have "L q \<noteq> None" using that by (auto simp: L' split: if_splits)
      then obtain k x where "E k = Some x" "v_ref x = q" using own unfolding owned_def by blast
      then have "(E(key \<mapsto> v)) k = Some x \<and> v_ref x = q" using assms(2) by auto
      then show ?thesis by blast
    qed auto
  qed
  ultimately show ?thesis by (simp add: contents_ok_def)
qed

lemma contents_put:
  assumes "contents_ok L E C" and r: "is_block (v_ref v) \<Longrightarrow> L (v_ref v) = None"
    and L': "L' = (if is_block (v_ref v) then L(v_ref v \<mapsto> c_data c) else L)" and d: "describes L' v c"
  shows "contents_ok (release L' (E key)) (E(key \<mapsto> v)) (C(key \<mapsto> c))"
proof -
  let ?L = "release L (E key)"
  have ne: "is_block (v_ref v) \<Longrightarrow> v_ref o' \<noteq> v_ref v" if "E key = Some o'" for o'
    by (rule contents_Some [OF assms(1) that]) (use r in \<open>auto simp: describes_def\<close>)
  have eq: "release L' (E key) = (if is_block (v_ref v) then ?L(v_ref v \<mapsto> c_data c) else ?L)"
    using ne by (auto simp: L' release_def fun_eq_iff split: option.splits)
  have "describes (release L' (E key)) v c"
    using d ne by (cases "is_block (v_ref v)"; cases "E key") (auto simp: describes_def release_def refHolds_other)
  moreover have "is_block (v_ref v) \<Longrightarrow> ?L (v_ref v) = None" using r by (auto simp: release_def split: option.splits)
  ultimately have "contents_ok (release L' (E key)) ((E(key := None))(key \<mapsto> v)) ((C(key := None))(key \<mapsto> c))"
    by (intro contents_add [OF contents_drop [OF assms(1), of key] _ _ eq]) simp_all
  then show ?thesis by simp
qed

lemma expiries_put: "expiries (C(key \<mapsto> c)) = (if c_expiresAt c = 0 then (expiries C)(key := None) else (expiries C)(key \<mapsto> c_expiresAt c))"
  by (auto simp: expiries_def fun_eq_iff)

lemma expiries_drop: "expiries (C(key := None)) = (expiries C)(key := None)"
  by (auto simp: expiries_def fun_eq_iff)

subsection \<open>The bytes the counters count\<close>

definition esum :: "(bytes \<Rightarrow> SnugValue \<Rightarrow> u64) \<Rightarrow> (bytes \<rightharpoonup> SnugValue) \<Rightarrow> u64" where
  "esum f E = (\<Sum>k \<in> dom E. f k (the (E k)))"

definition weight :: "(bytes \<Rightarrow> SnugValue \<Rightarrow> u64) \<Rightarrow> bytes \<Rightarrow> SnugValue option \<Rightarrow> u64" where
  "weight f k x = (case x of None \<Rightarrow> 0 | Some v \<Rightarrow> f k v)"

lemma esum_drop:
  assumes "finite (dom E)"
  shows "esum f (E(k := None)) = esum f E - weight f k (E k)"
proof (cases "E k")
  case None
  then have "E(k := None) = E" by (simp add: fun_upd_idem)
  then show ?thesis using None by (simp add: weight_def)
next
  case (Some v)
  have "esum f E = f k v + (\<Sum>k' \<in> dom E - {k}. f k' (the (E k')))"
    unfolding esum_def using assms Some by (subst sum.remove [of _ k]) (auto simp: dom_def)
  moreover have "(\<Sum>k' \<in> dom E - {k}. f k' (the ((E(k := None)) k'))) = (\<Sum>k' \<in> dom E - {k}. f k' (the (E k')))" by (rule sum.cong) auto
  ultimately show ?thesis using Some by (simp add: esum_def weight_def)
qed

lemma esum_put:
  assumes "finite (dom E)"
  shows "esum f (E(k \<mapsto> v)) = esum f E - weight f k (E k) + f k v"
proof -
  have "esum f ((E(k \<mapsto> v))(k := None)) = esum f (E(k \<mapsto> v)) - f k v" using assms by (subst esum_drop) (simp_all add: weight_def)
  moreover have "esum f (E(k := None)) = esum f E - weight f k (E k)" using assms by (rule esum_drop)
  ultimately show ?thesis by (simp add: algebra_simps)
qed

lemma finite_ent:
  assumes "ids_ok h sh"
  shows "finite (dom (ent sh))"
proof -
  have "inj_on (tmap (sh_data sh)) (dom (tmap (sh_data sh)))" using assms by (simp add: ids_ok_def)
  then have "finite (dom (tmap (sh_data sh)))" by (rule finite_imageD [rotated]) simp
  moreover have "dom (ent sh) = dom (tmap (sh_data sh))" by (auto simp: ent_def)
  ultimately show ?thesis by simp
qed

definition payloadOf :: "bytes \<Rightarrow> SnugValue \<Rightarrow> u64" where
  "payloadOf k v = (if is_block (v_ref v) then word_of_nat (unat (r_length (v_ref v))) else 0)"

definition blockOfValue :: "bytes \<Rightarrow> SnugValue \<Rightarrow> u64" where
  "blockOfValue k v = word_of_nat (the (AllocationBytes (v_ref v)))"

definition measured :: "shard \<Rightarrow> accounting" where
  "measured sh = (let index = word_of_nat (CapacityBytes (sh_data sh));
       entries = esum (\<lambda>k v. entryCharge k) (ent sh) + word_of_nat (sh_entryCap sh * entryStructBytes);
       arenas = word_of_nat (TotalMemoryBytes (sh_arena sh)) in
     \<lparr>m_used = index + entries + arenas, m_index = index, m_entries = entries, m_arenas = arenas,
      m_arenaPayload = esum payloadOf (ent sh), m_arenaLiveBlocks = esum blockOfValue (ent sh), m_max = 0\<rparr>)"

text \<open>What the counters hold beyond the bytes of this shard: the share of the other shards and of the other consumers of
  the budget.\<close>

definition slack :: "world \<Rightarrow> accounting" where
  "slack w = (let m = w_memory w; x = measured (w_shard w) in
     \<lparr>m_used = m_used m - m_used x, m_index = m_index m - m_index x, m_entries = m_entries m - m_entries x, m_arenas = m_arenas m - m_arenas x,
      m_arenaPayload = m_arenaPayload m - m_arenaPayload x, m_arenaLiveBlocks = m_arenaLiveBlocks m - m_arenaLiveBlocks x, m_max = m_max m\<rparr>)"

lemma payload_holds:
  assumes "arena_ok (sh_arena sh) L" "refHolds L (v_ref v) d"
  shows "(if IsInline (v_ref v) then Some 0 else map_option length (encoded sh v)) = Some (if is_block (v_ref v) then unat (r_length (v_ref v)) else 0)"
proof (cases "is_block (v_ref v)")
  case True
  then have "L (v_ref v) = Some d" using assms(2) by simp
  then have "unat (r_length (v_ref v)) = length d" by (rule live_length(1) [OF assms(1)])
  then show ?thesis using True View_holds [OF assms] by (simp add: encoded_def is_block_def)
next
  case False
  then consider "IsInline (v_ref v)" | "\<not> IsInline (v_ref v)" "d = []" using assms(2) by (auto simp: is_block_def refHolds_def split: if_splits)
  then show ?thesis using False View_holds [OF assms] by cases (simp_all add: encoded_def)
qed

lemma arenaReleased_eq: "arenaReleased m n = m\<lparr>m_used := m_used m - word_of_nat n, m_arenas := m_arenas m - word_of_nat n\<rparr>"
  by (simp add: arenaReleased_def)

lemma release_ok:
  assumes ok: "arena_ok a L" and old: "\<And>v. old = Some v \<Longrightarrow> \<exists>d. refHolds L (v_ref v) d"
  obtains n a' where "(case old of None \<Rightarrow> Some (0, a) | Some v \<Rightarrow> Free a (v_ref v)) = Some (n, a')" "arena_ok a' (release L old)"
    "TotalMemoryBytes a' + n = TotalMemoryBytes a + (case old of None \<Rightarrow> 0 | Some v \<Rightarrow> FreeGrowth a (v_ref v))" "SegmentCount a' = SegmentCount a"
proof (cases old)
  case (Some v)
  then obtain d where "refHolds L (v_ref v) d" using old by blast
  then show ?thesis using Free_holds [OF ok, of "v_ref v" d] that Some by (auto simp: release_def)
qed (use ok that in \<open>simp add: release_def\<close>)

lemma reserve_eq:
  assumes gi: "(if old \<noteq> None then Some 0 else GrowthBytes (sh_data sh) 1) = Some gi"
    and g: "(if shouldInlinePrepared e then Some 0 else GrowthFor (sh_arena sh) [length (e_data e)]) = Some g"
    and bs: "(if shouldInlinePrepared e then Some 0 else AllocationBytesForLength (length (e_data e))) = Some bs"
    and ok: "arena_ok (sh_arena sh) L" and old: "\<And>v. old = Some v \<Longrightarrow> \<exists>d. refHolds L (v_ref v) d" and cold: "coldValue old = old"
    and fg: "fg = (case old of None \<Rightarrow> 0 | Some v \<Rightarrow> FreeGrowth (sh_arena sh) (v_ref v))"
    and de: "de = (if old = None then entryCharge key + entryGrowthBytes sh 1 else 0)"
    and nu: "nu = m_used m + word_of_nat gi + de + word_of_nat g + word_of_nat fg"
  shows "reserveMemory sh m key e admission old = Some (if exceedsMemoryLimitLocked m nu admission then None else Some (m\<lparr>m_used := nu,
     m_entries := m_entries m + de, m_index := m_index m + word_of_nat gi, m_arenas := m_arenas m + word_of_nat g + word_of_nat fg,
     m_arenaPayload := m_arenaPayload m - weight payloadOf key old + (if shouldInlinePrepared e then 0 else word_of_nat (length (e_data e))),
     m_arenaLiveBlocks := m_arenaLiveBlocks m - weight blockOfValue key old + word_of_nat bs\<rparr>))"
proof (cases old)
  case None
  have n: "m_used m - 0 + entryCharge key + word_of_nat gi + entryGrowthBytes sh 1 + (word_of_nat g + 0) = nu"
    "m_entries m - 0 + entryCharge key + entryGrowthBytes sh 1 = m_entries m + de"
    using None by (simp_all add: nu de fg)
  show ?thesis unfolding reserveMemory_def Let_def cold using None gi g bs n by (simp add: fg weight_def add.assoc)
next
  case (Some v)
  then obtain d where d: "refHolds L (v_ref v) d" using old by blast
  obtain b where b: "AllocationBytes (v_ref v) = Some b" using AllocationBytes_holds(1) [OF ok d] by blast
  have "gi = 0" using gi Some by simp
  then have n: "m_used m - entryCharge key + entryCharge key + 0 + 0 + (word_of_nat g + word_of_nat fg) = nu"
    "m_entries m - entryCharge key + entryCharge key + 0 = m_entries m + de"
    using Some by (simp_all add: nu de)
  show ?thesis unfolding reserveMemory_def Let_def cold using Some g bs b payload_holds [OF ok d] n \<open>gi = 0\<close>
    by (simp add: fg weight_def payloadOf_def blockOfValue_def add.assoc)
qed

definition fits :: "shard \<Rightarrow> bytes \<Rightarrow> preparedEntry \<Rightarrow> bool" where
  "fits sh key e \<longleftrightarrow> \<not> isHotHash (e_value e) \<and> unat (v_codecID (e_value e)) < 2 ^ 6 \<and> unat (v_valueType (e_value e)) < 2 ^ 5 \<and> length (e_data e) + 8 \<le> maxArenaBlock
     \<and> SegmentCount (sh_arena sh) < 2 ^ 25 \<and> (ent sh key = None \<longrightarrow> has_room sh key)"

lemma old_holds:
  assumes "contents_ok L E C" "E key = Some v"
  shows "\<exists>d. refHolds L (v_ref v) d"
  by (rule contents_Some [OF assms]) (auto simp: describes_def)

lemma cold_old:
  assumes "contents_ok L E C"
  shows "coldValue (E key) = E key"
proof (cases "E key")
  case (Some v)
  show ?thesis by (rule contents_Some [OF assms Some]) (simp add: Some coldValue_def describes_def)
qed (simp add: coldValue_def)

lemma entry_growth: "word_of_nat (entryCapacityFor sh 1 * entryStructBytes) = word_of_nat (sh_entryCap sh * entryStructBytes) + entryGrowthBytes sh 1"
proof -
  obtain d where "entryCapacityFor sh 1 = sh_entryCap sh + d" using entryCapacityFor_ge [of sh 1] le_Suc_ex by blast
  then show ?thesis by (simp add: entryGrowthBytes_def add_mult_distrib)
qed

lemma entries_frame [simp]:
  "ent (sh\<lparr>sh_arena := a\<rparr>) = ent sh" "ent (sh\<lparr>sh_expiration := q\<rparr>) = ent sh"
  "ids_ok h (sh\<lparr>sh_arena := a\<rparr>) = ids_ok h sh" "ids_ok h (sh\<lparr>sh_expiration := q\<rparr>) = ids_ok h sh"
  "has_room (sh\<lparr>sh_arena := a\<rparr>) key = has_room sh key" "entryCapacityFor (sh\<lparr>sh_arena := a\<rparr>) n = entryCapacityFor sh n"
  by (simp_all add: ent_def fun_eq_iff ids_ok_def has_room_def entryCapacityFor_def)

text \<open>The shard after the entry was set, the old block freed and the deadline scheduled.\<close>

lemma placed:
  assumes inv: "shard_inv h sh L C" and fits: "fits sh key e" and al: "allocPrepared (sh_arena sh) e = Some (r, a)" "arena_ok a L1"
      "refHolds L1 r (e_data e)" "unat (r_generation r) < 2 ^ 19" "is_block r \<Longrightarrow> L r = None" "L1 = (if is_block r then L(r \<mapsto> e_data e) else L)"
    and v: "v = (e_value e)\<lparr>v_ref := r, v_hasExpiry := (e_expiresAt e \<noteq> 0)\<rparr>" and hash: "hash = None \<or> hash = Some (h key)"
  obtains sh1 n a2 q where
    "(case hash of Some x \<Rightarrow> setKnownHashed h (sh\<lparr>sh_arena := a\<rparr>) key x v (ent sh key \<noteq> None) | None \<Rightarrow> sh_set h (sh\<lparr>sh_arena := a\<rparr>) key v) = Some sh1"
    "put_result h (sh\<lparr>sh_arena := a\<rparr>) key v sh1"
    "(case ent sh key of None \<Rightarrow> Some (0, a) | Some v \<Rightarrow> Free a (v_ref v)) = Some (n, a2)" "SegmentCount a2 = SegmentCount a"
    "TotalMemoryBytes a2 + n = TotalMemoryBytes a + (case ent sh key of None \<Rightarrow> 0 | Some v \<Rightarrow> FreeGrowth a (v_ref v))"
    "schedule (sh_expiration sh) key (e_expiresAt e) = Some q"
    "shard_inv h (sh1\<lparr>sh_arena := a2, sh_expiration := q\<rparr>) (release L1 (ent sh key)) (C(key \<mapsto> cellOf e))"
proof -
  let ?sh = "sh\<lparr>sh_arena := a\<rparr>"
  note P = shard_parts [OF inv]
  have ids: "ids_ok h ?sh" using P(1) by simp
  have pk: "packable v" using fits al(4) by (simp add: v packable_def fits_def)
  have room: "has_room ?sh key" if "ent ?sh key = None" using fits that by (simp add: fits_def)
  obtain sh1 where s1: "(case hash of Some x \<Rightarrow> setKnownHashed h ?sh key x v (ent sh key \<noteq> None) | None \<Rightarrow> sh_set h ?sh key v) = Some sh1"
    "put_result h ?sh key v sh1"
  proof (cases hash)
    case None
    then show ?thesis using sh_set_ok [OF ids pk room] that by auto
  next
    case (Some x)
    then have "x = h key" using hash by simp
    moreover obtain sh1 where "setKnownHashed h ?sh key (h key) v (ent ?sh key \<noteq> None) = Some sh1" "put_result h ?sh key v sh1"
      using setKnownHashed_ok [OF ids pk room] .
    ultimately show ?thesis using that Some by simp
  qed
  have ne: "refHolds L (v_ref o') d \<Longrightarrow> refHolds L1 (v_ref o') d" for o' d
    using al(5) by (auto simp: al(6) refHolds_def is_block_def split: if_splits)
  obtain n a2 where f: "(case ent sh key of None \<Rightarrow> Some (0, a) | Some v \<Rightarrow> Free a (v_ref v)) = Some (n, a2)" "arena_ok a2 (release L1 (ent sh key))"
    "TotalMemoryBytes a2 + n = TotalMemoryBytes a + (case ent sh key of None \<Rightarrow> 0 | Some v \<Rightarrow> FreeGrowth a (v_ref v))" "SegmentCount a2 = SegmentCount a"
    using release_ok [OF al(2), of "ent sh key"] old_holds [OF P(4)] ne by metis
  obtain q where q: "schedule (sh_expiration sh) key (e_expiresAt e) = Some q" "queue_ok q"
    "deadlines q = (if e_expiresAt e = 0 then (deadlines (sh_expiration sh))(key := None) else (deadlines (sh_expiration sh))(key \<mapsto> e_expiresAt e))"
    using schedule_ok [OF P(3)] by blast
  have "describes L1 v (cellOf e)" using al(3) fits by (simp add: describes_def cellOf_def v fits_def isHotHash_def)
  then have "contents_ok (release L1 (ent sh key)) ((ent sh)(key \<mapsto> v)) (C(key \<mapsto> cellOf e))"
    using al(5,6) by (intro contents_put [OF P(4)]) (simp_all add: v cellOf_def)
  moreover have "deadlines q = expiries (C(key \<mapsto> cellOf e))" using q(3) P(5) by (simp add: expiries_put cellOf_def)
  ultimately have "shard_inv h (sh1\<lparr>sh_arena := a2, sh_expiration := q\<rparr>) (release L1 (ent sh key)) (C(key \<mapsto> cellOf e))"
    using f(2) q(2) s1(2) by (simp add: shard_inv_def put_result_def)
  then show ?thesis by (rule that [OF s1 f(1,4,3) q(1)])
qed

lemma measured_parts:
  "m_index (measured sh) = word_of_nat (CapacityBytes (sh_data sh))"
  "m_entries (measured sh) = esum (\<lambda>k v. entryCharge k) (ent sh) + word_of_nat (sh_entryCap sh * entryStructBytes)"
  "m_arenas (measured sh) = word_of_nat (TotalMemoryBytes (sh_arena sh))" "m_arenaPayload (measured sh) = esum payloadOf (ent sh)"
  "m_arenaLiveBlocks (measured sh) = esum blockOfValue (ent sh)"
  "m_used (measured sh) = m_index (measured sh) + m_entries (measured sh) + m_arenas (measured sh)"
  by (simp_all add: measured_def Let_def)

lemma slack_eqI:
  assumes "m_index (w_memory w') - m_index (w_memory w) = m_index (measured (w_shard w')) - m_index (measured (w_shard w))"
    "m_entries (w_memory w') - m_entries (w_memory w) = m_entries (measured (w_shard w')) - m_entries (measured (w_shard w))"
    "m_arenas (w_memory w') - m_arenas (w_memory w) = m_arenas (measured (w_shard w')) - m_arenas (measured (w_shard w))"
    "m_arenaPayload (w_memory w') - m_arenaPayload (w_memory w) = m_arenaPayload (measured (w_shard w')) - m_arenaPayload (measured (w_shard w))"
    "m_arenaLiveBlocks (w_memory w') - m_arenaLiveBlocks (w_memory w) = m_arenaLiveBlocks (measured (w_shard w')) - m_arenaLiveBlocks (measured (w_shard w))"
    "m_used (w_memory w') - m_used (w_memory w) = m_index (w_memory w') - m_index (w_memory w) + (m_entries (w_memory w') - m_entries (w_memory w))
       + (m_arenas (w_memory w') - m_arenas (w_memory w))"
    "m_max (w_memory w') = m_max (w_memory w)"
  shows "slack w' = slack w"
proof -
  have d: "x' - y' = x - y" if "x' - x = y' - y" for x x' y y' :: u64 using that by (metis add_diff_cancel_left' diff_add_cancel diff_diff_eq2 add.commute)
  have u: "m_used (w_memory w') - m_used (w_memory w) = m_used (measured (w_shard w')) - m_used (measured (w_shard w))"
    unfolding assms(6) assms(1-3) measured_parts(6) by (simp add: algebra_simps)
  show ?thesis unfolding slack_def Let_def using d [OF u] d [OF assms(1)] d [OF assms(2)] d [OF assms(3)] d [OF assms(4)] d [OF assms(5)] assms(7) by simp
qed

lemma slack_put:
  assumes fin: "finite (dom (ent sh))" and E: "ent sh2 = (ent sh)(key \<mapsto> v)"
    and cap: "sh_entryCap sh2 = (if ent sh key = None then entryCapacityFor sh 1 else sh_entryCap sh)"
    and ix: "CapacityBytes (sh_data sh2) = CapacityBytes (sh_data sh) + gi"
    and ar: "TotalMemoryBytes (sh_arena sh2) + n = TotalMemoryBytes (sh_arena sh) + g + fg"
    and bl: "payloadOf key v = pay" "AllocationBytes (v_ref v) = Some bs"
    and de: "de = (if ent sh key = None then entryCharge key + entryGrowthBytes sh 1 else 0)"
    and w: "w_shard w = sh" "w_memory w = m"
    and m1: "m1 = m\<lparr>m_used := m_used m + word_of_nat gi + de + word_of_nat g + word_of_nat fg, m_entries := m_entries m + de,
      m_index := m_index m + word_of_nat gi, m_arenas := m_arenas m + word_of_nat g + word_of_nat fg,
      m_arenaPayload := m_arenaPayload m - weight payloadOf key (ent sh key) + pay,
      m_arenaLiveBlocks := m_arenaLiveBlocks m - weight blockOfValue key (ent sh key) + word_of_nat bs\<rparr>"
    and w': "w_shard w' = sh2" "w_memory w' = arenaReleased m1 n"
  shows "slack w' = slack w"
proof -
  have "word_of_nat (TotalMemoryBytes (sh_arena sh2) + n) = (word_of_nat (TotalMemoryBytes (sh_arena sh) + g + fg) :: u64)" by (simp add: ar)
  then have T: "word_of_nat (TotalMemoryBytes (sh_arena sh2)) = (word_of_nat (TotalMemoryBytes (sh_arena sh)) + word_of_nat g + word_of_nat fg - word_of_nat n :: u64)"
    by (simp add: algebra_simps)
  have I: "word_of_nat (CapacityBytes (sh_data sh2)) = (word_of_nat (CapacityBytes (sh_data sh)) + word_of_nat gi :: u64)" by (simp add: ix)
  have "weight (\<lambda>k v. entryCharge k) key (ent sh key) = (if ent sh key = None then 0 else entryCharge key)"
    by (simp add: weight_def del: ent_None split: option.splits)
  then have "esum (\<lambda>k v. entryCharge k) (ent sh2) = esum (\<lambda>k v. entryCharge k) (ent sh) + (if ent sh key = None then entryCharge key else 0)"
    unfolding E esum_put [OF fin] by (simp del: ent_None)
  then have N: "m_entries (measured sh2) = m_entries (measured sh) + de"
    using entry_growth [of sh] by (simp add: measured_parts cap de del: ent_None)
  have Y: "esum payloadOf (ent sh2) = esum payloadOf (ent sh) - weight payloadOf key (ent sh key) + pay"
    "esum blockOfValue (ent sh2) = esum blockOfValue (ent sh) - weight blockOfValue key (ent sh key) + word_of_nat bs"
    using bl by (simp_all add: E esum_put [OF fin] blockOfValue_def)
  show ?thesis by (rule slack_eqI) (simp_all add: w w' m1 arenaReleased_eq N, simp_all add: measured_parts T I Y)
qed

lemma Free_bound:
  assumes "Free a r = Some (n, a')"
  shows "n < 2 ^ 26"
proof -
  have "block < 2 ^ 26" if "sizeClass (unat (r_length r)) = Some (b, block)" for b block
    using sizeClass_SomeD [OF that] by (simp add: class_ok_def maxArenaBlock_def)
  then show ?thesis using assms by (auto simp: Free_def Let_def split: if_splits sum.splits option.splits prod.splits)
qed

lemma publish_known:
  assumes inv: "shard_inv h (w_shard w) L C" and fits: "fits (w_shard w) key e" and hash: "hash = None \<or> hash = Some (h key)"
  obtains (refused) "publishRecordKnownWithHash h w key hash e admission (ent (w_shard w) key) = Some (False, w)"
      "admission = EnforceMemoryLimit" "0 < m_max (w_memory w)"
  | (stored) w' L' n where "publishRecordKnownWithHash h w key hash e admission (ent (w_shard w) key) = Some (True, w')"
      "shard_inv h (w_shard w') L' (C(key \<mapsto> cellOf e))" "slack w' = slack w" "w_expired w' = w_expired w"
      "SegmentCount (sh_arena (w_shard w')) \<le> Suc (SegmentCount (sh_arena (w_shard w)))" "n < 2 ^ 26"
      "\<not> exceedsMemoryLimitLocked (w_memory w) (m_used (w_memory w') + word_of_nat n) admission"
proof -
  define sh m old where "sh = w_shard w" and "m = w_memory w" and "old = ent sh key"
  note P = shard_parts [OF inv, folded sh_def]
  have f: "length (e_data e) + 8 \<le> maxArenaBlock" "SegmentCount (sh_arena sh) < 2 ^ 25" using fits by (simp_all add: fits_def sh_def)
  obtain r a L1 g bs where al: "allocPrepared (sh_arena sh) e = Some (r, a)" "arena_ok a L1" "refHolds L1 r (e_data e)" "unat (r_generation r) < 2 ^ 19"
    "is_block r \<Longrightarrow> L r = None" "L1 = (if is_block r then L(r \<mapsto> e_data e) else L)"
    "(if shouldInlinePrepared e then Some 0 else GrowthFor (sh_arena sh) [length (e_data e)]) = Some g" "TotalMemoryBytes a = TotalMemoryBytes (sh_arena sh) + g"
    "(if shouldInlinePrepared e then Some 0 else AllocationBytesForLength (length (e_data e))) = Some bs" "AllocationBytes r = Some bs"
    "(if is_block r then unat (r_length r) else 0) = (if shouldInlinePrepared e then 0 else length (e_data e))"
    "a_free a = None \<longleftrightarrow> a_free (sh_arena sh) = None" "SegmentCount a \<le> Suc (SegmentCount (sh_arena sh))"
    using alloc_holds [OF P(2) f] by blast
  define v where "v = (e_value e)\<lparr>v_ref := r, v_hasExpiry := (e_expiresAt e \<noteq> 0)\<rparr>"
  obtain sh1 n a2 q where pl:
    "(case hash of Some x \<Rightarrow> setKnownHashed h (sh\<lparr>sh_arena := a\<rparr>) key x v (old \<noteq> None) | None \<Rightarrow> sh_set h (sh\<lparr>sh_arena := a\<rparr>) key v) = Some sh1"
    "put_result h (sh\<lparr>sh_arena := a\<rparr>) key v sh1"
    "(case old of None \<Rightarrow> Some (0, a) | Some v \<Rightarrow> Free a (v_ref v)) = Some (n, a2)" "SegmentCount a2 = SegmentCount a"
    "TotalMemoryBytes a2 + n = TotalMemoryBytes a + (case old of None \<Rightarrow> 0 | Some v \<Rightarrow> FreeGrowth a (v_ref v))"
    "schedule (sh_expiration sh) key (e_expiresAt e) = Some q"
    "shard_inv h (sh1\<lparr>sh_arena := a2, sh_expiration := q\<rparr>) (release L1 old) (C(key \<mapsto> cellOf e))"
    unfolding old_def using placed [OF inv [folded sh_def] fits [folded sh_def] al(1-6) v_def hash] by metis
  have s1: "sh_arena sh1 = a" "sh_expiration sh1 = sh_expiration sh" "ent sh1 = (ent sh)(key \<mapsto> v)"
    "sh_entryCap sh1 = (if old = None then entryCapacityFor sh 1 else sh_entryCap sh)" using pl(2) by (simp_all add: put_result_def old_def)
  obtain gi where gi: "(if old \<noteq> None then Some 0 else GrowthBytes (sh_data sh) 1) = Some gi" "CapacityBytes (sh_data sh1) = CapacityBytes (sh_data sh) + gi"
    using pl(2) by (auto simp: put_result_def old_def split: if_splits)
  define fg de nu where "fg = (case old of None \<Rightarrow> 0 | Some v \<Rightarrow> FreeGrowth (sh_arena sh) (v_ref v))"
    and "de = (if old = None then entryCharge key + entryGrowthBytes sh 1 else 0)"
    and "nu = m_used m + word_of_nat gi + de + word_of_nat g + word_of_nat fg"
  have cold: "coldValue old = old" unfolding old_def by (rule cold_old [OF P(4)])
  have old: "\<exists>d. refHolds L (v_ref o') d" if "old = Some o'" for o' using old_holds [OF P(4)] that by (simp add: old_def)
  note re = reserve_eq [OF gi(1) al(7) al(9) P(2) old cold fg_def de_def nu_def, of admission]
  have "publishRecordKnownWithHash h w key hash e admission old = Some (False, w) \<and> admission = EnforceMemoryLimit \<and> 0 < m_max m"
    if "exceedsMemoryLimitLocked m nu admission"
    using that re by (simp add: publishRecordKnownWithHash_def sh_def [symmetric] m_def [symmetric] exceedsMemoryLimitLocked_def)
  moreover have ?thesis if ne: "\<not> exceedsMemoryLimitLocked m nu admission"
  proof -
    define pay where "pay = (if shouldInlinePrepared e then 0 else word_of_nat (length (e_data e)) :: u64)"
    define m1 where "m1 = m\<lparr>m_used := m_used m + word_of_nat gi + de + word_of_nat g + word_of_nat fg, m_entries := m_entries m + de,
      m_index := m_index m + word_of_nat gi, m_arenas := m_arenas m + word_of_nat g + word_of_nat fg,
      m_arenaPayload := m_arenaPayload m - weight payloadOf key old + pay, m_arenaLiveBlocks := m_arenaLiveBlocks m - weight blockOfValue key old + word_of_nat bs\<rparr>"
    have m1: "reserveMemory sh m key e admission old = Some (Some m1)" using re ne by (simp add: m1_def nu_def pay_def)
    define sh2 where "sh2 = sh1\<lparr>sh_arena := a2, sh_expiration := q\<rparr>"
    define w' where "w' = w\<lparr>w_shard := sh2, w_memory := arenaReleased m1 n\<rparr>"
    have rel: "(case old of None \<Rightarrow> Some (0, sh1) | Some o' \<Rightarrow> map_option (\<lambda>(n, a). (n, sh1\<lparr>sh_arena := a\<rparr>)) (Free (sh_arena sh1) (v_ref o'))) = Some (n, sh1\<lparr>sh_arena := a2\<rparr>)"
      using pl(3) s1(1) by (cases old) simp_all
    have run: "publishRecordKnownWithHash h w key hash e admission old = Some (True, w')"
      unfolding publishRecordKnownWithHash_def sh_def [symmetric] m_def [symmetric] cold
      using m1 al(1) pl(1,6) rel s1(2) by (simp add: allocPrepared_def v_def [symmetric] sh_schedule_def w'_def sh2_def)
    have "payloadOf key v = word_of_nat (if is_block r then unat (r_length r) else 0)" by (simp add: payloadOf_def v_def)
    then have "payloadOf key v = pay" unfolding al(11) by (simp add: pay_def)
    moreover have "FreeGrowth a x = FreeGrowth (sh_arena sh) x" for x using al(12) by (simp add: FreeGrowth_def)
    then have "TotalMemoryBytes a2 + n = TotalMemoryBytes (sh_arena sh) + g + fg" using pl(5) al(8) by (cases old) (simp_all add: fg_def)
    ultimately have sl: "slack w' = slack w"
      by (intro slack_put [OF finite_ent [OF P(1)], of sh2 key v gi n g fg pay bs de w m m1])
        (use s1 gi(2) al(10) in \<open>simp_all add: sh2_def w'_def de_def old_def m1_def v_def sh_def m_def\<close>)
    have n: "n < 2 ^ 26" using pl(3) Free_bound by (cases old) auto
    have "m_used (w_memory w') + word_of_nat n = nu" by (simp add: w'_def arenaReleased_eq m1_def nu_def)
    then show ?thesis by (intro stored [OF run [unfolded old_def sh_def] _ sl _ _ n]) (use pl(4,7) al(13) ne in \<open>simp_all add: w'_def sh2_def sh_def m_def\<close>)
  qed
  ultimately show ?thesis using refused by (auto simp: old_def sh_def m_def)
qed

subsection \<open>Reading and removing\<close>

lemma read_ok:
  assumes inv: "shard_inv h sh L C" and c: "C key = Some c"
  obtains v where "sh_get h sh key = Some (Some v)" "v_valueType v = c_type c" "v_codecID v = c_codec c" "v_rawLength v = c_rawLength c"
    "v_rawStable v = c_stable c" "encoded sh v = Some (c_data c)" "expirationAt sh key v = Some (c_expiresAt c)"
    "\<And>now. expired sh key v now = Some (c_expiresAt c \<noteq> 0 \<and> now \<ge> c_expiresAt c)"
    "ent sh key = Some v" "describes L v c"
proof -
  note P = shard_parts [OF inv]
  obtain v where v: "ent sh key = Some v" "describes L v c" by (rule contents_cases [OF P(4), of key]) (use c in auto)
  have at: "expirationAt sh key v = Some (c_expiresAt c)"
    using v(2) c atFor_deadlines [OF P(3), of key] P(5) by (simp add: expirationAt_def describes_def expiries_def)
  have "encoded sh v = Some (c_data c)" using View_holds [OF P(2), of "v_ref v" "c_data c"] v(2) by (simp add: encoded_def describes_def)
  then show ?thesis
    by (rule that [rotated 5]) (use v at sh_get_ok [OF P(1)] in \<open>simp_all add: describes_def expired_def\<close>)
qed

lemma absent_ok:
  assumes inv: "shard_inv h sh L C" and c: "C key = None"
  shows "sh_get h sh key = Some None" "ent sh key = None"
proof -
  note P = shard_parts [OF inv]
  show "ent sh key = None" by (rule contents_cases [OF P(4), of key]) (use c in auto)
  then show "sh_get h sh key = Some None" using sh_get_ok [OF P(1)] by simp
qed

lemma slack_drop:
  assumes fin: "finite (dom (ent sh))" and E: "ent sh2 = (ent sh)(key := None)" "ent sh key = Some v"
    and same: "sh_entryCap sh2 = sh_entryCap sh" "CapacityBytes (sh_data sh2) = CapacityBytes (sh_data sh)"
    and ar: "TotalMemoryBytes (sh_arena sh2) + n = TotalMemoryBytes (sh_arena sh) + fg"
    and w: "w_shard w = sh" "w_memory w = m"
    and m1: "m1 = m\<lparr>m_used := m_used m - entryCharge key + word_of_nat fg, m_entries := m_entries m - entryCharge key,
      m_arenas := m_arenas m + word_of_nat fg, m_arenaPayload := m_arenaPayload m - payloadOf key v,
      m_arenaLiveBlocks := m_arenaLiveBlocks m - blockOfValue key v\<rparr>"
    and w': "w_shard w' = sh2" "w_memory w' = arenaReleased m1 n"
  shows "slack w' = slack w"
proof -
  have "word_of_nat (TotalMemoryBytes (sh_arena sh2) + n) = (word_of_nat (TotalMemoryBytes (sh_arena sh) + fg) :: u64)" by (simp add: ar)
  then have T: "word_of_nat (TotalMemoryBytes (sh_arena sh2)) = (word_of_nat (TotalMemoryBytes (sh_arena sh)) + word_of_nat fg - word_of_nat n :: u64)"
    by (simp add: algebra_simps)
  have Y: "esum f (ent sh2) = esum f (ent sh) - f key v" for f by (simp add: E esum_drop [OF fin] weight_def)
  show ?thesis by (rule slack_eqI) (simp_all add: w w' m1 arenaReleased_eq measured_parts same, simp_all add: T Y)
qed

lemma remove_ok:
  assumes inv: "shard_inv h (w_shard w) L C" and c: "C key = Some c"
  obtains w' L' where "removeKey h w key now = Some w'" "shard_inv h (w_shard w') L' (C(key := None))" "slack w' = slack w"
    "w_expired w' = w_expired w + (if c_expiresAt c \<noteq> 0 \<and> now \<ge> c_expiresAt c then 1 else 0)"
    "SegmentCount (sh_arena (w_shard w')) = SegmentCount (sh_arena (w_shard w))"
proof -
  define sh m where "sh = w_shard w" and "m = w_memory w"
  note inv' = inv [folded sh_def]
  note P = shard_parts [OF inv']
  obtain v where v: "sh_get h sh key = Some (Some v)" "expired sh key v now = Some (c_expiresAt c \<noteq> 0 \<and> now \<ge> c_expiresAt c)"
    "ent sh key = Some v" "describes L v c" using read_ok [OF inv' c] by metis
  have hot: "\<not> isHotHash v" and r: "refHolds L (v_ref v) (c_data c)" using v(4) by (simp_all add: describes_def)
  obtain b where b: "AllocationBytes (v_ref v) = Some b" using AllocationBytes_holds(1) [OF P(2) r] by blast
  obtain sh1 where d: "sh_delete h sh key = Some (True, sh1)" "ids_ok h sh1" "ent sh1 = (ent sh)(key := None)" "sh_arena sh1 = sh_arena sh"
    "sh_expiration sh1 = sh_expiration sh" "CapacityBytes (sh_data sh1) = CapacityBytes (sh_data sh)" "sh_entryCap sh1 = sh_entryCap sh"
    using sh_delete_ok [OF P(1), of key] v(3) by (metis option.distinct(1))
  obtain n a where f: "Free (sh_arena sh) (v_ref v) = Some (n, a)" "arena_ok a (L(v_ref v := None))"
    "TotalMemoryBytes a + n = TotalMemoryBytes (sh_arena sh) + FreeGrowth (sh_arena sh) (v_ref v)" "SegmentCount a = SegmentCount (sh_arena sh)"
    using Free_holds [OF P(2) r] .
  obtain q where q: "schedule (sh_expiration sh) key 0 = Some q" "queue_ok q" "deadlines q = (deadlines (sh_expiration sh))(key := None)"
    using schedule_ok [OF P(3), of key 0] by auto
  let ?sh = "sh1\<lparr>sh_arena := a, sh_expiration := q\<rparr>"
  have "contents_ok (L(v_ref v := None)) ((ent sh)(key := None)) (C(key := None))" using contents_drop [OF P(4), of key] v(3) by (simp add: release_def)
  then have inv2: "shard_inv h ?sh (L(v_ref v := None)) (C(key := None))"
    using d f(2) q(2,3) P(5) by (simp add: shard_inv_def expiries_drop)
  have pay: "(if isHotHash v \<or> IsInline (v_ref v) then Some 0 else map_option length (encoded sh v)) = Some (if is_block (v_ref v) then unat (r_length (v_ref v)) else 0)"
    using payload_holds [OF P(2) r] hot by simp
  define fg m1 where "fg = FreeGrowth (sh_arena sh) (v_ref v)"
    and "m1 = m\<lparr>m_used := m_used m - entryCharge key + word_of_nat fg, m_entries := m_entries m - entryCharge key,
      m_arenas := m_arenas m + word_of_nat fg, m_arenaPayload := m_arenaPayload m - payloadOf key v, m_arenaLiveBlocks := m_arenaLiveBlocks m - blockOfValue key v\<rparr>"
  define w' where "w' = w\<lparr>w_shard := ?sh, w_memory := arenaReleased m1 n,
    w_expired := (if c_expiresAt c \<noteq> 0 \<and> now \<ge> c_expiresAt c then w_expired w + 1 else w_expired w)\<rparr>"
  have pw: "payloadOf key v = word_of_nat (if is_block (v_ref v) then unat (r_length (v_ref v)) else 0)" "blockOfValue key v = word_of_nat b"
    using b by (simp_all add: payloadOf_def blockOfValue_def)
  have run: "removeKey h w key now = Some w'"
    unfolding removeKey_def Let_def sh_def [symmetric] m_def [symmetric]
    using v(1,2) pay b d(1,4,5) f(1) q(1) hot unfolding w'_def m1_def pw fg_def by (simp add: sh_schedule_def)
  have "slack w' = slack w"
    by (rule slack_drop [OF finite_ent [OF P(1)], of ?sh key v n fg w m m1])
      (use d(3,6,7) v(3) f(3) in \<open>simp_all add: w'_def m1_def fg_def sh_def m_def\<close>)
  then show ?thesis by (rule that [OF run, rotated]) (use inv2 f(4) in \<open>simp_all add: w'_def sh_def\<close>)
qed

end
