(* ===== verification/Keyspace.thy ===== *)
theory Keyspace
  imports ShardCorrect
begin

text \<open>The shard as a keyspace under arbitrary histories of publications and removals, and the memory limit.\<close>

subsection \<open>The contract\<close>

fun runSteps :: "('w \<Rightarrow> 'o \<Rightarrow> (bool \<times> 'w) option) \<Rightarrow> 'o list \<Rightarrow> 'w \<Rightarrow> (bool list \<times> 'w) option" where
  "runSteps step [] w = Some ([], w)"
| "runSteps step (x # xs) w = do {
     (b, w) \<leftarrow> step w x;
     (bs, w) \<leftarrow> runSteps step xs w;
     Some (b # bs, w)
   }"

fun canAll :: "('w \<Rightarrow> 'o \<Rightarrow> (bool \<times> 'w) option) \<Rightarrow> ('w \<Rightarrow> 'o \<Rightarrow> bool) \<Rightarrow> 'o list \<Rightarrow> 'w \<Rightarrow> bool" where
  "canAll step can [] w \<longleftrightarrow> True"
| "canAll step can (x # xs) w \<longleftrightarrow> can w x \<and> (case step w x of None \<Rightarrow> True | Some (b, w') \<Rightarrow> canAll step can xs w')"

fun effects :: "('o \<Rightarrow> 'c \<Rightarrow> 'c) \<Rightarrow> 'o list \<Rightarrow> bool list \<Rightarrow> 'c \<Rightarrow> 'c" where
  "effects effect (x # xs) (b # bs) c = effects effect xs bs (if b then effect x c else c)"
| "effects effect _ _ c = c"

text \<open>A store holds contents that an operation it accepts changes by its effect and an operation it refuses leaves alone; its
  charge never changes, and a store whose charge sets no limit refuses nothing.\<close>

locale keyspace =
  fixes ok :: "'w \<Rightarrow> 'c \<Rightarrow> bool" and step :: "'w \<Rightarrow> 'o \<Rightarrow> (bool \<times> 'w) option" and can :: "'w \<Rightarrow> 'o \<Rightarrow> bool"
    and effect :: "'o \<Rightarrow> 'c \<Rightarrow> 'c" and charge :: "'w \<Rightarrow> 'a" and unlimited :: "'a \<Rightarrow> bool"
  assumes step_ok: "ok w c \<Longrightarrow> can w x \<Longrightarrow> \<exists>b w'. step w x = Some (b, w') \<and> ok w' (if b then effect x c else c) \<and> charge w' = charge w
      \<and> (unlimited (charge w) \<longrightarrow> b)"
begin

lemma run_ok:
  "ok w c \<Longrightarrow> canAll step can xs w \<Longrightarrow> \<exists>bs w'. runSteps step xs w = Some (bs, w') \<and> ok w' (effects effect xs bs c) \<and> charge w' = charge w
     \<and> length bs = length xs \<and> (unlimited (charge w) \<longrightarrow> list_all (\<lambda>b. b) bs)"
proof (induction xs arbitrary: w c)
  case (Cons x xs)
  have "can w x" using Cons.prems(2) by simp
  then obtain b w1 where 1: "step w x = Some (b, w1)" "ok w1 (if b then effect x c else c)" "charge w1 = charge w" "unlimited (charge w) \<longrightarrow> b"
    using step_ok [OF Cons.prems(1)] by blast
  then have "canAll step can xs w1" using Cons.prems(2) by simp
  then obtain bs w2 where "runSteps step xs w1 = Some (bs, w2)" "ok w2 (effects effect xs bs (if b then effect x c else c))" "charge w2 = charge w1"
    "length bs = length xs" "unlimited (charge w1) \<longrightarrow> list_all (\<lambda>b. b) bs" using Cons.IH [OF 1(2)] by blast
  then show ?case using 1 by (intro exI [of _ "b # bs"] exI [of _ w2]) simp
qed simp

end

subsection \<open>The shard keeps it\<close>

datatype storeOp = PutOp bytes preparedEntry | RemoveOp bytes stamp

fun storeStep :: "(bytes \<Rightarrow> u64) \<Rightarrow> world \<Rightarrow> storeOp \<Rightarrow> (bool \<times> world) option" where
  "storeStep h w (PutOp key e) = publish h w key e"
| "storeStep h w (RemoveOp key now) = map_option (\<lambda>w'. (True, w')) (removeKey h w key now)"

fun storeEffect :: "storeOp \<Rightarrow> (bytes \<rightharpoonup> cell) \<Rightarrow> bytes \<rightharpoonup> cell" where
  "storeEffect (PutOp key e) C = C(key \<mapsto> cellOf e)"
| "storeEffect (RemoveOp key now) C = C(key := None)"

fun storeFits :: "world \<Rightarrow> storeOp \<Rightarrow> bool" where
  "storeFits w (PutOp key e) \<longleftrightarrow> fits (w_shard w) key e"
| "storeFits w (RemoveOp key now) \<longleftrightarrow> True"

definition holds :: "(bytes \<Rightarrow> u64) \<Rightarrow> world \<Rightarrow> (bytes \<rightharpoonup> cell) \<Rightarrow> bool" where
  "holds h w C \<longleftrightarrow> (\<exists>L. shard_inv h (w_shard w) L C)"

lemma publish_cases:
  assumes inv: "holds h w C" and fits: "fits (w_shard w) key e"
  obtains (refused) "publish h w key e = Some (False, w)" "0 < m_max (w_memory w)"
  | (stored) w' n where "publish h w key e = Some (True, w')" "holds h w' (C(key \<mapsto> cellOf e))" "slack w' = slack w" "n < 2 ^ 26"
      "0 < m_max (w_memory w) \<longrightarrow> m_used (w_memory w') + word_of_nat n \<le> m_max (w_memory w)"
      "SegmentCount (sh_arena (w_shard w')) \<le> Suc (SegmentCount (sh_arena (w_shard w)))"
proof -
  obtain L where L: "shard_inv h (w_shard w) L C" using inv by (auto simp: holds_def)
  have eq: "publish h w key e = publishRecordKnownWithHash h w key None e EnforceMemoryLimit (ent (w_shard w) key)"
    using sh_get_ok [OF shard_parts(1) [OF L]] by (simp add: publish_def publishRecord_def publishRecordKnown_def)
  have "None = None \<or> None = Some (h key)" by simp
  from L fits this show ?thesis
  proof (cases rule: publish_known [where admission = EnforceMemoryLimit])
    case refused
    then show ?thesis using that(1) eq by simp
  next
    case (stored w' L' n)
    show ?thesis by (rule that(2) [of w' n]) (use stored eq in \<open>auto simp: holds_def exceedsMemoryLimitLocked_def not_less\<close>)
  qed
qed

lemma remove_cases:
  assumes "holds h w C"
  obtains w' where "removeKey h w key now = Some w'" "holds h w' (C(key := None))" "slack w' = slack w"
    "SegmentCount (sh_arena (w_shard w')) = SegmentCount (sh_arena (w_shard w))"
proof -
  obtain L where L: "shard_inv h (w_shard w) L C" using assms by (auto simp: holds_def)
  show ?thesis
  proof (cases "C key")
    case None
    then have "C(key := None) = C" by (simp add: fun_upd_idem)
    moreover have "removeKey h w key now = Some w" using absent_ok(1) [OF L None] by (simp add: removeKey_def)
    ultimately show ?thesis using assms that by simp
  next
    case (Some c)
    obtain w' L' where "removeKey h w key now = Some w'" "shard_inv h (w_shard w') L' (C(key := None))" "slack w' = slack w"
      "SegmentCount (sh_arena (w_shard w')) = SegmentCount (sh_arena (w_shard w))"
      using remove_ok [OF L Some] by metis
    then show ?thesis using that by (auto simp: holds_def)
  qed
qed

lemma store_step_ok:
  assumes ok: "holds h w C" and can: "storeFits w x"
  shows "\<exists>b w'. storeStep h w x = Some (b, w') \<and> holds h w' (if b then storeEffect x C else C) \<and> slack w' = slack w \<and> (m_max (slack w) = 0 \<longrightarrow> b)"
proof (cases x)
  case (PutOp key e)
  have mx: "m_max (slack w) = m_max (w_memory w)" by (simp add: slack_def Let_def)
  from can PutOp have "fits (w_shard w) key e" by simp
  from ok this show ?thesis
  proof (cases rule: publish_cases)
    case refused
    then show ?thesis using ok mx PutOp by (intro exI [of _ False] exI [of _ w]) simp
  next
    case (stored w' n)
    then show ?thesis using PutOp by (intro exI [of _ True] exI [of _ w']) simp
  qed
next
  case (RemoveOp key now)
  obtain w' where "removeKey h w key now = Some w'" "holds h w' (C(key := None))" "slack w' = slack w" using remove_cases [OF ok] .
  then show ?thesis using RemoveOp by (intro exI [of _ True] exI [of _ w']) simp
qed

interpretation store: keyspace "holds h" "storeStep h" storeFits storeEffect slack "\<lambda>m. m_max m = 0"
  by unfold_locales (rule store_step_ok)

lemma new_shard: "holds h w Map.empty" if "w_shard w = emptyShard"
proof -
  have "ent emptyShard = Map.empty" by (auto simp: ent_def emptyShard_def New_table_ok(2))
  moreover have "ids_ok h emptyShard" using New_table_ok by (simp add: ids_ok_def emptyShard_def)
  moreover have "arena_ok emptyArena Map.empty" using emptyArena_inv unfolding arena_ok_def by blast
  moreover have "expiries Map.empty = Map.empty" by (auto simp: expiries_def)
  ultimately have "shard_inv h emptyShard Map.empty Map.empty"
    using emptyQueue_ok by (simp add: shard_inv_def contents_ok_def owned_def) (simp add: emptyShard_def)
  then show ?thesis using that by (auto simp: holds_def)
qed

text \<open>Reading a value the way the commands do: the descriptor, its bytes and its deadline.\<close>

definition readCell :: "(bytes \<Rightarrow> u64) \<Rightarrow> shard \<Rightarrow> bytes \<Rightarrow> cell option option" where
  "readCell h sh key = do {
     found \<leftarrow> sh_get h sh key;
     case found of None \<Rightarrow> Some None
     | Some v \<Rightarrow> do {
         d \<leftarrow> encoded sh v;
         t \<leftarrow> expirationAt sh key v;
         Some (Some \<lparr>c_type = v_valueType v, c_codec = v_codecID v, c_rawLength = v_rawLength v, c_stable = v_rawStable v, c_expiresAt = t, c_data = d\<rparr>)
       }
   }"

lemma readCell_holds:
  assumes "holds h w C"
  shows "readCell h (w_shard w) key = Some (C key)"
proof -
  obtain L where L: "shard_inv h (w_shard w) L C" using assms by (auto simp: holds_def)
  show ?thesis
  proof (cases "C key")
    case None
    then show ?thesis using absent_ok(1) [OF L None] by (simp add: readCell_def)
  next
    case (Some c)
    show ?thesis by (rule read_ok [OF L Some]) (simp add: readCell_def Some)
  qed
qed

subsection \<open>Histories\<close>

text \<open>C2: Whatever values are published into and removed from a new shard, as long as each fits the formats of the shard when
  it is published, nothing panics, every key reads back as the last accepted publication (type, codec, bytes and deadline)
  or as absent, every counter of the accounting moved by exactly the change of the bytes it counts, and without a memory
  limit every publication is accepted.\<close>

theorem keyspace_history:
  assumes "w_shard w = emptyShard" "canAll (storeStep h) storeFits ops w"
  shows "\<exists>bs w'. runSteps (storeStep h) ops w = Some (bs, w') \<and> length bs = length ops
    \<and> (\<forall>key. readCell h (w_shard w') key = Some (effects storeEffect ops bs Map.empty key))
    \<and> slack w' = slack w \<and> (m_max (w_memory w) = 0 \<longrightarrow> list_all (\<lambda>b. b) bs)"
proof -
  have mx: "m_max (slack w) = m_max (w_memory w)" by (simp add: slack_def Let_def)
  obtain bs w' where r: "runSteps (storeStep h) ops w = Some (bs, w')" "holds h w' (effects storeEffect ops bs Map.empty)" "slack w' = slack w"
    "length bs = length ops" "m_max (slack w) = 0 \<longrightarrow> list_all (\<lambda>b. b) bs"
    using store.run_ok [OF new_shard [OF assms(1)] assms(2)] by blast
  then show ?thesis using readCell_holds [OF r(2)] mx by (intro exI [of _ bs] exI [of _ w']) simp
qed

definition sampleEntry :: preparedEntry where
  "sampleEntry = \<lparr>e_value = \<lparr>v_ref = \<lparr>r_location = 0, r_generation = 0\<rparr>, v_rawLength = 2, v_codecID = 0, v_valueType = 0, v_hasExpiry = False, v_rawStable = False\<rparr>,
     e_expiresAt = 9, e_data = [104, 105]\<rparr>"

definition sampleWorld :: "u64 \<Rightarrow> world" where
  "sampleWorld limit = \<lparr>w_shard = emptyShard, w_memory = \<lparr>m_used = 0, m_index = 0, m_entries = 0, m_arenas = 0, m_arenaPayload = 0, m_arenaLiveBlocks = 0, m_max = limit\<rparr>,
     w_expired = 0\<rparr>"

lemma sample_fits: "fits emptyShard [107] sampleEntry"
proof -
  have "length (t_log New_table) + KeyRecordSize [107] \<le> maxLogBytes"
    by (simp add: New_table_def KeyRecordSize_def packKey_def recordBytes_def uvarintLen.simps maxLogBytes_eq)
  then show ?thesis by (simp add: fits_def has_room_def emptyShard_def sampleEntry_def isHotHash_def maxArenaBlock_def SegmentCount_def emptyArena_def)
qed

theorem keyspace_history_witness:
  "\<exists>w'. runSteps (storeStep (\<lambda>_. 3)) [PutOp [107] sampleEntry, RemoveOp [108] 4] (sampleWorld 0) = Some ([True, True], w')
     \<and> readCell (\<lambda>_. 3) (w_shard w') [107] = Some (Some (cellOf sampleEntry)) \<and> readCell (\<lambda>_. 3) (w_shard w') [108] = Some None"
proof -
  let ?ops = "[PutOp [107] sampleEntry, RemoveOp [108] 4]"
  have "canAll (storeStep (\<lambda>_. 3)) storeFits ?ops (sampleWorld 0)"
    using sample_fits by (auto simp: sampleWorld_def split: option.splits)
  moreover have "w_shard (sampleWorld 0) = emptyShard" "m_max (w_memory (sampleWorld 0)) = 0" by (simp_all add: sampleWorld_def)
  ultimately obtain bs w' where w: "runSteps (storeStep (\<lambda>_. 3)) ?ops (sampleWorld 0) = Some (bs, w')" "length bs = length ?ops"
    "\<forall>key. readCell (\<lambda>_. 3) (w_shard w') key = Some (effects storeEffect ?ops bs Map.empty key)" "list_all (\<lambda>b. b) bs"
    using keyspace_history [of "sampleWorld 0" "\<lambda>_. 3" ?ops] by auto
  then have "bs = [True, True]" by (cases bs; cases "tl bs") auto
  then show ?thesis using w by auto
qed

subsection \<open>The memory limit\<close>

definition usedBytes :: "shard \<Rightarrow> nat" where
  "usedBytes sh = CapacityBytes (sh_data sh) + (\<Sum>key \<in> dom (ent sh). KeyRecordSize key) + sh_entryCap sh * entryStructBytes + TotalMemoryBytes (sh_arena sh)"

lemma usedBytes_measured: "word_of_nat (usedBytes sh) = m_used (measured sh)"
proof -
  have "esum (\<lambda>k v. entryCharge k) (ent sh) = word_of_nat (\<Sum>key \<in> dom (ent sh). KeyRecordSize key)" by (simp add: esum_def entryCharge_def)
  then show ?thesis by (simp add: usedBytes_def measured_parts)
qed

text \<open>What a refusal means: the total planned for the publication, whether the limit is enforced or not, exceeds the limit.\<close>

lemma reserve_refused:
  assumes "reserveMemory sh m key e EnforceMemoryLimit old = Some None" "reserveMemory sh m key e AllowOverMemoryLimit old = Some (Some m')"
  shows "m_max m < m_used m'"
  using assms by (auto simp: reserveMemory_def exceedsMemoryLimitLocked_def Let_def split: bind_splits if_splits)

lemma publish_refused:
  assumes inv: "holds h w C" and fits: "fits (w_shard w) key e" and no: "publish h w key e = Some (False, w')"
  obtains m' where "reserveMemory (w_shard w) (w_memory w) key e AllowOverMemoryLimit (ent (w_shard w) key) = Some (Some m')" "m_max (w_memory w) < m_used m'"
proof -
  obtain L where L: "shard_inv h (w_shard w) L C" using inv by (auto simp: holds_def)
  let ?old = "ent (w_shard w) key" and ?r = "\<lambda>a. reserveMemory (w_shard w) (w_memory w) key e a (ent (w_shard w) key)"
  have "publishRecordKnownWithHash h w key None e EnforceMemoryLimit ?old = Some (False, w')"
    using no sh_get_ok [OF shard_parts(1) [OF L]] by (simp add: publish_def publishRecord_def publishRecordKnown_def)
  then have 1: "?r EnforceMemoryLimit = Some None" unfolding publishRecordKnownWithHash_def Let_def by (auto split: bind_splits option.splits)
  obtain w1 where "publishRecordKnownWithHash h w key None e AllowOverMemoryLimit ?old = Some (True, w1)"
    by (rule publish_known [OF L fits, of None AllowOverMemoryLimit]) auto
  then obtain m' where 2: "?r AllowOverMemoryLimit = Some (Some m')" unfolding publishRecordKnownWithHash_def Let_def by (auto split: bind_splits option.splits)
  show ?thesis by (rule that [OF 2 reserve_refused [OF 1 2]])
qed

text \<open>C9: A publication into a shard that has room for it either stores the value, or changes nothing and is refused because a
  limit is set that the total planned for it exceeds. When the accounting holds the bytes of this shard and of the others, it
  still does after the publication; and when a limit is set, the bytes owned after an accepted publication are within the
  limit (64-bit counters being far from overflow).\<close>

theorem publish_within_limit:
  assumes inv: "holds h w C" and fits: "fits (w_shard w) key e" and used: "m_used (w_memory w) = word_of_nat (others + usedBytes (w_shard w))"
  shows "\<exists>done w'. publish h w key e = Some (done, w')
    \<and> (if done then holds h w' (C(key \<mapsto> cellOf e)) \<and> m_used (w_memory w') = word_of_nat (others + usedBytes (w_shard w'))
         \<and> (0 < m_max (w_memory w) \<longrightarrow> others + usedBytes (w_shard w') + 2 ^ 26 < 2 ^ 64 \<longrightarrow> others + usedBytes (w_shard w') \<le> unat (m_max (w_memory w)))
       else w' = w \<and> 0 < m_max (w_memory w)
         \<and> (\<exists>m. reserveMemory (w_shard w) (w_memory w) key e AllowOverMemoryLimit (ent (w_shard w) key) = Some (Some m) \<and> m_max (w_memory w) < m_used m))"
  using inv fits
proof (cases rule: publish_cases)
  case refused
  then show ?thesis using publish_refused [OF inv fits refused(1)] by (intro exI [of _ False] exI [of _ w]) auto
next
  case (stored w' n)
  have "m_used (slack w') = m_used (slack w)" using stored(3) by simp
  then have u: "m_used (w_memory w') = word_of_nat (others + usedBytes (w_shard w'))"
    using used by (simp add: slack_def Let_def usedBytes_measured [symmetric] algebra_simps)
  have "others + usedBytes (w_shard w') \<le> unat (m_max (w_memory w))"
    if "0 < m_max (w_memory w)" "others + usedBytes (w_shard w') + 2 ^ 26 < 2 ^ 64"
  proof -
    have "word_of_nat (others + usedBytes (w_shard w') + n) \<le> m_max (w_memory w)" using stored(5) that(1) u by simp
    moreover have "unat (word_of_nat (others + usedBytes (w_shard w') + n) :: u64) = others + usedBytes (w_shard w') + n"
      using that(2) stored(4) by (simp add: unsigned_of_nat take_bit_nat_eq_self del: of_nat_add)
    ultimately show ?thesis by (simp add: word_le_nat_alt)
  qed
  then show ?thesis using stored(1,2) u by auto
qed

text \<open>A value that is stored inline takes 98 bytes in an empty shard: four slots of the index, four entries and the key record.\<close>

definition smallEntry :: preparedEntry where
  "smallEntry = sampleEntry\<lparr>e_value := (e_value sampleEntry)\<lparr>v_codecID := 1\<rparr>\<rparr>"

lemma small_growth: "GrowthBytes (sh_data emptyShard) 1 = Some 32" "entryGrowthBytes emptyShard 1 = 64" "entryCharge [107] = 2" "shouldInlinePrepared smallEntry"
  by (simp add: GrowthBytes_def capacityFor_def capacityLoop.simps capacityAccepts_def initialCapacity_def emptyShard_def New_table_def slotSize_def)
     (simp add: entryGrowthBytes_def entryCapacityFor_def emptyShard_def entryCapLoop.simps nextEntryCap_def entryStructBytes_def,
      simp add: entryCharge_def KeyRecordSize_def packKey_def recordBytes_def uvarintLen.simps,
      simp add: shouldInlinePrepared_def smallEntry_def sampleEntry_def)

lemma small_publish:
  shows "publish h (sampleWorld 97) [107] smallEntry = Some (False, sampleWorld 97)"
    and "publish h (sampleWorld 98) [107] smallEntry \<noteq> Some (False, w)"
proof -
  have e: "w_shard (sampleWorld limit) = emptyShard" for limit by (simp add: sampleWorld_def)
  have "holds h (sampleWorld 97) Map.empty" using e by (rule new_shard)
  then obtain L where "shard_inv h emptyShard L Map.empty" by (auto simp: holds_def e)
  then have g: "sh_get h emptyShard [107] = Some None" using absent_ok(1) [of h emptyShard L Map.empty "[107]"] by simp
  have "reserveMemory emptyShard (w_memory (sampleWorld 97)) [107] smallEntry EnforceMemoryLimit None = Some None"
    unfolding reserveMemory_def using small_growth by (simp add: sampleWorld_def coldValue_def exceedsMemoryLimitLocked_def)
  then show "publish h (sampleWorld 97) [107] smallEntry = Some (False, sampleWorld 97)"
    using g by (simp add: publish_def publishRecord_def publishRecordKnown_def publishRecordKnownWithHash_def e)
  have "\<exists>m. reserveMemory emptyShard (w_memory (sampleWorld 98)) [107] smallEntry EnforceMemoryLimit None = Some (Some m)"
    unfolding reserveMemory_def using small_growth by (simp add: sampleWorld_def coldValue_def exceedsMemoryLimitLocked_def)
  then show "publish h (sampleWorld 98) [107] smallEntry \<noteq> Some (False, w)"
    using g by (auto simp: publish_def publishRecord_def publishRecordKnown_def publishRecordKnownWithHash_def e split: bind_splits)
qed

theorem publish_within_limit_witness:
  "publish (\<lambda>_. 3) (sampleWorld 97) [107] smallEntry = Some (False, sampleWorld 97)
   \<and> (\<exists>w'. publish (\<lambda>_. 3) (sampleWorld 98) [107] smallEntry = Some (True, w') \<and> holds (\<lambda>_. 3) w' [[107] \<mapsto> cellOf smallEntry]
       \<and> m_used (w_memory w') = word_of_nat (usedBytes (w_shard w'))
       \<and> (usedBytes (w_shard w') \<le> 98 \<or> 2 ^ 64 \<le> usedBytes (w_shard w') + 2 ^ 26))"
proof -
  have e: "w_shard (sampleWorld 98) = emptyShard" by (simp add: sampleWorld_def)
  have f: "fits (w_shard (sampleWorld 98)) [107] smallEntry" using sample_fits e by (simp add: fits_def smallEntry_def isHotHash_def)
  have "usedBytes emptyShard = 0"
    by (simp add: usedBytes_def ent_def emptyShard_def New_table_ok(2) dom_def) (simp add: New_table_def CapacityBytes_def TotalMemoryBytes_def MemoryBytes_def emptyArena_def)
  then have u: "m_used (w_memory (sampleWorld 98)) = word_of_nat (0 + usedBytes (w_shard (sampleWorld 98)))" unfolding e by (simp add: sampleWorld_def)
  have m: "m_max (w_memory (sampleWorld 98)) = 98" by (simp add: sampleWorld_def)
  show ?thesis using publish_within_limit [OF new_shard [OF e, of "\<lambda>_. 3"] f u] small_publish(1) [of "\<lambda>_. 3"] small_publish(2) [of "\<lambda>_. 3" "sampleWorld 98"] unfolding m by (auto split: if_splits)
qed

end
