(* ===== verification/ListLayout.thy ===== *)
theory ListLayout
  imports Prelude
begin

unbundle bit_operations_syntax

text \<open>
  What the three stored layouts of a list share (\<^verbatim>\<open>internal/engine/list.go\<close>): the length-prefixed element
  records, the reading of their varints, the errors of the package, the index and range conventions of the
  commands, and the interface \<open>list_layout\<close> that every layout provides.
\<close>

datatype listError = InvalidPackedList | PackedListTrailing | ListTooLarge | InvalidIndexedList
  | InvalidIndexedOffset | InvalidIndexedElement | InvalidIndexedIndex | EmptyIndexedList
  | InvalidColdList | InvalidColdRecord | InvalidColdOffset | ColdListTrailing | ListPanic

definition maxPackedListBytes :: nat where
  "maxPackedListBytes = 32 * 2 ^ 20"

definition appendListUvarint :: "bytes \<Rightarrow> nat \<Rightarrow> bytes" where
  "appendListUvarint dst value = dst @ uvarint_put value"

definition readListUvarint :: "bytes \<Rightarrow> nat \<Rightarrow> listError + (nat \<times> nat)" where
  "readListUvarint data offset =
     (if offset \<ge> length data then Inl InvalidPackedList
      else let (value, n) = uvarint_get (drop offset data) in
        if n \<le> 0 then Inl InvalidPackedList else Inr (value, offset + nat n))"

partial_function (option) listUvarintLoop :: "nat \<Rightarrow> nat \<Rightarrow> nat option" where
  "listUvarintLoop n len = (if n \<ge> 128 then listUvarintLoop (n div 128) (len + 1) else Some len)"

definition listUvarintLen :: "nat \<Rightarrow> nat option" where
  "listUvarintLen n = listUvarintLoop n 1"

definition indexedListRecordBytes :: "bytes \<Rightarrow> bytes" where
  "indexedListRecordBytes value = appendListUvarint [] (length value) @ value"

subsection \<open>Bytes at a position\<close>

definition bytesAt :: "bytes \<Rightarrow> nat \<Rightarrow> bytes \<Rightarrow> bool" where
  "bytesAt d p bs \<longleftrightarrow> p + length bs \<le> length d \<and> take (length bs) (drop p d) = bs"

definition writeAt :: "bytes \<Rightarrow> nat \<Rightarrow> bytes \<Rightarrow> bytes" where
  "writeAt d p bs = take p d @ bs @ drop (p + length bs) d"

lemma bytesAt_iff: "bytesAt d p bs \<longleftrightarrow> (\<exists>pre post. d = pre @ bs @ post \<and> length pre = p)"
proof
  assume "bytesAt d p bs"
  then have "d = take p d @ bs @ drop (p + length bs) d" "length (take p d) = p"
    by (auto simp: bytesAt_def) (metis append_take_drop_id drop_drop add.commute)
  then show "\<exists>pre post. d = pre @ bs @ post \<and> length pre = p" by blast
qed (auto simp: bytesAt_def)

lemma bytesAt_append1: "bytesAt d p bs \<Longrightarrow> bytesAt (d @ e) p bs"
  by (auto simp: bytesAt_def)

lemma bytesAt_append2: "p = length d + q \<Longrightarrow> bytesAt e q bs \<Longrightarrow> bytesAt (d @ e) p bs"
  by (auto simp: bytesAt_def)

lemma bytesAt_self [simp]: "bytesAt (bs @ e) 0 bs"
  by (simp add: bytesAt_def)

lemma bytesAt_split: "bytesAt d p (a @ b) \<longleftrightarrow> bytesAt d p a \<and> bytesAt d (p + length a) b"
proof (cases "p + length (a @ b) \<le> length d")
  case True
  have "take (length (a @ b)) (drop p d) = take (length a) (drop p d) @ take (length b) (drop (p + length a) d)"
    by (simp add: take_add drop_drop add.commute)
  moreover have "length (take (length a) (drop p d)) = length a" using True by simp
  ultimately show ?thesis using True by (simp add: bytesAt_def)
qed (simp add: bytesAt_def)

lemma length_writeAt [simp]: "p + length bs \<le> length d \<Longrightarrow> length (writeAt d p bs) = length d"
  by (simp add: writeAt_def)

lemma bytesAt_writeAt_same: "p + length bs \<le> length d \<Longrightarrow> bytesAt (writeAt d p bs) p bs"
  by (simp add: bytesAt_def writeAt_def)

lemma drop_writeAt_beyond: "p + length bs \<le> q \<Longrightarrow> p + length bs \<le> length d \<Longrightarrow> drop q (writeAt d p bs) = drop q d"
  by (simp add: writeAt_def)

lemma bytesAt_writeAt_other:
  assumes fit: "p + length bs \<le> length d" and dis: "q + length cs \<le> p \<or> p + length bs \<le> q"
  shows "bytesAt (writeAt d p bs) q cs \<longleftrightarrow> bytesAt d q cs"
proof (cases "p + length bs \<le> q")
  case True
  then show ?thesis using fit by (simp add: bytesAt_def drop_writeAt_beyond)
next
  case False
  then have le: "q + length cs \<le> p" using dis by simp
  have "take (length cs) (drop q (writeAt d p bs)) = take (length cs) (drop q d)"
    using le fit by (simp add: writeAt_def take_drop)
  then show ?thesis using fit by (simp add: bytesAt_def)
qed

lemma bytesAt_take: "bytesAt d p bs \<Longrightarrow> take (length bs) (drop p d) = bs"
  by (simp add: bytesAt_def)

lemma bytesAt_bound: "bytesAt d p bs \<Longrightarrow> p + length bs \<le> length d"
  by (simp add: bytesAt_def)

subsection \<open>Element records\<close>

lemma listUvarintLoop_put: "listUvarintLoop n len = Some (len + length (uvarint_put n) - 1)"
proof (induction n arbitrary: len rule: less_induct)
  case (less n)
  show ?case
  proof (cases "n \<ge> 128")
    case True
    then have "listUvarintLoop (n div 128) (len + 1) = Some (len + 1 + length (uvarint_put (n div 128)) - 1)"
      by (intro less.IH) simp
    then show ?thesis using True by (subst listUvarintLoop.simps) (simp add: uvarint_put_large)
  qed (subst listUvarintLoop.simps, simp)
qed

lemma listUvarintLen_put: "listUvarintLen n = Some (length (uvarint_put n))"
  by (simp add: listUvarintLen_def listUvarintLoop_put)

abbreviation rec :: "bytes \<Rightarrow> bytes" where
  "rec \<equiv> indexedListRecordBytes"

definition recs :: "bytes list \<Rightarrow> bytes" where
  "recs xs = concat (map rec xs)"

lemma rec_eq: "rec x = uvarint_put (length x) @ x"
  by (simp add: indexedListRecordBytes_def appendListUvarint_def)

lemma recs_simps [simp]: "recs [] = []" "recs (x # xs) = rec x @ recs xs" "recs (xs @ ys) = recs xs @ recs ys"
  by (simp_all add: recs_def)

lemma length_rec: "length (rec x) = length (uvarint_put (length x)) + length x" "1 \<le> length (rec x)"
  using length_uvarint_put_ge [of "length x"] by (simp_all add: rec_eq)

lemma length_recs_ge: "length xs \<le> length (recs xs)"
proof (induction xs)
  case (Cons x xs)
  then show ?case using length_rec(2) [of x] by simp
qed simp

lemma read_record:
  assumes at: "bytesAt d p (rec x)" and len: "length d < 2 ^ 63"
  shows "readListUvarint d p = Inr (length x, p + length (uvarint_put (length x)))"
    "bytesAt d (p + length (uvarint_put (length x))) x" "p < length d"
proof -
  obtain pre post where d: "d = pre @ uvarint_put (length x) @ x @ post" "length pre = p"
    using at by (auto simp: bytesAt_iff rec_eq)
  have l: "length x < 2 ^ 64" using len d(1) by simp
  show p: "p < length d" using d length_uvarint_put_ge [of "length x"] by simp
  have "uvarint_get (drop p d) = (length x, int (length (uvarint_put (length x))))"
    using uvarint_get_put [OF l, of "x @ post"] d by simp
  then show "readListUvarint d p = Inr (length x, p + length (uvarint_put (length x)))"
    using p length_uvarint_put_ge [of "length x"] by (simp add: readListUvarint_def)
  show "bytesAt d (p + length (uvarint_put (length x))) x" using at by (simp add: rec_eq bytesAt_split)
qed

text \<open>What a successful read of a varint says about the buffer.\<close>

lemma uvarint_loop_bound: "uvarint_loop i x bs = (v, n) \<Longrightarrow> 0 < n \<Longrightarrow> n \<le> int i + int (length bs)"
proof (induction i x bs rule: uvarint_loop.induct)
  case (2 i x b bs)
  then show ?case by (auto split: if_splits)
qed simp

lemma readListUvarint_bound: "readListUvarint d p = Inr (v, q) \<Longrightarrow> p < q \<and> q \<le> length d"
  using uvarint_loop_bound [of 0 0 "drop p d"]
  by (fastforce simp: readListUvarint_def uvarint_get_def split: if_splits prod.splits)

subsection \<open>Index and range conventions\<close>

text \<open>A negative index counts from the end; an index outside the list has no element.\<close>

definition redisIndex :: "'a list \<Rightarrow> int \<Rightarrow> 'a option" where
  "redisIndex xs i =
     (let j = (if i < 0 then i + int (length xs) else i) in
      if j < 0 \<or> j \<ge> int (length xs) then None else Some (xs ! nat j))"

definition redisRange :: "'a list \<Rightarrow> int \<Rightarrow> int \<Rightarrow> 'a list" where
  "redisRange xs i j =
     (let n = int (length xs);
          i' = (if i < 0 then i + n else i);
          j' = (if j < 0 then j + n else j);
          i'' = (if i' < 0 then 0 else i') in
      if j' < 0 \<or> i'' \<ge> n \<or> i'' > j' then []
      else take (nat (j' + 1 - i'')) (drop (nat i'') xs))"

text \<open>The bounds the commands loop over after clamping: first index and index behind the last.\<close>

definition clampRange :: "nat \<Rightarrow> int \<Rightarrow> int \<Rightarrow> (nat \<times> nat) option" where
  "clampRange count i0 j0 =
     (let n = int count;
          i = (if i0 < 0 then i0 + n else i0);
          j = (if j0 < 0 then j0 + n else j0);
          i = (if i < 0 then 0 else i) in
      if j < 0 \<or> i \<ge> n \<or> i > j then None
      else let j = (if j \<ge> n then n - 1 else j) in Some (nat i, nat (j + 1)))"

lemma map_nth_range: "b \<le> length xs \<Longrightarrow> map ((!) xs) [a ..< b] = take (b - a) (drop a xs)"
  by (simp add: list_eq_iff_nth_eq)

lemma clampRange_redisRange:
  "(case clampRange (length xs) i j of None \<Rightarrow> redisRange xs i j = []
    | Some (a, b) \<Rightarrow> a < b \<and> b \<le> length xs \<and> redisRange xs i j = map ((!) xs) [a ..< b])"
proof -
  define n i' j' where "n = int (length xs)" and "i' = (if (if i < 0 then i + n else i) < 0 then 0 else (if i < 0 then i + n else i))"
    and "j' = (if j < 0 then j + n else j)"
  have r: "redisRange xs i j = (if j' < 0 \<or> i' \<ge> n \<or> i' > j' then [] else take (nat (j' + 1 - i')) (drop (nat i') xs))"
    by (simp only: redisRange_def Let_def n_def i'_def j'_def)
  have c: "clampRange (length xs) i j = (if j' < 0 \<or> i' \<ge> n \<or> i' > j' then None
      else Some (nat i', nat ((if j' \<ge> n then n - 1 else j') + 1)))"
    by (simp only: clampRange_def Let_def n_def i'_def j'_def)
  show ?thesis
  proof (cases "j' < 0 \<or> i' \<ge> n \<or> i' > j'")
    case False
    define b where "b = nat ((if j' \<ge> n then n - 1 else j') + 1)"
    have i0: "0 \<le> i'" by (simp add: i'_def)
    have b: "nat i' < b" "b \<le> length xs" using False i0 by (auto simp: b_def n_def)
    have "take (nat (j' + 1 - i')) (drop (nat i') xs) = take (b - nat i') (drop (nat i') xs)"
    proof (cases "j' \<ge> n")
      case True
      then have "length (drop (nat i') xs) \<le> nat (j' + 1 - i')" "length (drop (nat i') xs) \<le> b - nat i'"
        using i0 by (simp_all add: b_def n_def)
      then show ?thesis by simp
    qed (use i0 False in \<open>simp add: b_def nat_diff_distrib\<close>)
    then show ?thesis using False b map_nth_range [OF b(2)] by (simp add: r c b_def)
  qed (simp add: r c)
qed

subsection \<open>The interface of a layout\<close>

text \<open>
  \<open>rep d xs\<close> says that the stored bytes \<open>d\<close> represent the list \<open>xs\<close>. A layout encodes a list, or refuses it for
  its size, decodes it back, counts it and reads one element without decoding the rest.
\<close>

locale list_layout =
  fixes rep :: "bytes \<Rightarrow> bytes list \<Rightarrow> bool" and enc :: "bytes list \<Rightarrow> listError + bytes"
    and dec :: "bytes \<Rightarrow> listError + bytes list" and len :: "bytes \<Rightarrow> listError + nat"
    and elem :: "bytes \<Rightarrow> int \<Rightarrow> listError + bytes option"
  assumes enc_rep: "enc xs = Inr d \<Longrightarrow> rep d xs"
    and dec_rep: "rep d xs \<Longrightarrow> dec d = Inr xs"
    and len_rep: "rep d xs \<Longrightarrow> len d = Inr (length xs)"
    and elem_rep: "rep d xs \<Longrightarrow> elem d i = Inr (redisIndex xs i)"
begin

lemma rep_unique: "rep d xs \<Longrightarrow> rep d ys \<Longrightarrow> xs = ys"
  using dec_rep [of d xs] dec_rep [of d ys] by simp

lemma enc_roundtrip: "enc xs = Inr d \<Longrightarrow> dec d = Inr xs \<and> len d = Inr (length xs) \<and> (\<forall>i. elem d i = Inr (redisIndex xs i))"
  using enc_rep dec_rep len_rep elem_rep by blast

lemma enc_inj: "enc xs = Inr d \<Longrightarrow> enc ys = Inr d \<Longrightarrow> xs = ys"
  using enc_rep rep_unique by blast

end

locale ranged_layout = list_layout +
  fixes range :: "bytes \<Rightarrow> int \<Rightarrow> int \<Rightarrow> listError + bytes list"
  assumes range_rep: "rep d xs \<Longrightarrow> range d i j = Inr (redisRange xs i j)"
begin

lemma range_elem:
  assumes "rep d xs" "0 \<le> i" "i < int (length xs)"
  shows "range d i i = Inr [xs ! nat i] \<and> elem d i = Inr (Some (xs ! nat i))"
proof -
  have "take 1 (drop (nat i) xs) = [xs ! nat i]" using assms(2,3) by (simp add: take_Suc_conv_app_nth hd_drop_conv_nth take_Suc)
  then show ?thesis using range_rep [OF assms(1), of i i] elem_rep [OF assms(1), of i] assms(2,3)
    by (simp add: redisRange_def redisIndex_def Let_def)
qed

end

text \<open>Re-encoding a list from one layout into another.\<close>

locale layout_change =
  src: list_layout rep1 enc1 dec1 len1 elem1 + dst: list_layout rep2 enc2 dec2 len2 elem2
  for rep1 enc1 dec1 len1 elem1 rep2 enc2 dec2 len2 elem2
begin

lemma convert_rep: "rep1 d xs \<Longrightarrow> rbind (dec1 d) enc2 = Inr e \<Longrightarrow> rep2 e xs"
  using src.dec_rep [of d xs] dst.enc_rep [of xs e] by simp

end

end
