(* ===== verification/ListPacked.thy ===== *)
theory ListPacked
  imports ListLayout
begin

unbundle bit_operations_syntax

text \<open>
  The packed layout of a list (\<^verbatim>\<open>internal/engine/list.go\<close>): header, element count and the element records,
  nothing else. Appending on the right copies the stored records verbatim after checking their boundaries.
\<close>

definition packedListHeader :: bytes where
  "packedListHeader = [83, 76, 1]"

definition packedListMeta :: "bytes \<Rightarrow> listError + (nat \<times> nat)" where
  "packedListMeta data =
     (if length data < length packedListHeader \<or> take (length packedListHeader) data \<noteq> packedListHeader
      then Inl InvalidPackedList
      else case readListUvarint data (length packedListHeader) of
        Inl e \<Rightarrow> Inl InvalidPackedList
      | Inr (count64, offset) \<Rightarrow> if count64 > maxPackedListBytes then Inl InvalidPackedList else Inr (count64, offset))"

text \<open>One record at an offset: its bytes and the offset behind it.\<close>

definition packedRecord :: "bytes \<Rightarrow> nat \<Rightarrow> listError + (bytes \<times> nat)" where
  "packedRecord data offset =
     (case readListUvarint data offset of
        Inl e \<Rightarrow> Inl InvalidPackedList
      | Inr (length64, offset') \<Rightarrow>
          if length64 > length data - offset' then Inl InvalidPackedList
          else Inr (take length64 (drop offset' data), offset' + length64))"

fun elementLoop :: "bytes \<Rightarrow> nat \<Rightarrow> nat \<Rightarrow> nat \<Rightarrow> listError + bytes option" where
  "elementLoop data 0 skip offset = Inl InvalidPackedList"
| "elementLoop data (Suc k) skip offset =
     (case packedRecord data offset of
        Inl e \<Rightarrow> Inl e
      | Inr (value, end) \<Rightarrow> (case skip of 0 \<Rightarrow> Inr (Some value) | Suc skip' \<Rightarrow> elementLoop data k skip' end))"

definition packedListElement :: "bytes \<Rightarrow> int \<Rightarrow> listError + bytes option" where
  "packedListElement data index =
     (case packedListMeta data of
        Inl e \<Rightarrow> Inl e
      | Inr (count, offset) \<Rightarrow>
          let index' = (if index < 0 then index + int count else index) in
          if index' < 0 \<or> index' \<ge> int count then Inr None
          else elementLoop data count (nat index') offset)"

fun boundaryLoop :: "bytes \<Rightarrow> nat \<Rightarrow> nat \<Rightarrow> listError + nat" where
  "boundaryLoop data 0 offset = Inr offset"
| "boundaryLoop data (Suc k) offset =
     (case packedRecord data offset of Inl e \<Rightarrow> Inl e | Inr (_, end) \<Rightarrow> boundaryLoop data k end)"

fun capacityCheck :: "nat \<Rightarrow> bytes list \<Rightarrow> listError + nat" where
  "capacityCheck capacity [] = Inr capacity"
| "capacityCheck capacity (v # vs) =
     (let capacity' = capacity + 10 + length v in
      if capacity' > maxPackedListBytes then Inl ListTooLarge else capacityCheck capacity' vs)"

fun appendRecords :: "bytes \<Rightarrow> bytes list \<Rightarrow> bytes" where
  "appendRecords out [] = out"
| "appendRecords out (v # vs) = appendRecords (appendListUvarint out (length v) @ v) vs"

definition appendPackedListRight :: "bytes \<Rightarrow> bytes list \<Rightarrow> listError + (nat \<times> bytes)" where
  "appendPackedListRight data values =
     rbind (packedListMeta data) (\<lambda>(count, recordsStart).
     rbind (boundaryLoop data count recordsStart) (\<lambda>offset.
     if offset \<noteq> length data then Inl PackedListTrailing
     else rbind (capacityCheck (length packedListHeader + 10 + (length data - recordsStart)) values) (\<lambda>_.
       let newCount = count + length values;
           out = appendRecords (appendListUvarint packedListHeader newCount @ drop recordsStart data) values in
       if length out > maxPackedListBytes then Inl ListTooLarge else Inr (newCount, out))))"

definition encodePackedList :: "bytes list \<Rightarrow> listError + bytes" where
  "encodePackedList elements =
     rbind (capacityCheck (length packedListHeader + 10) elements) (\<lambda>_.
     let out = appendRecords (appendListUvarint packedListHeader (length elements)) elements in
     if length out > maxPackedListBytes then Inl ListTooLarge else Inr out)"

fun decodeLoop :: "bytes \<Rightarrow> nat \<Rightarrow> nat \<Rightarrow> listError + (bytes list \<times> nat)" where
  "decodeLoop data 0 offset = Inr ([], offset)"
| "decodeLoop data (Suc k) offset =
     (case packedRecord data offset of
        Inl e \<Rightarrow> Inl e
      | Inr (value, end) \<Rightarrow>
          (case decodeLoop data k end of Inl e \<Rightarrow> Inl e | Inr (rest, final) \<Rightarrow> Inr (value # rest, final)))"

definition decodePackedList :: "bytes \<Rightarrow> listError + bytes list" where
  "decodePackedList data =
     rbind (packedListMeta data) (\<lambda>(count, offset).
     rbind (decodeLoop data count offset) (\<lambda>(elements, final).
     if final \<noteq> length data then Inl PackedListTrailing else Inr elements))"

text \<open>The slice of the elements that \<^verbatim>\<open>ListRange\<close> returns on this layout.\<close>

definition elementsRange :: "bytes list \<Rightarrow> int \<Rightarrow> int \<Rightarrow> bytes list" where
  "elementsRange elements start0 stop0 =
     (let n = int (length elements);
          start = (if start0 < 0 then start0 + n else start0);
          stop = (if stop0 < 0 then stop0 + n else stop0);
          start = (if start < 0 then 0 else start) in
      if stop < 0 \<or> start \<ge> n \<or> start > stop then []
      else let stop = (if stop \<ge> n then n - 1 else stop) in
        map (\<lambda>i. elements ! i) [nat start ..< nat (stop + 1)])"

definition packedListLen :: "bytes \<Rightarrow> listError + nat" where
  "packedListLen data = rbind (packedListMeta data) (\<lambda>(count, _). Inr count)"

definition packedListRange :: "bytes \<Rightarrow> int \<Rightarrow> int \<Rightarrow> listError + bytes list" where
  "packedListRange data start stop = rbind (decodePackedList data) (\<lambda>elements. Inr (elementsRange elements start stop))"

subsection \<open>The representation\<close>

definition packed_ok :: "bytes \<Rightarrow> bytes list \<Rightarrow> bool" where
  "packed_ok d xs \<longleftrightarrow> d = packedListHeader @ uvarint_put (length xs) @ recs xs \<and> length d \<le> maxPackedListBytes"

lemma appendRecords_eq: "appendRecords out vs = out @ recs vs"
  by (induction vs arbitrary: out) (simp_all add: appendListUvarint_def rec_eq)

lemma packed_small: "packed_ok d xs \<Longrightarrow> length d < 2 ^ 63 \<and> length xs \<le> maxPackedListBytes"
  using length_recs_ge [of xs] by (auto simp: packed_ok_def maxPackedListBytes_def)

lemma packedListMeta_ok:
  assumes "packed_ok d xs"
  shows "packedListMeta d = Inr (length xs, 3 + length (uvarint_put (length xs)))"
proof -
  have h: "length packedListHeader = 3" by (simp add: packedListHeader_def)
  have d: "d = packedListHeader @ uvarint_put (length xs) @ recs xs" using assms by (simp add: packed_ok_def)
  have l: "length xs < 2 ^ 64" using packed_small [OF assms] by (simp add: maxPackedListBytes_def)
  have "uvarint_get (drop 3 d) = (length xs, int (length (uvarint_put (length xs))))"
    using uvarint_get_put [OF l, of "recs xs"] h by (simp add: d)
  then have "readListUvarint d 3 = Inr (length xs, 3 + length (uvarint_put (length xs)))"
    using length_uvarint_put_ge [of "length xs"] h by (simp add: readListUvarint_def d)
  then show ?thesis using packed_small [OF assms] h by (simp add: packedListMeta_def d)
qed

lemma packedRecord_ok:
  assumes "bytesAt d p (rec x)" "length d < 2 ^ 63"
  shows "packedRecord d p = Inr (x, p + length (rec x))"
proof -
  note r = read_record [OF assms]
  have "length x \<le> length d - (p + length (uvarint_put (length x)))" using bytesAt_bound [OF r(2)] by simp
  then show ?thesis using r(1) bytesAt_take [OF r(2)] by (simp add: packedRecord_def length_rec(1))
qed

lemma recs_split: "bytesAt d p (recs (x # xs)) \<Longrightarrow> bytesAt d p (rec x) \<and> bytesAt d (p + length (rec x)) (recs xs)"
  by (simp add: bytesAt_split)

lemma decodeLoop_ok: "bytesAt d p (recs xs) \<Longrightarrow> length d < 2 ^ 63 \<Longrightarrow> decodeLoop d (length xs) p = Inr (xs, p + length (recs xs))"
proof (induction xs arbitrary: p)
  case (Cons x xs)
  note s = recs_split [OF Cons.prems(1)]
  show ?case using packedRecord_ok [of d p x] Cons.IH [of "p + length (rec x)"] s Cons.prems(2) by simp
qed simp

lemma boundaryLoop_ok: "bytesAt d p (recs xs) \<Longrightarrow> length d < 2 ^ 63 \<Longrightarrow> boundaryLoop d (length xs) p = Inr (p + length (recs xs))"
proof (induction xs arbitrary: p)
  case (Cons x xs)
  note s = recs_split [OF Cons.prems(1)]
  show ?case using packedRecord_ok [of d p x] Cons.IH [of "p + length (rec x)"] s Cons.prems(2) by simp
qed simp

lemma elementLoop_ok:
  "bytesAt d p (recs xs) \<Longrightarrow> length d < 2 ^ 63 \<Longrightarrow> i < length xs \<Longrightarrow> elementLoop d (length xs) i p = Inr (Some (xs ! i))"
proof (induction xs arbitrary: p i)
  case (Cons x xs)
  note s = recs_split [OF Cons.prems(1)]
  show ?case using packedRecord_ok [of d p x] Cons.IH [of "p + length (rec x)"] s Cons.prems(2,3) by (cases i) simp_all
qed simp

lemma packed_records: "packed_ok d xs \<Longrightarrow> bytesAt d (3 + length (uvarint_put (length xs))) (recs xs)"
  by (auto simp: packed_ok_def bytesAt_def packedListHeader_def numeral_3_eq_3)

lemma packed_length: "packed_ok d xs \<Longrightarrow> length d = 3 + length (uvarint_put (length xs)) + length (recs xs)"
  by (simp add: packed_ok_def packedListHeader_def)

lemma decodePackedList_ok: "packed_ok d xs \<Longrightarrow> decodePackedList d = Inr xs"
  using packedListMeta_ok [of d xs] decodeLoop_ok [OF packed_records, of d xs] packed_small [of d xs] packed_length [of d xs]
  by (simp add: decodePackedList_def)

lemma packedListElement_ok:
  assumes "packed_ok d xs"
  shows "packedListElement d i = Inr (redisIndex xs i)"
proof -
  let ?j = "if i < 0 then i + int (length xs) else i"
  note m = packedListMeta_ok [OF assms]
  show ?thesis
  proof (cases "?j < 0 \<or> ?j \<ge> int (length xs)")
    case True
    then show ?thesis unfolding packedListElement_def m redisIndex_def Let_def by simp
  next
    case False
    then have "nat ?j < length xs" by auto
    then have "elementLoop d (length xs) (nat ?j) (3 + length (uvarint_put (length xs))) = Inr (Some (xs ! nat ?j))"
      using elementLoop_ok [OF packed_records [OF assms]] packed_small [OF assms] by blast
    then show ?thesis using False unfolding packedListElement_def m redisIndex_def Let_def by simp
  qed
qed

text \<open>The reservation that the size check sums up: ten bytes for the varint of every element.\<close>

definition reserve :: "bytes list \<Rightarrow> nat" where
  "reserve vs = sum_list (map (\<lambda>v. 10 + length v) vs)"

lemma capacityCheck_eq:
  "capacityCheck c vs = (if vs = [] \<or> c + reserve vs \<le> maxPackedListBytes then Inr (c + reserve vs) else Inl ListTooLarge)"
proof (induction vs arbitrary: c)
  case (Cons v vs)
  have r: "reserve (v # vs) = 10 + length v + reserve vs" by (simp add: reserve_def)
  have e: "reserve vs = 0" if "vs = []" using that by (simp add: reserve_def)
  show ?case using Cons.IH [of "c + 10 + length v"] e by (auto simp: r Let_def)
qed (simp add: reserve_def)

lemma uvarint_put_le: "x < 2 ^ (7 * Suc k) \<Longrightarrow> length (uvarint_put x) \<le> Suc k"
proof (induction k arbitrary: x)
  case (Suc k)
  have "x div 128 < 2 ^ (7 * Suc k)" using Suc.prems by (simp add: div_less_iff_less_mult power_add)
  with Suc.IH show ?case by (cases "x < 128") (simp_all add: uvarint_put_large)
qed simp

lemma length_rec_le: "length v < 2 ^ 63 \<Longrightarrow> length (rec v) \<le> 10 + length v"
  using uvarint_put_le [of "length v" 8] by (simp add: length_rec(1))

lemma length_recs_le: "\<forall>v \<in> set vs. length v < 2 ^ 63 \<Longrightarrow> length (recs vs) \<le> reserve vs"
proof (induction vs)
  case (Cons v vs)
  then show ?case using length_rec_le [of v] by (simp add: reserve_def)
qed (simp add: reserve_def)

lemma length_reserve: "v \<in> set vs \<Longrightarrow> length v \<le> reserve vs" "length vs \<le> reserve vs"
  by (induction vs) (auto simp: reserve_def)

text \<open>The size limit is on the reservation alone: the check on the finished bytes never fires.\<close>

lemma encodePackedList_eq:
  "encodePackedList xs =
     (if xs = [] \<or> 13 + reserve xs \<le> maxPackedListBytes
      then Inr (packedListHeader @ uvarint_put (length xs) @ recs xs) else Inl ListTooLarge)"
proof -
  have "length (packedListHeader @ uvarint_put (length xs) @ recs xs) \<le> maxPackedListBytes" if "13 + reserve xs \<le> maxPackedListBytes"
  proof -
    have "\<forall>v \<in> set xs. length v < 2 ^ 63" using length_reserve(1) [of _ xs] that by (fastforce simp: maxPackedListBytes_def)
    then have "length (recs xs) \<le> reserve xs" by (rule length_recs_le)
    moreover have "length (uvarint_put (length xs)) \<le> 9"
      using length_reserve(2) [of xs] that uvarint_put_le [of "length xs" 8] by (simp add: maxPackedListBytes_def)
    ultimately show ?thesis using that by (simp add: packedListHeader_def)
  qed
  moreover have "length (packedListHeader @ uvarint_put 0) \<le> maxPackedListBytes" by (simp add: packedListHeader_def maxPackedListBytes_def)
  ultimately show ?thesis
    by (cases "xs = []") (auto simp: encodePackedList_def capacityCheck_eq appendRecords_eq appendListUvarint_def packedListHeader_def Let_def)
qed

lemma encodePackedList_ok: "encodePackedList xs = Inr d \<Longrightarrow> packed_ok d xs"
  by (auto simp: encodePackedList_def go_res Let_def appendRecords_eq appendListUvarint_def packed_ok_def)

lemma elementsRange_clamp:
  "elementsRange xs i j = (case clampRange (length xs) i j of None \<Rightarrow> [] | Some (a, b) \<Rightarrow> map ((!) xs) [a ..< b])"
  by (simp add: elementsRange_def clampRange_def Let_def)

lemma elementsRange_eq: "elementsRange xs i j = redisRange xs i j"
  using clampRange_redisRange [of xs i j] unfolding elementsRange_clamp by (auto split: option.splits)

interpretation packed: ranged_layout packed_ok encodePackedList decodePackedList packedListLen packedListElement packedListRange
proof unfold_locales
  show "packedListLen d = Inr (length xs)" if "packed_ok d xs" for d xs using packedListMeta_ok [OF that] by (simp add: packedListLen_def)
  show "packedListRange d i j = Inr (redisRange xs i j)" if "packed_ok d xs" for d xs i j
    using decodePackedList_ok [OF that] by (simp add: packedListRange_def elementsRange_eq)
qed (simp_all add: encodePackedList_ok decodePackedList_ok packedListElement_ok)

lemma appendPackedListRight_ok:
  assumes "packed_ok d xs" "appendPackedListRight d vs = Inr (n, d')"
  shows "packed_ok d' (xs @ vs) \<and> n = length (xs @ vs)"
proof -
  have b: "boundaryLoop d (length xs) (3 + length (uvarint_put (length xs))) = Inr (length d)"
    using boundaryLoop_ok [OF packed_records [OF assms(1)]] packed_small [OF assms(1)] packed_length [OF assms(1)] by simp
  have "drop (3 + length (uvarint_put (length xs))) d = recs xs" using assms(1) by (auto simp: packed_ok_def packedListHeader_def numeral_3_eq_3)
  then show ?thesis using assms(2) packedListMeta_ok [OF assms(1)] b
    by (auto simp: appendPackedListRight_def go_res Let_def appendRecords_eq appendListUvarint_def packed_ok_def split: if_splits)
qed

subsection \<open>Any accepted bytes\<close>

text \<open>Stored bytes that decode need not be the output of the encoder, because a varint has longer forms. The
  readers and the verbatim append agree with the decoder on all of them.\<close>

lemma uvarint_loop_append: "uvarint_loop i x bs = (v, n) \<Longrightarrow> 0 < n \<Longrightarrow> uvarint_loop i x (bs @ cs) = (v, n)"
  by (induction i x bs rule: uvarint_loop.induct) (auto split: if_splits)

lemma packedRecord_bound: "packedRecord d p = Inr (x, q) \<Longrightarrow> p < q \<and> q \<le> length d \<and> length x < q - p"
  using readListUvarint_bound [of d p] by (auto simp: packedRecord_def split: sum.splits prod.splits if_splits)

lemma packedRecord_move:
  assumes r: "packedRecord d p = Inr (x, q)" and s: "s \<le> p"
  shows "packedRecord (pre @ drop s d @ post) (length pre + (p - s)) = Inr (x, length pre + (q - s))"
proof -
  obtain n o' where rd: "readListUvarint d p = Inr (n, o')" "\<not> n > length d - o'" "x = take n (drop o' d)" "q = o' + n"
    using r by (auto simp: packedRecord_def split: sum.splits prod.splits if_splits)
  have b: "p < o'" "o' \<le> length d" using readListUvarint_bound [OF rd(1)] by auto
  obtain k where u: "uvarint_get (drop p d) = (n, k)" "0 < k" "o' = p + nat k"
    using rd(1) by (auto simp: readListUvarint_def split: if_splits prod.splits)
  define e p' where "e = pre @ drop s d @ post" and "p' = length pre + (p - s)"
  have le: "length e = length pre + (length d - s) + length post" by (simp add: e_def)
  have sh: "drop (length pre + (k' - s)) e = drop k' d @ post" if "s \<le> k'" "k' \<le> length d" for k'
    using that by (simp add: e_def)
  have dr: "drop p' e = drop p d @ post" using sh [of p] s b by (simp add: p'_def)
  have p': "p' + nat k = length pre + (o' - s)" using u(3) s by (simp add: p'_def)
  have "uvarint_get (drop p' e) = (n, k)" using u(1,2) uvarint_loop_append unfolding dr uvarint_get_def by blast
  moreover have "p' < length e" using b s unfolding le p'_def by linarith
  ultimately have "readListUvarint e p' = Inr (n, length pre + (o' - s))" using u(2) p' by (simp add: readListUvarint_def)
  moreover have "take n (drop (length pre + (o' - s)) e) = x"
    unfolding sh [OF order_trans [OF s less_imp_le [OF b(1)]] b(2)] using rd(2,3) by simp
  moreover have "\<not> n > length e - (length pre + (o' - s))" using rd(2) b s unfolding le by linarith
  moreover have "length pre + (o' - s) + n = length pre + (q - s)" using rd(4) b s by linarith
  ultimately show ?thesis unfolding e_def [symmetric] p'_def [symmetric] by (simp add: packedRecord_def)
qed

lemma decodeLoop_move:
  "decodeLoop d n p = Inr (xs, q) \<Longrightarrow> s \<le> p \<Longrightarrow>
   decodeLoop (pre @ drop s d @ post) n (length pre + (p - s)) = Inr (xs, length pre + (q - s))"
proof (induction n arbitrary: p xs)
  case (Suc n)
  obtain x o' ys where r: "packedRecord d p = Inr (x, o')" "decodeLoop d n o' = Inr (ys, q)" "xs = x # ys"
    using Suc.prems(1) by (auto split: sum.splits prod.splits)
  have "s \<le> o'" using packedRecord_bound [OF r(1)] Suc.prems(2) by simp
  then show ?case using packedRecord_move [OF r(1) Suc.prems(2), of pre post] Suc.IH [OF r(2)] r(3) by simp
qed simp

lemma decodeLoop_readers:
  "decodeLoop d n p = Inr (xs, q) \<Longrightarrow>
   length xs = n \<and> boundaryLoop d n p = Inr q \<and> (\<forall>i < n. elementLoop d n i p = Inr (Some (xs ! i))) \<and> p + n \<le> q \<and> (0 < n \<longrightarrow> q \<le> length d)"
proof (induction n arbitrary: p xs)
  case (Suc n)
  obtain x o' ys where r: "packedRecord d p = Inr (x, o')" "decodeLoop d n o' = Inr (ys, q)" "xs = x # ys"
    using Suc.prems(1) by (auto split: sum.splits prod.splits)
  note ih = Suc.IH [OF r(2)] and b = packedRecord_bound [OF r(1)]
  have "elementLoop d (Suc n) i p = Inr (Some (xs ! i))" if "i < Suc n" for i using ih r that by (cases i) auto
  moreover have "q \<le> length d" using ih r(2) b by (cases n) auto
  ultimately show ?case using ih r b by auto
qed simp

lemma decodeLoop_append:
  "decodeLoop d n p = Inr (xs, q) \<Longrightarrow> decodeLoop d m q = Inr (ys, r) \<Longrightarrow> decodeLoop d (n + m) p = Inr (xs @ ys, r)"
  by (induction n arbitrary: p xs) (auto split: sum.splits prod.splits)

lemma packedListMeta_start: "packedListMeta d = Inr (c, o') \<Longrightarrow> 3 < o' \<and> o' \<le> length d \<and> c \<le> maxPackedListBytes"
  using readListUvarint_bound [of d 3]
  by (auto simp: packedListMeta_def packedListHeader_def numeral_3_eq_3 split: if_splits sum.splits prod.splits)

lemma decodePackedList_readers:
  assumes "decodePackedList d = Inr xs"
  obtains o' where "packedListMeta d = Inr (length xs, o')" "decodeLoop d (length xs) o' = Inr (xs, length d)"
proof -
  obtain c o' where m: "packedListMeta d = Inr (c, o')" "decodeLoop d c o' = Inr (xs, length d)"
    using assms by (auto simp: decodePackedList_def go_res split: if_splits)
  then show ?thesis using that decodeLoop_readers [OF m(2)] by simp
qed

lemma packedListElement_any:
  assumes "decodePackedList d = Inr xs"
  shows "packedListElement d i = Inr (redisIndex xs i)"
proof -
  obtain o' where m: "packedListMeta d = Inr (length xs, o')" "decodeLoop d (length xs) o' = Inr (xs, length d)"
    by (rule decodePackedList_readers [OF assms])
  have e: "\<And>i. i < length xs \<Longrightarrow> elementLoop d (length xs) i o' = Inr (Some (xs ! i))" using decodeLoop_readers [OF m(2)] by blast
  let ?j = "if i < 0 then i + int (length xs) else i"
  show ?thesis
  proof (cases "?j < 0 \<or> ?j \<ge> int (length xs)")
    case True
    then show ?thesis unfolding packedListElement_def m redisIndex_def Let_def by simp
  next
    case False
    then have "elementLoop d (length xs) (nat ?j) o' = Inr (Some (xs ! nat ?j))" using e [of "nat ?j"] by auto
    then show ?thesis using False unfolding packedListElement_def m redisIndex_def Let_def by simp
  qed
qed

lemma appendPackedListRight_any:
  assumes dec: "decodePackedList d = Inr xs" and app: "appendPackedListRight d vs = Inr (n, d')"
  shows "decodePackedList d' = Inr (xs @ vs) \<and> n = length xs + length vs"
proof -
  obtain o' where m: "packedListMeta d = Inr (length xs, o')" "decodeLoop d (length xs) o' = Inr (xs, length d)"
    by (rule decodePackedList_readers [OF dec])
  let ?n = "length xs + length vs" let ?pre = "packedListHeader @ uvarint_put ?n"
  have e: "n = ?n" "d' = ?pre @ drop o' d @ recs vs" "length d' \<le> maxPackedListBytes"
    using app m(1) decodeLoop_readers [OF m(2)]
    by (auto simp: appendPackedListRight_def go_res Let_def appendRecords_eq appendListUvarint_def split: if_splits)
  have o: "o' + length xs \<le> length d" "o' \<le> length d" using decodeLoop_readers [OF m(2)] packedListMeta_start [OF m(1)] by auto
  have small: "length d' < 2 ^ 63" using e(3) by (simp add: maxPackedListBytes_def)
  have "length xs + length vs \<le> length d'" using o length_recs_ge [of vs] by (simp add: e(2))
  then have nle: "?n \<le> maxPackedListBytes" "?n < 2 ^ 64" using e(3) by (simp_all add: maxPackedListBytes_def)
  have d1: "decodeLoop d' (length xs) (length ?pre) = Inr (xs, length ?pre + (length d - o'))"
    using decodeLoop_move [OF m(2) order_refl, of ?pre "recs vs"] by (simp add: e(2))
  have "bytesAt d' (length ?pre + (length d - o')) (recs vs)" using o by (simp add: e(2) bytesAt_def)
  then have d2: "decodeLoop d' (length vs) (length ?pre + (length d - o')) = Inr (vs, length d')"
    using decodeLoop_ok [OF _ small, of _ vs] o by (simp add: e(2))
  have "uvarint_get (drop 3 d') = (?n, int (length (uvarint_put ?n)))"
    using uvarint_get_put [OF nle(2)] by (simp add: e(2) packedListHeader_def numeral_3_eq_3)
  then have "readListUvarint d' 3 = Inr (?n, length ?pre)"
    using length_uvarint_put_ge [of ?n] by (simp add: readListUvarint_def e(2) packedListHeader_def numeral_3_eq_3)
  then have "packedListMeta d' = Inr (?n, length ?pre)" using nle(1) by (simp add: packedListMeta_def e(2) packedListHeader_def numeral_3_eq_3)
  then show ?thesis using decodeLoop_append [OF d1 d2] e(1) by (simp add: decodePackedList_def)
qed

subsection \<open>Properties\<close>

text \<open>A stored list whose first length uses a longer varint than needed.\<close>

lemma sampleList:
  "decodePackedList [83, 76, 1, 2, 129, 0, 7, 0] = Inr [[7], []]"
  "appendPackedListRight [83, 76, 1, 2, 129, 0, 7, 0] [[9]] = Inr (3, [83, 76, 1, 3, 129, 0, 7, 0, 1, 9])"
proof -
  let ?d = "[83, 76, 1, 2, 129, 0, 7, 0] :: bytes"
  have u: "uvarint_get [2, 129, 0, 7, 0] = (2, 1)" "uvarint_get [129, 0, 7, 0] = (1, 2)" "uvarint_get [0] = (0, 1)" by code_simp+
  have m: "packedListMeta ?d = Inr (2, 4)" by (simp add: packedListMeta_def packedListHeader_def readListUvarint_def u maxPackedListBytes_def)
  have r: "packedRecord ?d 4 = Inr ([7], 7)" "packedRecord ?d 7 = Inr ([], 8)" by (simp_all add: packedRecord_def readListUvarint_def u)
  have mx: "maxPackedListBytes = 33554432" by (simp add: maxPackedListBytes_def)
  show "decodePackedList ?d = Inr [[7], []]" by (simp add: decodePackedList_def m r numeral_2_eq_2)
  show "appendPackedListRight ?d [[9]] = Inr (3, [83, 76, 1, 3, 129, 0, 7, 0, 1, 9])"
    by (simp add: appendPackedListRight_def m r numeral_2_eq_2 mx packedListHeader_def appendListUvarint_def)
qed

text \<open>C37: On any stored bytes the packed decoder accepts, canonical or not, the length, every index and every range read
  without decoding agree with the decoded elements.\<close>

theorem packed_reads_agree:
  assumes "decodePackedList d = Inr xs"
  shows "packedListLen d = Inr (length xs) \<and> packedListElement d i = Inr (redisIndex xs i) \<and> packedListRange d i j = Inr (redisRange xs i j)"
proof -
  obtain o' where m: "packedListMeta d = Inr (length xs, o')" by (rule decodePackedList_readers [OF assms])
  then have "packedListLen d = Inr (length xs)" by (simp add: packedListLen_def)
  moreover have "packedListRange d i j = Inr (redisRange xs i j)" using assms by (simp add: packedListRange_def elementsRange_eq)
  ultimately show ?thesis using packedListElement_any [OF assms] by blast
qed

theorem packed_reads_agree_witness:
  "decodePackedList [83, 76, 1, 2, 129, 0, 7, 0] = Inr [[7], []] \<and> packedListElement [83, 76, 1, 2, 129, 0, 7, 0] (- 2) = Inr (Some [7])"
proof -
  note d = sampleList(1)
  have "redisIndex [[7], []] (- 2) = Some [7 :: byte]" by code_simp
  then show ?thesis using d packed_reads_agree [OF d, of "- 2" 0] by simp
qed

text \<open>C38: The verbatim append extends whatever the stored bytes decode to: the result decodes to the old elements followed
  by the new ones and the returned count is their number.\<close>

theorem packed_append_decodes:
  assumes "decodePackedList d = Inr xs" "appendPackedListRight d vs = Inr (n, d')"
  shows "decodePackedList d' = Inr (xs @ vs) \<and> n = length xs + length vs"
  using assms by (rule appendPackedListRight_any)

theorem packed_append_decodes_witness:
  "decodePackedList [83, 76, 1, 3, 129, 0, 7, 0, 1, 9] = Inr ([[7], []] @ [[9]]) \<and> (3 :: nat) = length [[7 :: byte], []] + length [[9 :: byte]]"
proof -
  show ?thesis by (rule packed_append_decodes [OF sampleList])
qed

text \<open>C39: Encoding succeeds exactly when the reserved size fits the limit, and then produces the header, the count and the
  records in order, which decode to the same elements.\<close>

theorem encodePackedList_exact:
  "if xs = [] \<or> 13 + reserve xs \<le> maxPackedListBytes
   then \<exists>d. encodePackedList xs = Inr d \<and> d = packedListHeader @ uvarint_put (length xs) @ recs xs \<and> decodePackedList d = Inr xs
   else encodePackedList xs = Inl ListTooLarge"
  using packed.enc_roundtrip [of xs] by (auto simp: encodePackedList_eq)

end
