(* ===== verification/ListIndexed.thy ===== *)
theory ListIndexed
  imports ListLayout
begin

unbundle bit_operations_syntax

text \<open>
  The indexed layout of a list (\<^verbatim>\<open>internal/engine/list_indexed.go\<close>): fifteen header bytes with count, slot
  capacity and used payload, a table of record offsets (two or four bytes each, zero when unset), and the payload
  with head room for appends. Pushes and pops at the ends change the stored bytes in place; when they do not fit,
  the list is grown, dropping the records that pops left behind. A run-time panic is \<open>Inl ListPanic\<close>.
\<close>

subsection \<open>Model\<close>

definition indexedListHeader :: bytes where
  "indexedListHeader = [83, 76, 2]"

definition indexedListHeaderNarrow :: bytes where
  "indexedListHeaderNarrow = [83, 76, 3]"

definition indexedListNarrowMaxPayload :: nat where
  "indexedListNarrowMaxPayload = 2 ^ 16 - 2"

definition indexedListFixed :: nat where
  "indexedListFixed = 15"

definition indexedListPromoteElements :: nat where
  "indexedListPromoteElements = 32"

definition indexedListMaxPayloadHeadroom :: nat where
  "indexedListMaxPayloadHeadroom = 2 ^ 20"

definition indexedListDoublingPayloadBytes :: nat where
  "indexedListDoublingPayloadBytes = 8 * 2 ^ 10"

definition indexedListPopMinCount :: nat where
  "indexedListPopMinCount = indexedListPromoteElements div 2"

definition indexedListOffsetWidth :: "bytes \<Rightarrow> nat" where
  "indexedListOffsetWidth data = (if length data \<ge> 3 \<and> data ! 2 = indexedListHeaderNarrow ! 2 then 2 else 4)"

definition indexedListWidthFor :: "nat \<Rightarrow> nat" where
  "indexedListWidthFor dataCap = (if dataCap \<le> indexedListNarrowMaxPayload then 2 else 4)"

text \<open>Stores into a slice: \<^verbatim>\<open>binary.PutUvarint\<close> and the fixed-width stores panic when the bytes do not fit;
  \<^verbatim>\<open>copy\<close> stops at the end.\<close>

definition patch :: "bytes \<Rightarrow> nat \<Rightarrow> bytes \<Rightarrow> listError + bytes" where
  "patch d p bs = (if p + length bs \<le> length d then Inr (writeAt d p bs) else Inl ListPanic)"

definition copyAt :: "bytes \<Rightarrow> nat \<Rightarrow> bytes \<Rightarrow> listError + (bytes \<times> nat)" where
  "copyAt d p bs =
     (if p \<le> length d then
        let n = min (length bs) (length d - p) in Inr (writeAt d p (take n bs), n)
      else Inl ListPanic)"

definition subslice :: "bytes \<Rightarrow> nat \<Rightarrow> nat \<Rightarrow> listError + bytes" where
  "subslice d i j = (if i \<le> j \<and> j \<le> length d then Inr (take (j - i) (drop i d)) else Inl ListPanic)"

definition putIndexedListHeader :: "bytes \<Rightarrow> nat \<Rightarrow> listError + bytes" where
  "putIndexedListHeader out width = patch out 0 (if width = 2 then indexedListHeaderNarrow else indexedListHeader)"

text \<open>The offset table starts at \<open>base\<close> in the slice at hand.\<close>

definition listOffset :: "bytes \<Rightarrow> nat \<Rightarrow> nat \<Rightarrow> listError + nat" where
  "listOffset table width i =
     (let w = (if width = 2 then 2 else 4) in
      if i * w + w \<le> length table then Inr (le_get (take w (drop (i * w) table))) else Inl ListPanic)"

definition putListOffset :: "bytes \<Rightarrow> nat \<Rightarrow> nat \<Rightarrow> nat \<Rightarrow> nat \<Rightarrow> listError + bytes" where
  "putListOffset d base width i v =
     (let w = (if width = 2 then 2 else 4) in patch d (base + i * w) (le_put w v))"

definition isIndexedList :: "bytes \<Rightarrow> bool" where
  "isIndexedList data \<longleftrightarrow> length data \<ge> indexedListFixed
     \<and> (take 3 data = indexedListHeader \<or> take 3 data = indexedListHeaderNarrow)"

definition getU32 :: "bytes \<Rightarrow> nat \<Rightarrow> nat" where
  "getU32 data p = le_get (take 4 (drop p data))"

definition indexedListMeta :: "bytes \<Rightarrow> listError + (nat \<times> nat \<times> nat \<times> nat)" where
  "indexedListMeta data =
     (if \<not> isIndexedList data then Inl InvalidIndexedList
      else let count = getU32 data 3; capacity = getU32 data 7; used = getU32 data 11;
               dataStart = indexedListFixed + capacity * indexedListOffsetWidth data in
        if capacity < indexedListPromoteElements \<or> count > capacity then Inl InvalidIndexedList
        else if dataStart > length data \<or> dataStart + used > length data then Inl InvalidIndexedList
        else Inr (count, capacity, used, dataStart))"

partial_function (option) pow2Loop :: "nat \<Rightarrow> nat \<Rightarrow> nat option" where
  "pow2Loop p n = (if p < n then pow2Loop (2 * p) n else Some p)"

definition nextListPow2 :: "nat \<Rightarrow> nat option" where
  "nextListPow2 n = pow2Loop indexedListPromoteElements n"

text \<open>\<^verbatim>\<open>uint64(a - b)\<close> for two slice positions: a negative difference wraps around.\<close>

definition uintDiff :: "nat \<Rightarrow> nat \<Rightarrow> nat" where
  "uintDiff a b = nat ((int a - int b) mod 2 ^ 64)"

definition indexedListRecord :: "bytes \<Rightarrow> nat \<Rightarrow> listError + (bytes \<times> nat)" where
  "indexedListRecord data pos =
     rbind (indexedListMeta data) (\<lambda>(_, _, used, start).
     if pos \<ge> used then Inl InvalidIndexedOffset
     else case readListUvarint data (start + pos) of
       Inl e \<Rightarrow> Inl InvalidIndexedElement
     | Inr (length64, off) \<Rightarrow>
         if length64 > uintDiff (start + used) off then Inl InvalidIndexedElement
         else rbind (subslice data off (off + length64)) (\<lambda>value. Inr (value, off + length64 - start)))"

definition indexedListElement :: "bytes \<Rightarrow> int \<Rightarrow> listError + bytes option" where
  "indexedListElement data index0 =
     rbind (indexedListMeta data) (\<lambda>(count, _, _, _).
     let index = (if index0 < 0 then index0 + int count else index0) in
     if index < 0 \<or> index \<ge> int count then Inr None
     else rbind (listOffset (drop indexedListFixed data) (indexedListOffsetWidth data) (nat index)) (\<lambda>raw.
       if raw = 0 then Inl InvalidIndexedIndex
       else rbind (indexedListRecord data (raw - 1)) (\<lambda>(value, _). Inr (Some value))))"

fun encodeLoop :: "bytes \<Rightarrow> nat \<Rightarrow> nat \<Rightarrow> nat \<Rightarrow> nat \<Rightarrow> bytes list \<Rightarrow> listError + (bytes \<times> nat)" where
  "encodeLoop out start width i cursor [] = Inr (out, cursor)"
| "encodeLoop out start width i cursor (r # rs) =
     rbind (copyAt out (start + cursor) r) (\<lambda>(out1, _).
     rbind (putListOffset out1 indexedListFixed width i (cursor + 1)) (\<lambda>out2.
     encodeLoop out2 start width (i + 1) (cursor + length r) rs))"

definition encodeIndexedList :: "bytes list \<Rightarrow> listError + bytes" where
  "encodeIndexedList elements =
     (if elements = [] then Inl EmptyIndexedList
      else case nextListPow2 (length elements * 2) of None \<Rightarrow> Inl ListPanic
      | Some capacity \<Rightarrow>
          let records = map indexedListRecordBytes elements;
              used = sum_list (map length records);
              dataCap = used + used div 4;
              dataCap = (if dataCap - used < 512 then used + 512 else dataCap);
              width = indexedListWidthFor dataCap;
              total = indexedListFixed + capacity * width + dataCap in
          if total > maxPackedListBytes then Inl ListTooLarge
          else rbind (putIndexedListHeader (replicate total 0) width) (\<lambda>out.
            rbind (patch out 3 (le_put 4 (length elements))) (\<lambda>out.
            rbind (patch out 7 (le_put 4 capacity)) (\<lambda>out.
            rbind (encodeLoop out (indexedListFixed + capacity * width) width 0 0 records) (\<lambda>(out, cursor).
            patch out 11 (le_put 4 cursor))))))"

fun decodeIndexLoop :: "bytes \<Rightarrow> nat list \<Rightarrow> listError + bytes list" where
  "decodeIndexLoop data [] = Inr []"
| "decodeIndexLoop data (i # is) =
     rbind (indexedListElement data (int i)) (\<lambda>found.
       case found of None \<Rightarrow> Inl InvalidIndexedList
       | Some value \<Rightarrow> rbind (decodeIndexLoop data is) (\<lambda>rest. Inr (value # rest)))"

definition decodeIndexedList :: "bytes \<Rightarrow> listError + bytes list" where
  "decodeIndexedList data = rbind (indexedListMeta data) (\<lambda>(count, _, _, _). decodeIndexLoop data [0 ..< count])"

text \<open>The size of the records of a batch, and the loop that writes them behind \<open>cursor\<close>.\<close>

fun extraBytes :: "bytes list \<Rightarrow> nat option" where
  "extraBytes [] = Some 0"
| "extraBytes (v # vs) =
     (case listUvarintLen (length v) of None \<Rightarrow> None
      | Some k \<Rightarrow> map_option (\<lambda>rest. k + length v + rest) (extraBytes vs))"

fun appendLoop :: "bytes \<Rightarrow> nat \<Rightarrow> nat \<Rightarrow> nat \<Rightarrow> nat \<Rightarrow> bytes list \<Rightarrow> listError + (bytes \<times> nat)" where
  "appendLoop d start width idx cursor [] = Inr (d, cursor)"
| "appendLoop d start width idx cursor (v # vs) =
     rbind (patch d (start + cursor) (uvarint_put (length v))) (\<lambda>d1.
     let cursor1 = cursor + length (uvarint_put (length v)) in
     rbind (copyAt d1 (start + cursor1) v) (\<lambda>(d2, n).
     rbind (putListOffset d2 indexedListFixed width idx (cursor + 1)) (\<lambda>d3.
     appendLoop d3 start width (idx + 1) (cursor1 + n) vs)))"

text \<open>Sum of the sizes of the live records, \<open>None\<close> on any inconsistency.\<close>

fun liveLoop :: "bytes \<Rightarrow> nat \<Rightarrow> nat \<Rightarrow> nat list \<Rightarrow> nat \<Rightarrow> listError + nat option" where
  "liveLoop data used start [] live = Inr (Some live)"
| "liveLoop data used start (i # is) live =
     rbind (listOffset (drop indexedListFixed data) (indexedListOffsetWidth data) i) (\<lambda>raw.
     if raw = 0 \<or> raw - 1 \<ge> used then Inr None
     else case readListUvarint data (start + (raw - 1)) of
       Inl e \<Rightarrow> Inr None
     | Inr (length64, off) \<Rightarrow>
         if length64 > uintDiff (start + used) off then Inr None
         else liveLoop data used start is (live + ((off - (start + (raw - 1))) + length64)))"

definition indexedListLiveBytes :: "bytes \<Rightarrow> nat \<Rightarrow> nat \<Rightarrow> nat \<Rightarrow> listError + nat option" where
  "indexedListLiveBytes data count used start = liveLoop data used start [0 ..< count] 0"

definition indexedListFullyReferenced :: "bytes \<Rightarrow> nat \<Rightarrow> nat \<Rightarrow> nat \<Rightarrow> listError + bool" where
  "indexedListFullyReferenced data count used start =
     rbind (indexedListLiveBytes data count used start) (\<lambda>live. Inr (live = Some used))"

text \<open>Copying the live records in list order. The offset table and the payload of the new list are the two slices
  that the caller passes; the result is their new contents and the bytes written.\<close>

fun copyLiveLoop :: "bytes \<Rightarrow> nat \<Rightarrow> nat list \<Rightarrow> bytes \<Rightarrow> nat \<Rightarrow> bytes \<Rightarrow> nat \<Rightarrow> listError + (bytes \<times> bytes \<times> nat)" where
  "copyLiveLoop data start [] table tableWidth payload cursor = Inr (table, payload, cursor)"
| "copyLiveLoop data start (i # is) table tableWidth payload cursor =
     rbind (listOffset (drop indexedListFixed data) (indexedListOffsetWidth data) i) (\<lambda>raw.
     let rec0 = start + raw - 1;
         (length64, off) = (case readListUvarint data rec0 of Inl e \<Rightarrow> (0, rec0) | Inr q \<Rightarrow> q) in
     rbind (subslice data rec0 (off + length64)) (\<lambda>bytes.
     rbind (copyAt payload cursor bytes) (\<lambda>(payload', n).
     rbind (putListOffset table 0 tableWidth i (cursor + 1)) (\<lambda>table'.
     copyLiveLoop data start is table' tableWidth payload' (cursor + n)))))"

definition copyIndexedListLive :: "bytes \<Rightarrow> nat \<Rightarrow> nat \<Rightarrow> bytes \<Rightarrow> nat \<Rightarrow> bytes \<Rightarrow> listError + (bytes \<times> bytes \<times> nat)" where
  "copyIndexedListLive data count start table tableWidth payload =
     copyLiveLoop data start [0 ..< count] table tableWidth payload 0"

fun widenLoop :: "bytes \<Rightarrow> nat \<Rightarrow> bytes \<Rightarrow> nat \<Rightarrow> nat list \<Rightarrow> listError + bytes" where
  "widenLoop data oldWidth out newWidth [] = Inr out"
| "widenLoop data oldWidth out newWidth (i # is) =
     rbind (listOffset (drop indexedListFixed data) oldWidth i) (\<lambda>raw.
     rbind (putListOffset out indexedListFixed newWidth i raw) (\<lambda>out'.
     widenLoop data oldWidth out' newWidth is))"

text \<open>Moving the contents of \<open>data\<close> into a fresh buffer with another offset width and payload start: verbatim when
  no payload is dead, record by record otherwise.\<close>

definition moveContents :: "bytes \<Rightarrow> nat \<Rightarrow> nat \<Rightarrow> nat \<Rightarrow> nat \<Rightarrow> bytes \<Rightarrow> nat \<Rightarrow> nat \<Rightarrow> listError + bytes" where
  "moveContents data count used start live out newWidth newStart =
     (if live = used then
        rbind (if newWidth = indexedListOffsetWidth data
               then rbind (subslice data indexedListFixed (indexedListFixed + count * newWidth)) (patch out indexedListFixed)
               else widenLoop data (indexedListOffsetWidth data) out newWidth [0 ..< count]) (\<lambda>out.
        rbind (subslice data start (start + used)) (patch out newStart))
      else
        rbind (copyIndexedListLive data count start (take (newStart - indexedListFixed) (drop indexedListFixed out)) newWidth
                 (take live (drop newStart out))) (\<lambda>(table, payload, _).
        Inr (take indexedListFixed out @ table @ payload @ drop (newStart + live) out)))"

definition headroomFor :: "nat \<Rightarrow> nat" where
  "headroomFor newUsed =
     (let headroom = (if newUsed < indexedListDoublingPayloadBytes then newUsed div 4 else newUsed);
          headroom = (if headroom > indexedListMaxPayloadHeadroom then indexedListMaxPayloadHeadroom else headroom) in
      if headroom < 512 then 512 else headroom)"

definition growIndexedListRaw :: "bytes \<Rightarrow> bytes list \<Rightarrow> listError + (nat \<times> bytes) option" where
  "growIndexedListRaw data values =
     (case indexedListMeta data of Inl e \<Rightarrow> Inr None
      | Inr (count, capacity, used, start) \<Rightarrow>
          rbind (indexedListLiveBytes data count used start) (\<lambda>live'.
          case live' of None \<Rightarrow> Inr None
          | Some live \<Rightarrow>
              (case extraBytes values of None \<Rightarrow> Inl ListPanic
               | Some extra \<Rightarrow>
                   let newCount = count + length values in
                   (case (if newCount > capacity then nextListPow2 (newCount * 2) else Some capacity) of None \<Rightarrow> Inl ListPanic
                    | Some newCapacity \<Rightarrow>
                        let newUsed = live + extra;
                            dataCap = newUsed + headroomFor newUsed;
                            newWidth = indexedListWidthFor dataCap;
                            newStart = indexedListFixed + newCapacity * newWidth;
                            total = newStart + dataCap in
                        if total > maxPackedListBytes then Inl ListTooLarge
                        else
                          rbind (patch (replicate total 0) 0 (take indexedListFixed data)) (\<lambda>out.
                          rbind (putIndexedListHeader out newWidth) (\<lambda>out.
                          rbind (moveContents data count used start live out newWidth newStart) (\<lambda>out.
                          rbind (appendLoop out newStart newWidth count live values) (\<lambda>(out, cursor).
                          rbind (patch out 3 (le_put 4 newCount)) (\<lambda>out.
                          rbind (patch out 7 (le_put 4 newCapacity)) (\<lambda>out.
                          rbind (patch out 11 (le_put 4 cursor)) (\<lambda>out.
                          Inr (Some (newCount, out)))))))))))))"

text \<open>Appending: the new count, the rebuilt list when one has to be published, and the stored bytes afterwards.\<close>

definition indexedListAppend :: "bytes \<Rightarrow> bytes list \<Rightarrow> listError + (nat \<times> bytes option \<times> bytes)" where
  "indexedListAppend data values =
     rbind (indexedListMeta data) (\<lambda>(count, capacity, used, start).
     let single = (case values of [value] \<Rightarrow> count + 1 \<le> capacity
                       \<and> start + used + (length (uvarint_put (length value)) + length value) \<le> length data | _ \<Rightarrow> False) in
     if single then
       let value = hd values; lenBytes = uvarint_put (length value); extra = length lenBytes + length value in
       rbind (patch data (start + used) lenBytes) (\<lambda>data.
       rbind (patch data (start + used + length lenBytes) value) (\<lambda>data.
       rbind (putListOffset data indexedListFixed (indexedListOffsetWidth data) count (used + 1)) (\<lambda>data.
       rbind (patch data 3 (le_put 4 (count + 1))) (\<lambda>data.
       rbind (patch data 11 (le_put 4 (used + extra))) (\<lambda>data.
       Inr (count + 1, None, data))))))
     else case extraBytes values of None \<Rightarrow> Inl ListPanic
     | Some extra \<Rightarrow>
       if count + length values > capacity \<or> start + used + extra > length data then
         rbind (growIndexedListRaw data values) (\<lambda>grown.
         case grown of Some (grownCount, out) \<Rightarrow> Inr (grownCount, Some out, data)
         | None \<Rightarrow>
             rbind (decodeIndexedList data) (\<lambda>elements.
             rbind (encodeIndexedList (elements @ values)) (\<lambda>rebuilt.
             Inr (length (elements @ values), Some rebuilt, data))))
       else
         rbind (appendLoop data start (indexedListOffsetWidth data) count used values) (\<lambda>(data, cursor).
         rbind (patch data 3 (le_put 4 (count + length values))) (\<lambda>data.
         rbind (patch data 11 (le_put 4 cursor)) (\<lambda>data.
         Inr (count + length values, None, data)))))"

definition trimIndexedList :: "bytes \<Rightarrow> listError + bytes option" where
  "trimIndexedList data =
     (case indexedListMeta data of Inl e \<Rightarrow> Inr None
      | Inr (count, _, used, start) \<Rightarrow>
          rbind (indexedListLiveBytes data count used start) (\<lambda>live'.
          case live' of None \<Rightarrow> Inr None
          | Some live \<Rightarrow>
              let newCapacity = (if count < indexedListPromoteElements then indexedListPromoteElements else count);
                  newWidth = indexedListWidthFor live;
                  newStart = indexedListFixed + newCapacity * newWidth;
                  total = newStart + live in
              if total \<ge> length data then Inr None
              else
                rbind (patch (replicate total 0) 0 (take indexedListFixed data)) (\<lambda>out.
                rbind (putIndexedListHeader out newWidth) (\<lambda>out.
                rbind (moveContents data count used start live out newWidth newStart) (\<lambda>out.
                rbind (patch out 7 (le_put 4 newCapacity)) (\<lambda>out.
                rbind (patch out 11 (le_put 4 live)) (\<lambda>out.
                Inr (Some out))))))))"

fun popLoop :: "bytes \<Rightarrow> nat \<Rightarrow> nat list \<Rightarrow> listError + (bytes \<times> nat \<times> nat) list option" where
  "popLoop data used [] = Inr (Some [])"
| "popLoop data used (i # is) =
     rbind (listOffset (drop indexedListFixed data) (indexedListOffsetWidth data) i) (\<lambda>raw.
     if raw = 0 \<or> raw - 1 \<ge> used then Inr None
     else case indexedListRecord data (raw - 1) of
       Inl e \<Rightarrow> if e = ListPanic then Inl ListPanic else Inr None
     | Inr (value, end) \<Rightarrow>
         rbind (popLoop data used is) (\<lambda>rest. Inr (map_option (\<lambda>ps. (value, raw - 1, end) # ps) rest)))"

fun reclaim :: "nat \<Rightarrow> (bytes \<times> nat \<times> nat) list \<Rightarrow> nat" where
  "reclaim used [] = used"
| "reclaim used ((_, start, end) # spans) = (if end = used then reclaim start spans else used)"

text \<open>Popping \<open>n\<close> elements in place: the elements in pop order and the new bytes, or \<open>None\<close> for the generic path.\<close>

definition indexedListPop :: "bytes \<Rightarrow> nat \<Rightarrow> bool \<Rightarrow> listError + (bytes list \<times> bytes) option" where
  "indexedListPop data n left =
     (case indexedListMeta data of Inl e \<Rightarrow> Inr None
      | Inr (count, _, used, start) \<Rightarrow>
          if n = 0 \<or> n > count \<or> count - n < indexedListPopMinCount then Inr None
          else let width = indexedListOffsetWidth data; lo = (if left then 0 else count - n);
                   hi = (if left then n else count); newCount = count - n in
            rbind (popLoop data used [lo ..< hi]) (\<lambda>spans'.
            case spans' of None \<Rightarrow> Inr None
            | Some spans \<Rightarrow>
                let out = (if left then map fst spans else rev (map fst spans)) in
                rbind (if left then
                         rbind (subslice data indexedListFixed (indexedListFixed + count * width)) (\<lambda>table.
                         patch data indexedListFixed (drop (n * width) table @ replicate (n * width) 0))
                       else
                         rbind (patch data (indexedListFixed + newCount * width) (replicate (n * width) 0)) (\<lambda>data.
                         patch data 11 (le_put 4 (reclaim used (rev spans))))) (\<lambda>data.
                rbind (patch data 3 (le_put 4 newCount)) (\<lambda>data.
                Inr (Some (out, data))))))"

fun rangeLoop :: "bytes \<Rightarrow> nat \<Rightarrow> nat list \<Rightarrow> listError + bytes list" where
  "rangeLoop data used [] = Inr []"
| "rangeLoop data used (i # is) =
     rbind (listOffset (drop indexedListFixed data) (indexedListOffsetWidth data) i) (\<lambda>raw.
     if raw = 0 \<or> raw - 1 \<ge> used then Inl InvalidIndexedIndex
     else rbind (indexedListRecord data (raw - 1)) (\<lambda>(value, _).
       rbind (rangeLoop data used is) (\<lambda>rest. Inr (value # rest))))"

definition indexedListRange :: "bytes \<Rightarrow> int \<Rightarrow> int \<Rightarrow> listError + bytes list" where
  "indexedListRange data start0 stop0 =
     rbind (indexedListMeta data) (\<lambda>(count, _, used, _).
     let n = int count;
         start = (if start0 < 0 then start0 + n else start0);
         stop = (if stop0 < 0 then stop0 + n else stop0);
         start = (if start < 0 then 0 else start) in
     if stop < 0 \<or> start \<ge> n \<or> start > stop then Inr []
     else let stop = (if stop \<ge> n then n - 1 else stop) in
       rangeLoop data used [nat start ..< nat (stop + 1)])"

definition indexedListLen :: "bytes \<Rightarrow> listError + nat" where
  "indexedListLen data = rbind (indexedListMeta data) (\<lambda>(count, _, _, _). Inr count)"

subsection \<open>The representation\<close>

definition hdrOf :: "nat \<Rightarrow> bytes" where
  "hdrOf w = (if w = 2 then indexedListHeaderNarrow else indexedListHeader)"

definition head_ok :: "bytes \<Rightarrow> nat \<Rightarrow> nat \<Rightarrow> nat \<Rightarrow> nat \<Rightarrow> bool" where
  "head_ok d w n cap used \<longleftrightarrow> (w = 2 \<or> w = 4) \<and> bytesAt d 0 (hdrOf w) \<and> bytesAt d 3 (le_put 4 n)
     \<and> bytesAt d 7 (le_put 4 cap) \<and> bytesAt d 11 (le_put 4 used)"

definition tab_ok :: "bytes \<Rightarrow> nat \<Rightarrow> nat \<Rightarrow> nat \<Rightarrow> nat list \<Rightarrow> bytes list \<Rightarrow> bool" where
  "tab_ok d w start used ps xs \<longleftrightarrow> length ps = length xs
     \<and> (\<forall>i < length xs. bytesAt d (15 + i * w) (le_put w (ps ! i + 1)) \<and> bytesAt d (start + ps ! i) (rec (xs ! i))
          \<and> ps ! i + length (rec (xs ! i)) \<le> used)
     \<and> (\<forall>j < length xs. \<forall>i < j. ps ! i + length (rec (xs ! i)) \<le> ps ! j)"

definition room_ok :: "bytes \<Rightarrow> nat \<Rightarrow> nat \<Rightarrow> nat \<Rightarrow> nat \<Rightarrow> bool" where
  "room_ok d w n cap used \<longleftrightarrow> 32 \<le> cap \<and> n \<le> cap \<and> 15 + cap * w + used \<le> length d \<and> length d \<le> maxPackedListBytes
     \<and> (w = 2 \<longrightarrow> length d \<le> 15 + cap * w + indexedListNarrowMaxPayload)"

definition indexed_rep :: "bytes \<Rightarrow> nat \<Rightarrow> nat \<Rightarrow> nat \<Rightarrow> nat list \<Rightarrow> bytes list \<Rightarrow> bool" where
  "indexed_rep d w cap used ps xs \<longleftrightarrow>
     head_ok d w (length xs) cap used \<and> room_ok d w (length xs) cap used \<and> tab_ok d w (15 + cap * w) used ps xs"

definition indexed_ok :: "bytes \<Rightarrow> bytes list \<Rightarrow> bool" where
  "indexed_ok d xs \<longleftrightarrow> (\<exists>w cap used ps. indexed_rep d w cap used ps xs)"

lemma le_get_at: "bytesAt d p (le_put k v) \<Longrightarrow> v < 256 ^ k \<Longrightarrow> le_get (take k (drop p d)) = v"
  using bytesAt_take [of d p "le_put k v"] by (simp add: le_get_le_put)

lemma room_bounds:
  assumes "room_ok d w n cap used" "w = 2 \<or> w = 4"
  shows "n < 256 ^ 4" "cap < 256 ^ 4" "used < 256 ^ 4" "length d < 2 ^ 63" "used < 256 ^ w" "15 + cap * w \<le> length d"
proof -
  have r: "n \<le> cap" "15 + cap * w + used \<le> length d" "length d \<le> 33554432"
    using assms(1) by (simp_all add: room_ok_def maxPackedListBytes_def)
  have c: "cap \<le> cap * w" using assms(2) by auto
  have "n \<le> 33554432" "cap \<le> 33554432" "used \<le> 33554432" "15 + cap * w \<le> length d" using r c by linarith+
  then show "n < 256 ^ 4" "cap < 256 ^ 4" "used < 256 ^ 4" "length d < 2 ^ 63" "15 + cap * w \<le> length d" using r by simp_all
  show "used < 256 ^ w"
  proof (cases "w = 2")
    case True
    then have "length d \<le> 15 + cap * w + indexedListNarrowMaxPayload" using assms(1) by (simp add: room_ok_def)
    then show ?thesis using r(2) True by (simp add: indexedListNarrowMaxPayload_def)
  next
    case False
    then show ?thesis using assms(2) r by simp
  qed
qed

lemma width_at:
  assumes "bytesAt d 0 (hdrOf w)" "w = 2 \<or> w = 4"
  shows "indexedListOffsetWidth d = w" "take 3 d = indexedListHeader \<or> take 3 d = indexedListHeaderNarrow"
proof -
  have l: "length (hdrOf w) = 3" by (simp add: hdrOf_def indexedListHeader_def indexedListHeaderNarrow_def)
  have t: "take 3 d = hdrOf w" "3 \<le> length d" using assms(1) l by (simp_all add: bytesAt_def)
  then have "d ! 2 = hdrOf w ! 2" using nth_take [of 2 3 d] by simp
  then show "indexedListOffsetWidth d = w"
    using t(2) assms(2) by (auto simp: indexedListOffsetWidth_def hdrOf_def indexedListHeader_def indexedListHeaderNarrow_def)
  show "take 3 d = indexedListHeader \<or> take 3 d = indexedListHeaderNarrow" using t(1) by (simp add: hdrOf_def)
qed

lemma meta_at:
  assumes h: "head_ok d w n cap used" and r: "room_ok d w n cap used"
  shows "indexedListMeta d = Inr (n, cap, used, 15 + cap * w)" "indexedListOffsetWidth d = w"
proof -
  have w: "w = 2 \<or> w = 4" and hw: "bytesAt d 0 (hdrOf w)" using h by (simp_all add: head_ok_def)
  show wd: "indexedListOffsetWidth d = w" by (rule width_at(1) [OF hw w])
  note b = room_bounds [OF r w]
  have f: "getU32 d 3 = n" "getU32 d 7 = cap" "getU32 d 11 = used"
    using h b le_get_at [of d _ 4] by (simp_all add: getU32_def head_ok_def)
  have "isIndexedList d" using width_at(2) [OF hw w] b(6) by (simp add: isIndexedList_def indexedListFixed_def)
  then show "indexedListMeta d = Inr (n, cap, used, 15 + cap * w)"
    using r b(6) by (simp add: indexedListMeta_def Let_def f wd room_ok_def indexedListFixed_def indexedListPromoteElements_def)
qed

lemma offset_at:
  assumes "bytesAt d (15 + i * w) (le_put w v)" "w = 2 \<or> w = 4" "v < 256 ^ w"
  shows "listOffset (drop indexedListFixed d) w i = Inr v"
proof -
  have "15 + i * w + w \<le> length d" using bytesAt_bound [OF assms(1)] by simp
  moreover have "le_get (take w (drop (15 + i * w) d)) = v" by (rule le_get_at [OF assms(1,3)])
  ultimately show ?thesis using assms(2) by (auto simp: listOffset_def indexedListFixed_def Let_def add.commute)
qed

lemma uintDiff_eq: "b \<le> a \<Longrightarrow> a < 2 ^ 63 \<Longrightarrow> uintDiff a b = a - b"
  by (simp add: uintDiff_def of_nat_diff [symmetric] del: of_nat_diff)

lemma record_at:
  assumes m: "indexedListMeta d = Inr (n, cap, used, start)" and at: "bytesAt d (start + p) (rec x)"
    and le: "p + length (rec x) \<le> used" "start + used \<le> length d" "length d < 2 ^ 63"
  shows "indexedListRecord d p = Inr (x, p + length (rec x))"
    "readListUvarint d (start + p) = Inr (length x, start + p + length (uvarint_put (length x)))"
    "\<not> length x > uintDiff (start + used) (start + p + length (uvarint_put (length x)))"
proof -
  note r = read_record [OF at le(3)] and l = length_rec [of x]
  show "readListUvarint d (start + p) = Inr (length x, start + p + length (uvarint_put (length x)))" by (rule r(1))
  have "uintDiff (start + used) (start + p + length (uvarint_put (length x))) = used - p - length (uvarint_put (length x))"
    using le l uintDiff_eq [of "start + p + length (uvarint_put (length x))" "start + used"] by simp
  then show g: "\<not> length x > uintDiff (start + used) (start + p + length (uvarint_put (length x)))" using le l by simp
  have "subslice d (start + p + length (uvarint_put (length x))) (start + p + length (uvarint_put (length x)) + length x) = Inr x"
    using bytesAt_take [OF r(2)] bytesAt_bound [OF r(2)] by (simp add: subslice_def)
  then show "indexedListRecord d p = Inr (x, p + length (rec x))" using m r(1) g le l by (simp add: indexedListRecord_def)
qed

lemma rep_parts:
  assumes "indexed_rep d w cap used ps xs"
  shows "w = 2 \<or> w = 4" "indexedListMeta d = Inr (length xs, cap, used, 15 + cap * w)" "indexedListOffsetWidth d = w"
    "length d < 2 ^ 63" "15 + cap * w + used \<le> length d" "length ps = length xs" "length xs \<le> cap"
    "i < length xs \<Longrightarrow> listOffset (drop indexedListFixed d) w i = Inr (ps ! i + 1)"
    "i < length xs \<Longrightarrow> ps ! i + length (rec (xs ! i)) \<le> used"
    "i < length xs \<Longrightarrow> indexedListRecord d (ps ! i) = Inr (xs ! i, ps ! i + length (rec (xs ! i)))"
proof -
  have h: "head_ok d w (length xs) cap used" and r: "room_ok d w (length xs) cap used" and t: "tab_ok d w (15 + cap * w) used ps xs"
    using assms by (simp_all add: indexed_rep_def)
  show w: "w = 2 \<or> w = 4" using h by (simp add: head_ok_def)
  note b = room_bounds [OF r w]
  show m: "indexedListMeta d = Inr (length xs, cap, used, 15 + cap * w)" "indexedListOffsetWidth d = w" by (rule meta_at [OF h r])+
  show d: "length d < 2 ^ 63" "15 + cap * w + used \<le> length d" "length xs \<le> cap" using r b by (simp_all add: room_ok_def)
  show "length ps = length xs" using t by (simp add: tab_ok_def)
  assume i: "i < length xs"
  then have at: "bytesAt d (15 + i * w) (le_put w (ps ! i + 1))" "bytesAt d (15 + cap * w + ps ! i) (rec (xs ! i))"
    and le: "ps ! i + length (rec (xs ! i)) \<le> used" using t by (simp_all add: tab_ok_def)
  show "ps ! i + length (rec (xs ! i)) \<le> used" by (rule le)
  have "ps ! i + 1 < 256 ^ w" using le b(5) length_rec(2) [of "xs ! i"] by linarith
  then show "listOffset (drop indexedListFixed d) w i = Inr (ps ! i + 1)" by (rule offset_at [OF at(1) w])
  show "indexedListRecord d (ps ! i) = Inr (xs ! i, ps ! i + length (rec (xs ! i)))" by (rule record_at(1) [OF m(1) at(2) le d(2,1)])
qed

subsection \<open>Reading\<close>

lemma indexedListElement_rep:
  assumes "indexed_rep d w cap used ps xs"
  shows "indexedListElement d i = Inr (redisIndex xs i)"
proof -
  note r = rep_parts [OF assms]
  let ?j = "if i < 0 then i + int (length xs) else i"
  show ?thesis
  proof (cases "?j < 0 \<or> ?j \<ge> int (length xs)")
    case True
    then show ?thesis unfolding indexedListElement_def r(2) redisIndex_def Let_def by simp
  next
    case False
    then have j: "nat ?j < length xs" by auto
    then show ?thesis using False r(8-10) [OF j] unfolding indexedListElement_def r(2,3) redisIndex_def Let_def by simp
  qed
qed

lemma decodeIndexLoop_rep:
  assumes "indexed_rep d w cap used ps xs" "\<forall>i \<in> set is. i < length xs"
  shows "decodeIndexLoop d is = Inr (map ((!) xs) is)"
  using assms(2)
proof (induction "is")
  case (Cons i "is")
  have "redisIndex xs (int i) = Some (xs ! i)" using Cons.prems by (simp add: redisIndex_def)
  then show ?case using Cons indexedListElement_rep [OF assms(1), of "int i"] by simp
qed simp

lemma rangeLoop_rep:
  assumes "indexed_rep d w cap used ps xs" "\<forall>i \<in> set is. i < length xs"
  shows "rangeLoop d used is = Inr (map ((!) xs) is)"
  using assms(2)
proof (induction "is")
  case (Cons i "is")
  have i: "i < length xs" using Cons.prems by simp
  note r = rep_parts [OF assms(1)]
  have "ps ! i < used" using r(9) [OF i] length_rec(2) [of "xs ! i"] by linarith
  then show ?case using Cons r(3) r(8) [OF i] r(10) [OF i] by simp
qed simp

lemma decodeIndexedList_rep: "indexed_rep d w cap used ps xs \<Longrightarrow> decodeIndexedList d = Inr xs"
  using decodeIndexLoop_rep [of d w cap used ps xs "[0 ..< length xs]"] rep_parts(2) [of d w cap used ps xs]
  by (simp add: decodeIndexedList_def map_nth)

lemma indexedListRange_clamp:
  "indexedListMeta d = Inr (n, cap, used, start) \<Longrightarrow>
   indexedListRange d i j = (case clampRange n i j of None \<Rightarrow> Inr [] | Some (a, b) \<Rightarrow> rangeLoop d used [a ..< b])"
  by (simp add: indexedListRange_def clampRange_def Let_def)

lemma indexedListRange_rep:
  assumes "indexed_rep d w cap used ps xs"
  shows "indexedListRange d i j = Inr (redisRange xs i j)"
  using clampRange_redisRange [of xs i j] rangeLoop_rep [OF assms]
  unfolding indexedListRange_clamp [OF rep_parts(2) [OF assms]] by (auto split: option.splits)

subsection \<open>Live bytes\<close>

lemma liveLoop_rep:
  assumes "indexed_rep d w cap used ps xs" "\<forall>i \<in> set is. i < length xs"
  shows "liveLoop d used (15 + cap * w) is live = Inr (Some (live + sum_list (map (\<lambda>i. length (rec (xs ! i))) is)))"
  using assms(2)
proof (induction "is" arbitrary: live)
  case (Cons i "is")
  have i: "i < length xs" using Cons.prems by simp
  note r = rep_parts [OF assms(1)]
  have lt: "ps ! i < used" using r(9) [OF i] length_rec(2) [of "xs ! i"] by linarith
  have at: "bytesAt d (15 + cap * w + ps ! i) (rec (xs ! i))" using assms(1) i by (simp add: indexed_rep_def tab_ok_def)
  note rd = record_at(2,3) [OF r(2) at r(9) [OF i] r(5,4)]
  show ?case using Cons lt r(3) r(8) [OF i] rd by (simp add: length_rec(1))
qed simp

lemma length_recs: "sum_list (map (\<lambda>i. length (rec (xs ! i))) [0 ..< length xs]) = length (recs xs)"
proof -
  have "length (recs xs) = sum_list (map (\<lambda>x. length (rec x)) xs)" by (simp add: recs_def length_concat o_def)
  also have "\<dots> = sum_list (map (\<lambda>x. length (rec x)) (map ((!) xs) [0 ..< length xs]))" unfolding map_nth ..
  finally show ?thesis by (simp add: o_def)
qed

lemma indexedListLiveBytes_rep:
  assumes "indexed_rep d w cap used ps xs"
  shows "indexedListLiveBytes d (length xs) used (15 + cap * w) = Inr (Some (length (recs xs)))"
  unfolding indexedListLiveBytes_def
  by (subst liveLoop_rep [OF assms]) (simp_all add: length_recs)

lemma live_le_used:
  assumes "tab_ok d w start used ps xs"
  shows "length (recs xs) \<le> used"
proof -
  have "length (recs (take k xs)) \<le> (if k < length xs then ps ! k else used)" if "k \<le> length xs" for k
    using that
  proof (induction k)
    case (Suc k)
    have k: "k < length xs" using Suc.prems by simp
    have "recs (take (Suc k) xs) = recs (take k xs) @ rec (xs ! k)" using k by (simp add: take_Suc_conv_app_nth)
    then have "length (recs (take (Suc k) xs)) \<le> ps ! k + length (rec (xs ! k))" using Suc.IH k by simp
    moreover have "ps ! k + length (rec (xs ! k)) \<le> (if Suc k < length xs then ps ! Suc k else used)"
      using assms k unfolding tab_ok_def by auto
    ultimately show ?case by linarith
  qed simp
  from this [of "length xs"] show ?thesis by simp
qed

subsection \<open>Stores\<close>

lemma patch_fits [simp]: "p + length bs \<le> length d \<Longrightarrow> patch d p bs = Inr (writeAt d p bs)"
  by (simp add: patch_def)

lemma copyAt_fits [simp]: "p + length bs \<le> length d \<Longrightarrow> copyAt d p bs = Inr (writeAt d p bs, length bs)"
  by (simp add: copyAt_def Let_def)

lemma putListOffset_patch: "w = 2 \<or> w = 4 \<Longrightarrow> putListOffset d base w i v = patch d (base + i * w) (le_put w v)"
  by (auto simp: putListOffset_def)

lemma subslice_fits: "i \<le> j \<Longrightarrow> j \<le> length d \<Longrightarrow> subslice d i j = Inr (take (j - i) (drop i d))"
  by (simp add: subslice_def)

lemma writeAt_append: "p + length a + length b \<le> length d \<Longrightarrow> writeAt (writeAt d p a) (p + length a) b = writeAt d p (a @ b)"
  by (simp add: writeAt_def ac_simps)

lemma take_writeAt: "n \<le> p \<Longrightarrow> p \<le> length d \<Longrightarrow> take n (writeAt d p bs) = take n d"
  by (simp add: writeAt_def min_def)

text \<open>Copying a slice of one buffer into another keeps what the slice holds.\<close>

lemma bytesAt_copy:
  assumes "bytesAt data (b + k) bs" "k + length bs \<le> m" "b + m \<le> length data" "a + m \<le> length out"
  shows "bytesAt (writeAt out a (take m (drop b data))) (a + k) bs"
proof -
  have "take (length bs) (drop (a + k) (writeAt out a (take m (drop b data)))) = take (length bs) (drop k (take m (drop b data)))"
    using assms by (simp add: writeAt_def)
  also have "\<dots> = take (length bs) (drop (b + k) data)"
    using assms(2) by (simp add: drop_take take_take add.commute)
  finally show ?thesis using assms by (simp add: bytesAt_def)
qed

text \<open>Buffers that differ behind the header only.\<close>

definition sameHead :: "bytes \<Rightarrow> bytes \<Rightarrow> bool" where
  "sameHead d d' \<longleftrightarrow> length d' = length d \<and> take 15 d' = take 15 d"

lemma sameHead_refl [simp]: "sameHead d d"
  by (simp add: sameHead_def)

lemma sameHead_trans: "sameHead a b \<Longrightarrow> sameHead b c \<Longrightarrow> sameHead a c"
  by (simp add: sameHead_def)

lemma sameHead_write: "15 \<le> p \<Longrightarrow> p + length bs \<le> length d \<Longrightarrow> sameHead d (writeAt d p bs)"
  by (simp add: sameHead_def take_writeAt)

lemma sameHead_at:
  assumes "sameHead d d'" "q + length bs \<le> 15"
  shows "bytesAt d' q bs \<longleftrightarrow> bytesAt d q bs"
proof -
  have cut15: "take (length bs) (drop q e) = take (length bs) (drop q (take 15 e))" for e :: bytes
    using assms(2) by (simp add: drop_take min_def)
  have "take 15 d' = take 15 d" using assms(1) by (simp add: sameHead_def)
  then have "take (length bs) (drop q d') = take (length bs) (drop q d)" by (subst (1 2) cut15) simp
  then show ?thesis using assms(1) by (simp add: bytesAt_def sameHead_def)
qed

lemma length_hdrOf [simp]: "length (hdrOf w) = 3"
  by (simp add: hdrOf_def indexedListHeader_def indexedListHeaderNarrow_def)

lemma head_same: "sameHead d d' \<Longrightarrow> head_ok d' w n cap used = head_ok d w n cap used"
  by (simp add: head_ok_def sameHead_at)

lemma head_set:
  assumes "head_ok d w n cap used" "15 \<le> length d"
  shows "head_ok (writeAt d 3 (le_put 4 m)) w m cap used" "head_ok (writeAt d 7 (le_put 4 m)) w n m used"
    "head_ok (writeAt d 11 (le_put 4 m)) w n cap m"
  using assms by (simp_all add: head_ok_def bytesAt_writeAt_other bytesAt_writeAt_same)

lemma tab_low:
  assumes t: "tab_ok d w start used ps xs" and p: "p + length bs \<le> 15" "15 \<le> start" "15 \<le> length d"
  shows "tab_ok (writeAt d p bs) w start used ps xs"
  using t p unfolding tab_ok_def by (simp add: bytesAt_writeAt_other)

lemma tab_used: "tab_ok d w start used ps xs \<Longrightarrow> used \<le> u \<Longrightarrow> tab_ok d w start u ps xs"
  unfolding tab_ok_def by (meson le_trans)

text \<open>The step all writers share: a record behind the payload and its offset behind the table.\<close>

lemma tab_snoc:
  assumes t: "tab_ok d w start used ps xs" and tb: "15 + (length xs + 1) * w \<le> start"
    and fit: "start + used + length (rec v) \<le> length d"
  defines "d' \<equiv> writeAt (writeAt d (start + used) (rec v)) (15 + length xs * w) (le_put w (used + 1))"
  shows "tab_ok d' w start (used + length (rec v)) (ps @ [used]) (xs @ [v])" "sameHead d d'"
proof -
  let ?e = "writeAt d (start + used) (rec v)"
  have l: "length ?e = length d" using fit by simp
  have off: "15 + length xs * w + w \<le> start" using tb by simp
  have offl: "15 + length xs * w + length (le_put w (used + 1)) \<le> length ?e" using off fit l by simp
  have lp: "length ps = length xs" using t by (simp add: tab_ok_def)
  have keep: "bytesAt d' q bs \<longleftrightarrow> bytesAt d q bs"
    if "q + length bs \<le> start + used" "q + length bs \<le> 15 + length xs * w \<or> start \<le> q" for q bs
  proof -
    have "bytesAt d' q bs \<longleftrightarrow> bytesAt ?e q bs" unfolding d'_def
      by (rule bytesAt_writeAt_other [OF offl]) (use that off in auto)
    also have "\<dots> \<longleftrightarrow> bytesAt d q bs" by (rule bytesAt_writeAt_other [OF fit]) (use that in auto)
    finally show ?thesis .
  qed
  have old: "bytesAt d' (15 + i * w) (le_put w (ps ! i + 1)) \<and> bytesAt d' (start + ps ! i) (rec (xs ! i)) \<and> ps ! i + length (rec (xs ! i)) \<le> used"
    if i: "i < length xs" for i
  proof -
    have o: "bytesAt d (15 + i * w) (le_put w (ps ! i + 1))" "bytesAt d (start + ps ! i) (rec (xs ! i))" "ps ! i + length (rec (xs ! i)) \<le> used"
      using t i by (simp_all add: tab_ok_def)
    have "(i + 1) * w \<le> length xs * w" using i by (intro mult_le_mono1) simp
    then have "15 + i * w + w \<le> 15 + length xs * w" by simp
    then show ?thesis using keep [of "15 + i * w" "le_put w (ps ! i + 1)"] keep [of "start + ps ! i" "rec (xs ! i)"] o off by simp
  qed
  have new: "bytesAt d' (15 + length xs * w) (le_put w (used + 1))" "bytesAt d' (start + used) (rec v)"
  proof -
    show "bytesAt d' (15 + length xs * w) (le_put w (used + 1))" unfolding d'_def by (rule bytesAt_writeAt_same [OF offl])
    have "bytesAt d' (start + used) (rec v) \<longleftrightarrow> bytesAt ?e (start + used) (rec v)" unfolding d'_def
      by (rule bytesAt_writeAt_other [OF offl]) (use off in simp)
    then show "bytesAt d' (start + used) (rec v)" using bytesAt_writeAt_same [OF fit] by simp
  qed
  have ord: "ps ! i + length (rec (xs ! i)) \<le> ps ! j" if "j < length xs" "i < j" for i j using t that by (simp add: tab_ok_def)
  show "tab_ok d' w start (used + length (rec v)) (ps @ [used]) (xs @ [v])"
    using old new ord lp unfolding tab_ok_def by (auto simp: nth_append less_Suc_eq trans_le_add1)
  have "sameHead d ?e" by (rule sameHead_write) (use tb fit in simp_all)
  moreover have "sameHead ?e d'" unfolding d'_def by (rule sameHead_write) (use offl in simp_all)
  ultimately show "sameHead d d'" by (rule sameHead_trans)
qed


lemma encodeLoop_rep:
  assumes "tab_ok d w start cursor ps xs" "15 + (length xs + length vs) * w \<le> start" "start + cursor + length (recs vs) \<le> length d" "w = 2 \<or> w = 4"
  shows "\<exists>d' ps'. encodeLoop d start w (length xs) cursor (map rec vs) = Inr (d', cursor + length (recs vs))
    \<and> tab_ok d' w start (cursor + length (recs vs)) ps' (xs @ vs) \<and> sameHead d d'"
  using assms
proof (induction vs arbitrary: d cursor ps xs)
  case (Cons v vs)
  let ?d = "writeAt (writeAt d (start + cursor) (rec v)) (15 + length xs * w) (le_put w (cursor + 1))"
  have m: "(length xs + 1) * w \<le> (length xs + length (v # vs)) * w" by (intro mult_le_mono1) simp
  have tb: "15 + (length xs + 1) * w \<le> start" using m Cons.prems(2) by linarith
  have fit: "start + cursor + length (rec v) \<le> length d" using Cons.prems(3) by simp
  note sn = tab_snoc [OF Cons.prems(1) tb fit]
  have off: "15 + length xs * w + w \<le> length d" using tb fit by (simp add: algebra_simps)
  have len: "length ?d = length d" using sn(2) by (simp add: sameHead_def)
  have "15 + (length (xs @ [v]) + length vs) * w \<le> start" "start + (cursor + length (rec v)) + length (recs vs) \<le> length ?d"
    using Cons.prems(2,3) len by simp_all
  from Cons.IH [OF sn(1) this Cons.prems(4)] obtain d' ps' where ih:
    "encodeLoop ?d start w (length (xs @ [v])) (cursor + length (rec v)) (map rec vs) = Inr (d', cursor + length (rec v) + length (recs vs))"
    "tab_ok d' w start (cursor + length (rec v) + length (recs vs)) ps' ((xs @ [v]) @ vs)" "sameHead ?d d'" by blast
  have "encodeLoop d start w (length xs) cursor (map rec (v # vs)) = encodeLoop ?d start w (length (xs @ [v])) (cursor + length (rec v)) (map rec vs)"
    using fit off Cons.prems(4) by (simp add: putListOffset_patch indexedListFixed_def)
  then show ?case using ih sameHead_trans [OF sn(2) ih(3)] by (auto simp: add.assoc)
qed auto

lemma appendLoop_encodeLoop:
  assumes "start + cursor + length (recs vs) \<le> length d" "15 + (idx + length vs) * w \<le> start" "w = 2 \<or> w = 4"
  shows "appendLoop d start w idx cursor vs = encodeLoop d start w idx cursor (map rec vs)"
  using assms
proof (induction vs arbitrary: d cursor idx)
  case (Cons v vs)
  let ?u = "uvarint_put (length v)" let ?d = "writeAt (writeAt d (start + cursor) (rec v)) (15 + idx * w) (le_put w (cursor + 1))"
  have fit: "start + cursor + length (rec v) \<le> length d" using Cons.prems(1) by simp
  have u: "start + cursor + length ?u + length v \<le> length d" using fit by (simp add: length_rec(1))
  have w2: "writeAt (writeAt d (start + cursor) ?u) (start + (cursor + length ?u)) v = writeAt d (start + cursor) (rec v)"
    using writeAt_append [of "start + cursor" ?u v d] u by (simp add: rec_eq add.assoc)
  have off: "15 + idx * w + w \<le> length d" using Cons.prems(2) fit by (simp add: algebra_simps)
  have "appendLoop ?d start w (idx + 1) (cursor + length (rec v)) vs = encodeLoop ?d start w (idx + 1) (cursor + length (rec v)) (map rec vs)"
    by (rule Cons.IH) (use Cons.prems fit off in \<open>simp_all add: algebra_simps\<close>)
  then show ?case using u fit off w2 Cons.prems(3)
    by (simp add: putListOffset_patch indexedListFixed_def Let_def length_rec(1) add.assoc)
qed simp

lemma extraBytes_eq: "extraBytes vs = Some (length (recs vs))"
  by (induction vs) (simp_all add: listUvarintLen_put length_rec(1))

lemma pow2Loop_ge: "0 < p \<Longrightarrow> \<exists>q. pow2Loop p n = Some q \<and> p \<le> q \<and> n \<le> q"
proof (induction "n - p" arbitrary: p rule: less_induct)
  case less
  show ?case
  proof (cases "p < n")
    case True
    then have "n - 2 * p < n - p" using less.prems by simp
    from less.hyps [OF this] obtain q where "pow2Loop (2 * p) n = Some q" "2 * p \<le> q" "n \<le> q" using less.prems by auto
    then show ?thesis using True by (subst pow2Loop.simps) simp
  qed (subst pow2Loop.simps, simp)
qed

lemma nextListPow2_ge: "\<exists>q. nextListPow2 n = Some q \<and> 32 \<le> q \<and> n \<le> q"
  using pow2Loop_ge [of 32 n] by (simp add: nextListPow2_def indexedListPromoteElements_def)

lemma width_for: "indexedListWidthFor n = 2 \<or> indexedListWidthFor n = 4" "indexedListWidthFor n = 2 \<Longrightarrow> n \<le> indexedListNarrowMaxPayload"
  by (simp_all add: indexedListWidthFor_def split: if_splits)

lemma putIndexedListHeader_eq: "3 \<le> length out \<Longrightarrow> putIndexedListHeader out w = Inr (writeAt out 0 (hdrOf w))"
  unfolding putIndexedListHeader_def hdrOf_def [symmetric] by simp

lemma tab_empty [simp]: "tab_ok d w start 0 [] []"
  by (simp add: tab_ok_def)

lemma encodeIndexedList_cases:
  assumes ne: "xs \<noteq> []" and cap1: "nextListPow2 (length xs * 2) = Some cap"
  shows "encodeIndexedList xs = Inl ListTooLarge \<and> maxPackedListBytes < 527 + cap * 4 + 2 * length (recs xs)
    \<or> (\<exists>d. encodeIndexedList xs = Inr d \<and> indexed_ok d xs)"
proof -
  have cap: "nextListPow2 (length xs * 2) = Some cap" "32 \<le> cap" "length xs * 2 \<le> cap"
    using cap1 nextListPow2_ge [of "length xs * 2"] by auto
  define u where "u = length (recs xs)"
  define dc where "dc = (if u + u div 4 - u < 512 then u + 512 else u + u div 4)"
  define w where "w = indexedListWidthFor dc"
  define total where "total = 15 + cap * w + dc"
  have u: "sum_list (map length (map rec xs)) = u" by (simp add: u_def recs_def length_concat)
  have w: "w = 2 \<or> w = 4" "w = 2 \<longrightarrow> dc \<le> indexedListNarrowMaxPayload" using width_for [of dc] by (simp_all add: w_def)
  have dc: "u \<le> dc" by (simp add: dc_def)
  define z where "z = replicate total (0 :: byte)"
  have eq: "encodeIndexedList xs = (if total > maxPackedListBytes then Inl ListTooLarge
    else rbind (putIndexedListHeader z w) (\<lambda>out. rbind (patch out 3 (le_put 4 (length xs))) (\<lambda>out. rbind (patch out 7 (le_put 4 cap)) (\<lambda>out.
      rbind (encodeLoop out (15 + cap * w) w 0 0 (map rec xs)) (\<lambda>(out, cursor). patch out 11 (le_put 4 cursor))))))"
    unfolding encodeIndexedList_def cap(1) option.case Let_def u dc_def [symmetric] w_def [symmetric] indexedListFixed_def
      total_def [symmetric] z_def [symmetric] using ne by simp
  show ?thesis
  proof (cases "total > maxPackedListBytes")
    case True
    have "cap * w \<le> cap * 4" "dc \<le> 512 + 2 * u" using w(1) by (auto simp: dc_def)
    then have "total \<le> 527 + cap * 4 + 2 * u" unfolding total_def by linarith
    then show ?thesis using True eq by (simp add: u_def)
  next
  case False
  then have tot: "total \<le> maxPackedListBytes" by simp
  define z1 where "z1 = writeAt (writeAt (writeAt z 0 (hdrOf w)) 3 (le_put 4 (length xs))) 7 (le_put 4 cap)"
  have lz: "length z = total" "15 \<le> total" by (simp_all add: z_def total_def)
  have lz1: "length z1 = total" using lz by (simp add: z1_def)
  have tb: "15 + (length ([] :: bytes list) + length xs) * w \<le> 15 + cap * w" using cap(3) by (simp add: mult_le_mono1)
  have "15 + cap * w + 0 + length (recs xs) \<le> length z1" using dc lz1 by (simp add: total_def u_def)
  from encodeLoop_rep [OF tab_empty tb this w(1)] obtain d' ps where e: "encodeLoop z1 (15 + cap * w) w 0 0 (map rec xs) = Inr (d', u)"
    "tab_ok d' w (15 + cap * w) u ps xs" "sameHead z1 d'" by (auto simp: u_def)
  have ld: "length d' = total" using e(3) lz1 by (simp add: sameHead_def)
  define d where d: "d = writeAt d' 11 (le_put 4 u)"
  have enc: "encodeIndexedList xs = Inr d"
    using tot lz ld e(1) unfolding eq by (simp add: d putIndexedListHeader_eq z1_def [symmetric])
  have "bytesAt z1 0 (hdrOf w) \<and> bytesAt z1 3 (le_put 4 (length xs)) \<and> bytesAt z1 7 (le_put 4 cap)"
    using lz by (simp add: z1_def bytesAt_writeAt_other bytesAt_writeAt_same)
  then have "bytesAt d' 0 (hdrOf w) \<and> bytesAt d' 3 (le_put 4 (length xs)) \<and> bytesAt d' 7 (le_put 4 cap)"
    by (simp add: sameHead_at [OF e(3)])
  then have "head_ok d w (length xs) cap u"
    using ld lz w(1) by (simp add: head_ok_def d bytesAt_writeAt_other bytesAt_writeAt_same)
  moreover have "tab_ok d w (15 + cap * w) u ps xs" unfolding d by (rule tab_low [OF e(2)]) (use ld lz in simp_all)
  moreover have "room_ok d w (length xs) cap u"
    using cap(2,3) tot ld lz dc w(2) by (simp add: room_ok_def d total_def)
  ultimately show ?thesis using enc unfolding indexed_ok_def indexed_rep_def by blast
  qed
qed

lemma encodeIndexedList_ok:
  assumes "encodeIndexedList xs = Inr d"
  shows "indexed_ok d xs"
proof -
  have "xs \<noteq> []" using assms by (auto simp: encodeIndexedList_def)
  moreover obtain cap where "nextListPow2 (length xs * 2) = Some cap" using nextListPow2_ge by blast
  ultimately show ?thesis using encodeIndexedList_cases [of xs cap] assms by auto
qed

subsection \<open>Moving the contents\<close>

lemma widenLoop_rep:
  assumes rep: "indexed_rep d w cap used ps xs" and wd: "nw = 2 \<or> nw = 4" and "distinct is" "\<forall>i \<in> set is. i < length xs" "J \<inter> set is = {}"
    "15 + length xs * nw \<le> length out" "\<forall>j \<in> J. j < length xs \<and> bytesAt out (15 + j * nw) (le_put nw (ps ! j + 1))"
  shows "\<exists>out'. widenLoop d w out nw is = Inr out' \<and> sameHead out out'
    \<and> (\<forall>j \<in> J \<union> set is. bytesAt out' (15 + j * nw) (le_put nw (ps ! j + 1)))"
  using assms(3-)
proof (induction "is" arbitrary: out J)
  case (Cons i "is")
  have i: "i < length xs" using Cons.prems(2) by simp
  have ii: "i * nw + nw \<le> length xs * nw" using i mult_le_mono1 [of "i + 1" "length xs" nw] by simp
  let ?o = "writeAt out (15 + i * nw) (le_put nw (ps ! i + 1))"
  have fit: "15 + i * nw + length (le_put nw (ps ! i + 1)) \<le> length out" using ii Cons.prems(4) by simp
  have lo: "length ?o = length out" using fit by simp
  have keep: "bytesAt ?o (15 + j * nw) (le_put nw (ps ! j + 1))" if "j \<in> J" for j
  proof -
    have "j \<noteq> i" using Cons.prems(3) that by auto
    then have "j * nw + nw \<le> i * nw \<or> i * nw + nw \<le> j * nw"
      using mult_le_mono1 [of "j + 1" i nw] mult_le_mono1 [of "i + 1" j nw] by (cases "j < i") simp_all
    then show ?thesis using Cons.prems(5) that by (subst bytesAt_writeAt_other [OF fit]) auto
  qed
  have here: "bytesAt ?o (15 + i * nw) (le_put nw (ps ! i + 1))" by (rule bytesAt_writeAt_same [OF fit])
  have "\<forall>j \<in> insert i J. j < length xs \<and> bytesAt ?o (15 + j * nw) (le_put nw (ps ! j + 1))" using keep here i Cons.prems(5) by blast
  moreover have "insert i J \<inter> set is = {}" "distinct is" "\<forall>i \<in> set is. i < length xs" "15 + length xs * nw \<le> length ?o"
    using Cons.prems lo by auto
  ultimately obtain out' where ih: "widenLoop d w ?o nw is = Inr out'" "sameHead ?o out'"
    "\<forall>j \<in> insert i J \<union> set is. bytesAt out' (15 + j * nw) (le_put nw (ps ! j + 1))" using Cons.IH [of "insert i J" ?o] by blast
  have "widenLoop d w out nw (i # is) = widenLoop d w ?o nw is"
    using rep_parts(8) [OF rep i] fit wd by (simp add: putListOffset_patch indexedListFixed_def)
  moreover have "sameHead out out'" by (rule sameHead_trans [OF sameHead_write ih(2)]) (use fit in simp_all)
  ultimately show ?case using ih by auto
qed auto

text \<open>The position of an element when the records are packed without gaps.\<close>

definition tight :: "bytes list \<Rightarrow> nat \<Rightarrow> nat" where
  "tight xs i = length (recs (take i xs))"

lemma tight_Suc: "i < length xs \<Longrightarrow> tight xs (Suc i) = tight xs i + length (rec (xs ! i))"
  by (simp add: tight_def take_Suc_conv_app_nth)

lemma tight_mono: "i < j \<Longrightarrow> j \<le> length xs \<Longrightarrow> tight xs i + length (rec (xs ! i)) \<le> tight xs j"
proof (induction j)
  case (Suc j)
  then show ?case using tight_Suc [of j xs] tight_Suc [of i xs] by (cases "i = j") auto
qed simp

lemma tight_total: "i < length xs \<Longrightarrow> tight xs i + length (rec (xs ! i)) \<le> length (recs xs)"
  using tight_mono [of i "length xs" xs] by (simp add: tight_def)

lemma copyLiveLoop_rep:
  assumes rep: "indexed_rep d w cap used ps xs" and wd: "nw = 2 \<or> nw = 4" and k: "k \<le> length xs"
    and tl: "length xs * nw \<le> length table" and pl: "length (recs xs) \<le> length payload"
    and tb: "\<forall>j < k. bytesAt table (j * nw) (le_put nw (tight xs j + 1))" and pb: "bytesAt payload 0 (recs (take k xs))"
  shows "\<exists>table' payload'. copyLiveLoop d (15 + cap * w) [k ..< length xs] table nw payload (tight xs k) = Inr (table', payload', length (recs xs))
    \<and> length table' = length table \<and> length payload' = length payload
    \<and> (\<forall>j < length xs. bytesAt table' (j * nw) (le_put nw (tight xs j + 1))) \<and> bytesAt payload' 0 (recs xs)"
  using k tl pl tb pb
proof (induction "length xs - k" arbitrary: k table payload)
  case 0
  then have "k = length xs" by simp
  then show ?case using 0 by (simp add: tight_def)
next
  case (Suc n)
  have k: "k < length xs" using Suc.hyps(2) by simp
  note r = rep_parts [OF rep]
  let ?r = "rec (xs ! k)"
  have at: "bytesAt d (15 + cap * w + ps ! k) ?r" using rep k by (simp add: indexed_rep_def tab_ok_def)
  note rd = record_at(2) [OF r(2) at r(9) [OF k] r(5,4)]
  have ct: "subslice d (15 + cap * w + ps ! k) (15 + cap * w + ps ! k + length (uvarint_put (length (xs ! k))) + length (xs ! k)) = Inr ?r"
    using bytesAt_take [OF at] bytesAt_bound [OF at] by (simp add: subslice_def length_rec(1) add.assoc)
  let ?p = "writeAt payload (tight xs k) ?r" and ?t = "writeAt table (k * nw) (le_put nw (tight xs k + 1))"
  have fp: "tight xs k + length ?r \<le> length payload" using tight_total [OF k] Suc.prems(3) by simp
  have kk: "k * nw + nw \<le> length xs * nw" using k mult_le_mono1 [of "k + 1" "length xs" nw] by simp
  have ft: "k * nw + length (le_put nw (tight xs k + 1)) \<le> length table" using kk Suc.prems(2) by simp
  have T: "bytesAt ?t (j * nw) (le_put nw (tight xs j + 1))" if "j < Suc k" for j
  proof (cases "j = k")
    case True
    then show ?thesis using bytesAt_writeAt_same [OF ft] by simp
  next
    case False
    then have "j < k" using that by simp
    then show ?thesis using Suc.prems(4) mult_le_mono1 [of "j + 1" k nw] by (subst bytesAt_writeAt_other [OF ft]) auto
  qed
  have P: "bytesAt ?p 0 (recs (take (Suc k) xs))"
  proof -
    have "recs (take (Suc k) xs) = recs (take k xs) @ ?r" using k by (simp add: take_Suc_conv_app_nth)
    moreover have "bytesAt ?p 0 (recs (take k xs))" using Suc.prems(5) by (subst bytesAt_writeAt_other [OF fp]) (simp_all add: tight_def)
    ultimately show ?thesis using bytesAt_writeAt_same [OF fp] by (simp add: bytesAt_split tight_def)
  qed
  have hyps: "n = length xs - Suc k" "Suc k \<le> length xs" "length xs * nw \<le> length ?t" "length (recs xs) \<le> length ?p"
    using Suc.hyps(2) Suc.prems(2,3) k fp ft by simp_all
  obtain table' payload' where ih:
    "copyLiveLoop d (15 + cap * w) [Suc k ..< length xs] ?t nw ?p (tight xs (Suc k)) = Inr (table', payload', length (recs xs))"
    "length table' = length ?t" "length payload' = length ?p"
    "\<forall>j < length xs. bytesAt table' (j * nw) (le_put nw (tight xs j + 1))" "bytesAt payload' 0 (recs xs)"
    using Suc.hyps(1) [OF hyps _ P] T by blast
  have up: "[k ..< length xs] = k # [Suc k ..< length xs]" using k by (simp add: upt_conv_Cons)
  define st where "st = 15 + cap * w"
  have "copyLiveLoop d (15 + cap * w) [k ..< length xs] table nw payload (tight xs k)
    = copyLiveLoop d (15 + cap * w) [Suc k ..< length xs] ?t nw ?p (tight xs (Suc k))"
    using r(3) r(8) [OF k] rd ct fp ft wd unfolding st_def [symmetric]
    by (simp add: up putListOffset_patch tight_Suc [OF k])
  then show ?case using ih fp ft by auto
qed

lemma moveContents_rep:
  assumes rep: "indexed_rep d w cap used ps xs" and wd: "nw = 2 \<or> nw = 4" and nc: "length xs \<le> ncap"
    and fit: "15 + ncap * nw + length (recs xs) \<le> length out"
  shows "\<exists>out' ps'. moveContents d (length xs) used (15 + cap * w) (length (recs xs)) out nw (15 + ncap * nw) = Inr out'
    \<and> sameHead out out' \<and> tab_ok out' nw (15 + ncap * nw) (length (recs xs)) ps' xs"
proof -
  note r = rep_parts [OF rep]
  let ?n = "length xs" and ?live = "length (recs xs)" and ?start = "15 + ncap * nw"
  have nn: "?n * nw \<le> ncap * nw" using nc by (rule mult_le_mono1)
  have no: "15 + ?n * nw \<le> length out" using nn fit by linarith
  have jn: "j * nw + nw \<le> ?n * nw" if "j < ?n" for j using mult_le_mono1 [of "j + 1" ?n nw] that by simp
  have t: "tab_ok d w (15 + cap * w) used ps xs" using rep by (simp add: indexed_rep_def)
  have ord: "ps ! i + length (rec (xs ! i)) \<le> ps ! j" if "j < ?n" "i < j" for i j using t that by (simp add: tab_ok_def)
  have lps: "length ps = ?n" using t by (simp add: tab_ok_def)
  show ?thesis
  proof (cases "?live = used")
    case True
    obtain o1 where o1: "(if nw = indexedListOffsetWidth d then rbind (subslice d indexedListFixed (indexedListFixed + ?n * nw)) (patch out indexedListFixed)
        else widenLoop d (indexedListOffsetWidth d) out nw [0 ..< ?n]) = Inr o1" "sameHead out o1"
      "\<forall>j < ?n. bytesAt o1 (15 + j * nw) (le_put nw (ps ! j + 1))"
    proof (cases "nw = w")
      case same: True
      have "?n * w \<le> cap * w" using r(7) by (rule mult_le_mono1)
      then have nd: "15 + ?n * nw \<le> length d" using r(5) unfolding same by linarith
      have lt: "length (take (?n * nw) (drop 15 d)) = ?n * nw" using nd by simp
      have fo: "15 + length (take (?n * nw) (drop 15 d)) \<le> length out" unfolding lt by (rule no)
      have "bytesAt (writeAt out 15 (take (?n * nw) (drop 15 d))) (15 + j * nw) (le_put nw (ps ! j + 1))" if "j < ?n" for j
      proof (rule bytesAt_copy)
        show "bytesAt d (15 + j * nw) (le_put nw (ps ! j + 1))" using t that same by (simp add: tab_ok_def)
        show "j * nw + length (le_put nw (ps ! j + 1)) \<le> ?n * nw" using jn [OF that] by simp
      qed (rule nd no)+
      moreover have "sameHead out (writeAt out 15 (take (?n * nw) (drop 15 d)))" by (rule sameHead_write) (use fo in simp_all)
      ultimately show ?thesis using that same nd fo r(3) by (simp add: indexedListFixed_def subslice_fits)
    next
      case False
      obtain out' where "widenLoop d w out nw [0 ..< ?n] = Inr out'" "sameHead out out'"
        "\<forall>j \<in> {} \<union> set [0 ..< ?n]. bytesAt out' (15 + j * nw) (le_put nw (ps ! j + 1))"
        using widenLoop_rep [OF rep wd, of "[0 ..< ?n]" "{}" out] no by auto
      then show ?thesis using that [of out'] False r(3) by simp
    qed
    let ?P = "take used (drop (15 + cap * w) d)" let ?o2 = "writeAt o1 ?start ?P"
    have l1: "length o1 = length out" using o1(2) by (simp add: sameHead_def)
    have fo: "?start + length ?P \<le> length o1" using fit True l1 by simp
    have mv: "moveContents d ?n used (15 + cap * w) ?live out nw ?start = Inr ?o2"
      using True o1(1) fo r(5) by (simp add: moveContents_def subslice_fits)
    have "bytesAt ?o2 (15 + j * nw) (le_put nw (ps ! j + 1))" if "j < ?n" for j
    proof (subst bytesAt_writeAt_other [OF fo])
      show "15 + j * nw + length (le_put nw (ps ! j + 1)) \<le> ?start \<or> ?start + length ?P \<le> 15 + j * nw"
        using order_trans [OF jn [OF that] nn] by simp
    qed (use o1(3) that in blast)
    moreover have "bytesAt ?o2 (?start + ps ! j) (rec (xs ! j))" if "j < ?n" for j
    proof (rule bytesAt_copy)
      show "bytesAt d (15 + cap * w + ps ! j) (rec (xs ! j))" "ps ! j + length (rec (xs ! j)) \<le> used" using t that by (simp_all add: tab_ok_def)
    qed (use r(5) fit True l1 in simp_all)
    ultimately have "tab_ok ?o2 nw ?start ?live ps xs" using True ord lps t by (simp add: tab_ok_def)
    moreover have "sameHead out ?o2" by (rule sameHead_trans [OF o1(2) sameHead_write]) (use fo in simp_all)
    ultimately show ?thesis using mv by blast
  next
    case False
    let ?T = "take (?start - 15) (drop 15 out)" and ?P = "take ?live (drop ?start out)"
    have lT: "length ?T = ncap * nw" and lP: "length ?P = ?live" using fit by simp_all
    obtain T P where c: "copyLiveLoop d (15 + cap * w) [0 ..< ?n] ?T nw ?P (tight xs 0) = Inr (T, P, ?live)" "length T = length ?T" "length P = length ?P"
      "\<forall>j < ?n. bytesAt T (j * nw) (le_put nw (tight xs j + 1))" "bytesAt P 0 (recs xs)"
      using copyLiveLoop_rep [OF rep wd, of 0 ?T ?P] nn unfolding lT lP by (auto simp: bytesAt_def)
    let ?o = "take 15 out @ T @ P @ drop (?start + ?live) out"
    have mv: "moveContents d ?n used (15 + cap * w) ?live out nw ?start = Inr ?o"
      using False c(1) by (simp add: moveContents_def copyIndexedListLive_def indexedListFixed_def tight_def)
    have l15: "length (take 15 out) = 15" using fit by simp
    have PP: "P = recs xs" using c(5) lP c(3) by (simp add: bytesAt_def)
    have sh: "sameHead out ?o" using fit c(2,3) lT lP by (simp add: sameHead_def)
    have "bytesAt ?o (15 + j * nw) (le_put nw (tight xs j + 1))" if "j < ?n" for j
      by (rule bytesAt_append2 [OF _ bytesAt_append1 [OF c(4) [rule_format, OF that]]]) (use l15 in simp)
    moreover have "bytesAt ?o (?start + tight xs j) (rec (xs ! j))" if "j < ?n" for j
    proof -
      have "recs xs = recs (take j xs) @ rec (xs ! j) @ recs (drop (Suc j) xs)"
        using id_take_nth_drop [OF that] by (metis recs_simps(2,3))
      then have "bytesAt (recs xs) (tight xs j) (rec (xs ! j))" by (simp add: bytesAt_def tight_def)
      then have "bytesAt (recs xs @ drop (?start + ?live) out) (tight xs j) (rec (xs ! j))" by (rule bytesAt_append1)
      then have "bytesAt (T @ recs xs @ drop (?start + ?live) out) (ncap * nw + tight xs j) (rec (xs ! j))"
        by (rule bytesAt_append2 [rotated]) (use c(2) lT in simp)
      then show ?thesis unfolding PP by (rule bytesAt_append2 [rotated]) (use l15 in simp)
    qed
    ultimately have "tab_ok ?o nw ?start ?live (map (tight xs) [0 ..< ?n]) xs"
      using tight_total [of _ xs] tight_mono [of _ _ xs] by (simp add: tab_ok_def)
    then show ?thesis using mv sh by blast
  qed
qed

subsection \<open>Appending, trimming and popping\<close>

lemma fresh_head:
  assumes h: "head_ok d w n cap used" and l: "15 \<le> length d" "15 \<le> tlen" and wd: "nw = 2 \<or> nw = 4"
  obtains o' where "rbind (patch (replicate tlen 0) 0 (take indexedListFixed d)) (\<lambda>out. putIndexedListHeader out nw) = Inr o'"
    "patch (replicate tlen 0) 0 (take indexedListFixed d) = Inr (writeAt (replicate tlen 0) 0 (take 15 d))"
    "putIndexedListHeader (writeAt (replicate tlen 0) 0 (take 15 d)) nw = Inr o'"
    "head_ok o' nw n cap used" "length o' = tlen"
proof -
  let ?z = "replicate tlen (0 :: byte)" let ?a = "writeAt ?z 0 (take 15 d)" let ?o = "writeAt ?a 0 (hdrOf nw)"
  have la: "length ?a = tlen" using l by simp
  have p1: "patch ?z 0 (take indexedListFixed d) = Inr ?a" using l by (simp add: indexedListFixed_def)
  have p2: "putIndexedListHeader ?a nw = Inr ?o" using la l by (simp add: putIndexedListHeader_eq)
  have keep: "bytesAt ?o q bs" if "bytesAt d q bs" "3 \<le> q" "q + length bs \<le> 15" for q bs
  proof -
    have "bytesAt (writeAt ?z 0 (take 15 (drop 0 d))) (0 + q) bs"
      by (rule bytesAt_copy) (use that l in simp_all)
    then have "bytesAt ?a q bs" by simp
    then show ?thesis using that la l by (subst bytesAt_writeAt_other) simp_all
  qed
  have "bytesAt ?o 0 (hdrOf nw)" using la l by (simp add: bytesAt_writeAt_same)
  then have "head_ok ?o nw n cap used" using h wd keep [of 3 "le_put 4 n"] keep [of 7 "le_put 4 cap"] keep [of 11 "le_put 4 used"]
    by (simp add: head_ok_def)
  moreover have "length ?o = tlen" using la l by simp
  ultimately show ?thesis using that [of ?o] p1 p2 by simp
qed

lemma head_three:
  assumes "head_ok d w n cap used" "15 \<le> length d"
  shows "head_ok (writeAt (writeAt (writeAt d 3 (le_put 4 n')) 7 (le_put 4 cap')) 11 (le_put 4 used')) w n' cap' used'"
  using head_set(3) [OF head_set(2) [OF head_set(1) [OF assms]]] assms(2) by simp

lemma append_in_place:
  assumes rep: "indexed_rep d w cap used ps xs" and n: "length xs + length vs \<le> cap" and fit: "15 + cap * w + used + length (recs vs) \<le> length d"
  obtains d' where "appendLoop d (15 + cap * w) w (length xs) used vs = Inr (d', used + length (recs vs))" "length d' = length d"
    "indexed_ok (writeAt (writeAt d' 3 (le_put 4 (length xs + length vs))) 11 (le_put 4 (used + length (recs vs)))) (xs @ vs)"
proof -
  note r = rep_parts [OF rep]
  have h: "head_ok d w (length xs) cap used" and ro: "room_ok d w (length xs) cap used" and t: "tab_ok d w (15 + cap * w) used ps xs"
    using rep by (simp_all add: indexed_rep_def)
  have tb: "15 + (length xs + length vs) * w \<le> 15 + cap * w" using mult_le_mono1 [OF n, of w] by simp
  obtain d' ps' where e: "encodeLoop d (15 + cap * w) w (length xs) used (map rec vs) = Inr (d', used + length (recs vs))"
    "tab_ok d' w (15 + cap * w) (used + length (recs vs)) ps' (xs @ vs)" "sameHead d d'" using encodeLoop_rep [OF t tb fit r(1)] by blast
  let ?e = "writeAt (writeAt d' 3 (le_put 4 (length xs + length vs))) 11 (le_put 4 (used + length (recs vs)))"
  have ld: "length d' = length d" "15 \<le> length d" using e(3) r(5) by (simp_all add: sameHead_def)
  have hd: "head_ok d' w (length xs) cap used" using h head_same [OF e(3)] by simp
  have "head_ok ?e w (length (xs @ vs)) cap (used + length (recs vs))"
    using head_set(3) [OF head_set(1) [OF hd]] ld by simp
  moreover have "tab_ok ?e w (15 + cap * w) (used + length (recs vs)) ps' (xs @ vs)"
    by (intro tab_low e(2)) (use ld in simp_all)
  moreover have "room_ok ?e w (length (xs @ vs)) cap (used + length (recs vs))" using ro n fit ld by (simp add: room_ok_def)
  ultimately have "indexed_ok ?e (xs @ vs)" unfolding indexed_ok_def indexed_rep_def by blast
  then show ?thesis using that appendLoop_encodeLoop [OF fit tb r(1)] e(1) ld(1) by simp
qed

lemma headroomFor_ge: "512 \<le> headroomFor n"
  by (simp add: headroomFor_def Let_def)

lemma growIndexedListRaw_ok:
  assumes rep: "indexed_rep d w cap used ps xs"
  shows "growIndexedListRaw d vs = Inl ListTooLarge \<or>
    (\<exists>d'. growIndexedListRaw d vs = Inr (Some (length xs + length vs, d')) \<and> indexed_ok d' (xs @ vs))"
proof -
  note r = rep_parts [OF rep]
  have h: "head_ok d w (length xs) cap used" and ro: "room_ok d w (length xs) cap used" using rep by (simp_all add: indexed_rep_def)
  let ?n = "length xs + length vs"
  obtain ncap where nc: "(if ?n > cap then nextListPow2 (?n * 2) else Some cap) = Some ncap" "32 \<le> ncap" "?n \<le> ncap"
  proof (cases "?n > cap")
    case True
    obtain q where q: "nextListPow2 (?n * 2) = Some q" "32 \<le> q" "?n * 2 \<le> q" using nextListPow2_ge [of "?n * 2"] by blast
    show ?thesis by (rule that [of q]) (use q True in simp_all)
  next
    case False
    show ?thesis by (rule that [of cap]) (use ro False in \<open>simp_all add: room_ok_def\<close>)
  qed
  define nu where "nu = length (recs xs) + length (recs vs)"
  define dc where "dc = nu + headroomFor nu"
  define nw where "nw = indexedListWidthFor dc"
  define tlen where "tlen = 15 + ncap * nw + dc"
  have wd: "nw = 2 \<or> nw = 4" "nw = 2 \<longrightarrow> dc \<le> indexedListNarrowMaxPayload" using width_for [of dc] by (simp_all add: nw_def)
  have l15: "15 \<le> length d" "15 \<le> tlen" using r(5) by (simp_all add: tlen_def)
  obtain o0 where o0: "patch (replicate tlen 0) 0 (take indexedListFixed d) = Inr (writeAt (replicate tlen 0) 0 (take 15 d))"
    "putIndexedListHeader (writeAt (replicate tlen 0) 0 (take 15 d)) nw = Inr o0" "head_ok o0 nw (length xs) cap used" "length o0 = tlen"
    by (rule fresh_head [OF h l15 wd(1)])
  have le: "length xs \<le> ncap" "15 + ncap * nw + length (recs xs) \<le> length o0" using nc(3) o0(4) by (simp_all add: tlen_def dc_def nu_def)
  obtain o1 ps1 where o1: "moveContents d (length xs) used (15 + cap * w) (length (recs xs)) o0 nw (15 + ncap * nw) = Inr o1" "sameHead o0 o1"
    "tab_ok o1 nw (15 + ncap * nw) (length (recs xs)) ps1 xs" using moveContents_rep [OF rep wd(1) le] by blast
  have l1: "length o1 = tlen" using o1(2) o0(4) by (simp add: sameHead_def)
  have tb: "15 + (length xs + length vs) * nw \<le> 15 + ncap * nw" using mult_le_mono1 [OF nc(3), of nw] by simp
  have ft: "15 + ncap * nw + length (recs xs) + length (recs vs) \<le> length o1" using l1 by (simp add: tlen_def dc_def nu_def)
  obtain o2 ps2 where o2: "encodeLoop o1 (15 + ncap * nw) nw (length xs) (length (recs xs)) (map rec vs) = Inr (o2, length (recs xs) + length (recs vs))"
    "tab_ok o2 nw (15 + ncap * nw) (length (recs xs) + length (recs vs)) ps2 (xs @ vs)" "sameHead o1 o2"
    using encodeLoop_rep [OF o1(3) tb ft wd(1)] by blast
  have al: "appendLoop o1 (15 + ncap * nw) nw (length xs) (length (recs xs)) vs = Inr (o2, nu)"
    using appendLoop_encodeLoop [OF ft tb wd(1)] o2(1) by (simp add: nu_def)
  have l2: "length o2 = tlen" using o2(3) l1 by (simp add: sameHead_def)
  let ?d = "writeAt (writeAt (writeAt o2 3 (le_put 4 ?n)) 7 (le_put 4 ncap)) 11 (le_put 4 nu)"
  have ld: "length ?d = tlen" using l2 l15 by simp
  have eq: "growIndexedListRaw d vs = (if tlen > maxPackedListBytes then Inl ListTooLarge else
    rbind (patch (replicate tlen 0) 0 (take indexedListFixed d)) (\<lambda>out. rbind (putIndexedListHeader out nw) (\<lambda>out.
    rbind (moveContents d (length xs) used (15 + cap * w) (length (recs xs)) out nw (15 + ncap * nw)) (\<lambda>out.
    rbind (appendLoop out (15 + ncap * nw) nw (length xs) (length (recs xs)) vs) (\<lambda>(out, cursor).
    rbind (patch out 3 (le_put 4 ?n)) (\<lambda>out. rbind (patch out 7 (le_put 4 ncap)) (\<lambda>out. rbind (patch out 11 (le_put 4 cursor)) (\<lambda>out.
    Inr (Some (?n, out))))))))))"
    unfolding growIndexedListRaw_def r(2) sum.case prod.case indexedListLiveBytes_rep [OF rep] rbind_Inr option.case extraBytes_eq Let_def nc(1)
      nu_def [symmetric] dc_def [symmetric] nw_def [symmetric] indexedListFixed_def tlen_def [symmetric] ..
  have g: "growIndexedListRaw d vs = (if tlen > maxPackedListBytes then Inl ListTooLarge else Inr (Some (?n, ?d)))"
    using l15 l2 unfolding eq o0(1) rbind_Inr o0(2) o1(1) al by simp
  show ?thesis
  proof (cases "tlen > maxPackedListBytes")
    case tot: False
  have "head_ok o2 nw (length xs) cap used" using o0(3) head_same [OF sameHead_trans [OF o1(2) o2(3)]] by simp
  then have "head_ok ?d nw (length (xs @ vs)) ncap nu" using head_three [of o2] l2 l15 by simp
  moreover have "tab_ok ?d nw (15 + ncap * nw) nu ps2 (xs @ vs)"
    by (intro tab_low) (use o2(2) l2 l15 in \<open>simp_all add: nu_def\<close>)
  moreover have "room_ok ?d nw (length (xs @ vs)) ncap nu"
    using nc(2,3) ld tot wd(2) by (simp add: room_ok_def tlen_def dc_def)
  ultimately have "indexed_ok ?d (xs @ vs)" unfolding indexed_ok_def indexed_rep_def by blast
  then show ?thesis using g tot by simp
  qed (simp add: g)
qed

lemma append_single:
  assumes rep: "indexed_rep d w cap used ps xs" and n: "length xs + 1 \<le> cap" and fit: "15 + cap * w + used + length (rec v) \<le> length d"
  shows "rbind (patch d (15 + cap * w + used) (uvarint_put (length v))) (\<lambda>data.
       rbind (patch data (15 + cap * w + used + length (uvarint_put (length v))) v) (\<lambda>data.
       rbind (putListOffset data indexedListFixed (indexedListOffsetWidth data) (length xs) (used + 1)) F))
     = rbind (appendLoop d (15 + cap * w) w (length xs) used [v]) (\<lambda>(data, _). F data)"
proof -
  note r = rep_parts [OF rep]
  define s where "s = 15 + cap * w + used"
  let ?u = "uvarint_put (length v)" let ?a = "writeAt d s (rec v)"
  have f: "s + length ?u + length v \<le> length d" using fit by (simp add: length_rec(1) s_def)
  have w2: "writeAt (writeAt d s ?u) (s + length ?u) v = ?a" using writeAt_append [of s ?u v d] f by (simp add: rec_eq add.assoc)
  have sh: "sameHead d ?a" by (rule sameHead_write) (use fit in \<open>simp_all add: s_def\<close>)
  have h: "head_ok ?a w (length xs) cap used" using rep head_same [OF sh] by (simp add: indexed_rep_def)
  have ro: "room_ok ?a w (length xs) cap used" using rep f by (simp add: indexed_rep_def room_ok_def length_rec(1))
  have wd: "indexedListOffsetWidth ?a = w" by (rule meta_at [OF h ro])
  have "s + length ?u \<le> length d" using f by simp
  then show ?thesis using f w2 wd unfolding s_def by (simp add: add.assoc rbind_def split: sum.split)
qed

lemma indexedListAppend_ok:
  assumes rep: "indexed_rep d w cap used ps xs"
  shows "indexedListAppend d vs = Inl ListTooLarge \<or> (\<exists>r d'. indexedListAppend d vs = Inr (length xs + length vs, r, d')
    \<and> (case r of None \<Rightarrow> indexed_ok d' (xs @ vs) | Some out \<Rightarrow> d' = d \<and> indexed_ok out (xs @ vs)))"
proof -
  note r = rep_parts [OF rep]
  let ?n = "length xs + length vs"
  let ?room = "?n \<le> cap \<and> 15 + cap * w + used + length (recs vs) \<le> length d"
  let ?place = "rbind (appendLoop d (15 + cap * w) w (length xs) used vs) (\<lambda>(data, cursor).
     rbind (patch data 3 (le_put 4 ?n)) (\<lambda>data. rbind (patch data 11 (le_put 4 cursor)) (\<lambda>data. Inr (?n, None, data))))"
  have eq: "indexedListAppend d vs = (if ?room then ?place
    else rbind (growIndexedListRaw d vs) (\<lambda>grown. case grown of Some (grownCount, out) \<Rightarrow> Inr (grownCount, Some out, d)
      | None \<Rightarrow> rbind (decodeIndexedList d) (\<lambda>elements. rbind (encodeIndexedList (elements @ vs)) (\<lambda>rebuilt.
           Inr (length (elements @ vs), Some rebuilt, d)))))"
  proof (cases "length vs = 1 \<and> ?room")
    case True
    then obtain v where v: "vs = [v]" by (cases vs) auto
    have n: "length xs + 1 \<le> cap" "15 + cap * w + used + length (rec v) \<le> length d" using True v by simp_all
    obtain d' where "appendLoop d (15 + cap * w) w (length xs) used vs = Inr (d', used + length (recs vs))"
      using append_in_place [OF rep, of vs] True by blast
    then have al: "appendLoop d (15 + cap * w) w (length xs) used [v] = Inr (d', used + length (rec v))" by (simp add: v)
    show ?thesis using n unfolding indexedListAppend_def r(2) rbind_Inr prod.case v list.case Let_def list.sel append_single [OF rep n] al
      by (simp add: length_rec(1))
  next
    case False
    then show ?thesis unfolding indexedListAppend_def r(2,3) rbind_Inr prod.case extraBytes_eq option.case Let_def
      by (auto split: list.split simp: length_rec(1))
  qed
  show ?thesis
  proof (cases ?room)
    case True
    then obtain d' where d': "appendLoop d (15 + cap * w) w (length xs) used vs = Inr (d', used + length (recs vs))" "length d' = length d"
      "indexed_ok (writeAt (writeAt d' 3 (le_put 4 ?n)) 11 (le_put 4 (used + length (recs vs)))) (xs @ vs)"
      using append_in_place [OF rep, of vs] by blast
    have "15 \<le> length d'" using d'(2) r(5) by simp
    then show ?thesis using True d'(1,3) unfolding eq by simp
  next
    case False
    then show ?thesis using growIndexedListRaw_ok [OF rep, of vs] unfolding eq by auto
  qed
qed

lemma trimIndexedList_ok:
  assumes rep: "indexed_rep d w cap used ps xs"
  shows "trimIndexedList d = Inr None \<or> (\<exists>out. trimIndexedList d = Inr (Some out) \<and> indexed_ok out xs \<and> length out < length d)"
proof -
  note r = rep_parts [OF rep]
  have h: "head_ok d w (length xs) cap used" and ro: "room_ok d w (length xs) cap used" using rep by (simp_all add: indexed_rep_def)
  define live where "live = length (recs xs)"
  define ncap where "ncap = (if length xs < indexedListPromoteElements then indexedListPromoteElements else length xs)"
  define nw where "nw = indexedListWidthFor live"
  define tlen where "tlen = 15 + ncap * nw + live"
  have nc: "32 \<le> ncap" "length xs \<le> ncap" by (simp_all add: ncap_def indexedListPromoteElements_def)
  have wd: "nw = 2 \<or> nw = 4" "nw = 2 \<longrightarrow> live \<le> indexedListNarrowMaxPayload" using width_for [of live] by (simp_all add: nw_def)
  have l15: "15 \<le> length d" "15 \<le> tlen" using r(5) by (simp_all add: tlen_def)
  obtain o0 where o0: "patch (replicate tlen 0) 0 (take indexedListFixed d) = Inr (writeAt (replicate tlen 0) 0 (take 15 d))"
    "putIndexedListHeader (writeAt (replicate tlen 0) 0 (take 15 d)) nw = Inr o0" "head_ok o0 nw (length xs) cap used" "length o0 = tlen"
    by (rule fresh_head [OF h l15 wd(1)])
  have le: "15 + ncap * nw + length (recs xs) \<le> length o0" using o0(4) by (simp add: tlen_def live_def)
  obtain o1 ps1 where o1: "moveContents d (length xs) used (15 + cap * w) (length (recs xs)) o0 nw (15 + ncap * nw) = Inr o1" "sameHead o0 o1"
    "tab_ok o1 nw (15 + ncap * nw) (length (recs xs)) ps1 xs" using moveContents_rep [OF rep wd(1) nc(2) le] by blast
  have l1: "length o1 = tlen" using o1(2) o0(4) by (simp add: sameHead_def)
  let ?d = "writeAt (writeAt o1 7 (le_put 4 ncap)) 11 (le_put 4 live)"
  have ld: "length ?d = tlen" using l1 l15 by simp
  have eq: "trimIndexedList d = (if tlen \<ge> length d then Inr None else
    rbind (patch (replicate tlen 0) 0 (take indexedListFixed d)) (\<lambda>out. rbind (putIndexedListHeader out nw) (\<lambda>out.
    rbind (moveContents d (length xs) used (15 + cap * w) live out nw (15 + ncap * nw)) (\<lambda>out.
    rbind (patch out 7 (le_put 4 ncap)) (\<lambda>out. rbind (patch out 11 (le_put 4 live)) (\<lambda>out. Inr (Some out)))))))"
    unfolding trimIndexedList_def r(2) sum.case prod.case indexedListLiveBytes_rep [OF rep] rbind_Inr option.case Let_def
      live_def [symmetric] ncap_def [symmetric] nw_def [symmetric] indexedListFixed_def tlen_def [symmetric] ..
  have g: "trimIndexedList d = (if tlen \<ge> length d then Inr None else Inr (Some ?d))"
    using l15 l1 unfolding eq o0(1) rbind_Inr o0(2) live_def o1(1) by simp
  show ?thesis
  proof (cases "tlen \<ge> length d")
    case lt: False
    have "head_ok o1 nw (length xs) cap used" using o0(3) head_same [OF o1(2)] by simp
    then have "head_ok ?d nw (length xs) ncap live" using head_set(3) [OF head_set(2)] l1 l15 by simp
    moreover have "tab_ok ?d nw (15 + ncap * nw) live ps1 xs"
      by (intro tab_low) (use o1(3) l1 l15 in \<open>simp_all add: live_def\<close>)
    moreover have "tlen \<le> maxPackedListBytes" using lt ro by (simp add: room_ok_def)
    then have "room_ok ?d nw (length xs) ncap live" using nc ld wd(2) by (simp add: room_ok_def tlen_def)
    ultimately have "indexed_ok ?d xs" unfolding indexed_ok_def indexed_rep_def by blast
    then show ?thesis using g lt ld by simp
  qed (simp add: g)
qed

lemma popLoop_rep:
  assumes rep: "indexed_rep d w cap used ps xs" and "\<forall>i \<in> set is. i < length xs"
  shows "popLoop d used is = Inr (Some (map (\<lambda>i. (xs ! i, ps ! i, ps ! i + length (rec (xs ! i)))) is))"
  using assms(2)
proof (induction "is")
  case (Cons i "is")
  have i: "i < length xs" using Cons.prems by simp
  note r = rep_parts(3) [OF rep] rep_parts(8-10) [OF rep i]
  have "ps ! i < used" using r(3) length_rec(2) [of "xs ! i"] by linarith
  then show ?case using Cons r by simp
qed simp

lemma reclaim_bound:
  assumes "b \<le> used" "\<forall>s \<in> set spans. b \<le> fst (snd s)"
  shows "b \<le> reclaim used spans"
  using assms by (induction used spans rule: reclaim.induct) simp_all

lemma reclaim_le:
  assumes "\<forall>s \<in> set spans. fst (snd s) \<le> snd (snd s)"
  shows "reclaim used spans \<le> used"
  using assms by (induction used spans rule: reclaim.induct) fastforce+

lemma tab_left:
  assumes t: "tab_ok d w start used ps xs" and n: "n \<le> length xs" and st: "15 + length xs * w \<le> start" "start \<le> length d"
  shows "tab_ok (writeAt d 15 (drop (n * w) (take (length xs * w) (drop 15 d)) @ replicate (n * w) 0)) w start used (drop n ps) (drop n xs)"
    (is "tab_ok (writeAt d 15 (?a @ ?z)) _ _ _ _ _")
proof -
  have nw: "n * w \<le> length xs * w" using n by (rule mult_le_mono1)
  have lw: "length ?a = length xs * w - n * w" using st by simp
  have tot: "length (?a @ ?z) = length xs * w" using nw lw by (simp only: length_append length_replicate)
  have e: "writeAt d 15 (?a @ ?z) = writeAt (writeAt d 15 ?a) (15 + length ?a) ?z"
    by (rule writeAt_append [symmetric]) (use tot st in simp)
  have fa: "15 + length ?a \<le> length d" using lw nw st by linarith
  have fz: "15 + length ?a + length ?z \<le> length (writeAt d 15 ?a)" using tot fa st by simp
  have off: "bytesAt (writeAt d 15 (?a @ ?z)) (15 + i * w) bs"
    if b: "bytesAt d (15 + (n + i) * w) bs" "length bs = w" and i: "n + i < length xs" for i bs
  proof -
    have iw: "(n + i + 1) * w \<le> length xs * w" using i by (intro mult_le_mono1) simp
    have i1: "i * w + w \<le> length ?a" using iw lw by (simp add: algebra_simps)
    have aeq: "?a = take (length ?a) (drop (15 + n * w) d)" unfolding lw by (simp add: drop_take add.commute)
    have "bytesAt (writeAt d 15 (take (length ?a) (drop (15 + n * w) d))) (15 + i * w) bs"
    proof (rule bytesAt_copy)
      show "bytesAt d (15 + n * w + i * w) bs" using b(1) by (simp add: algebra_simps)
      show "i * w + length bs \<le> length ?a" unfolding b(2) by (rule i1)
      show "15 + n * w + length ?a \<le> length d" using lw nw st by linarith
      show "15 + length ?a \<le> length d" by (rule fa)
    qed
    then have "bytesAt (writeAt d 15 ?a) (15 + i * w) bs" using aeq by simp
    then show ?thesis unfolding e using i1 b(2) by (subst bytesAt_writeAt_other [OF fz]) simp_all
  qed
  have hi: "bytesAt (writeAt d 15 (?a @ ?z)) (start + q) bs" if "bytesAt d (start + q) bs" for q bs
    using that tot st by (subst bytesAt_writeAt_other) simp_all
  show ?thesis unfolding tab_ok_def
  proof (intro conjI allI impI)
    show "length (drop n ps) = length (drop n xs)" using t by (simp add: tab_ok_def)
  next
    fix i assume "i < length (drop n xs)"
    then have i: "n + i < length xs" by simp
    then have l: "n + i < length ps" using t by (simp add: tab_ok_def)
    have o: "bytesAt d (15 + (n + i) * w) (le_put w (ps ! (n + i) + 1))" "bytesAt d (start + ps ! (n + i)) (rec (xs ! (n + i)))"
      "ps ! (n + i) + length (rec (xs ! (n + i))) \<le> used" using t i by (simp_all add: tab_ok_def)
    show "bytesAt (writeAt d 15 (?a @ ?z)) (15 + i * w) (le_put w (drop n ps ! i + 1))" using off [OF o(1) _ i] l by simp
    show "bytesAt (writeAt d 15 (?a @ ?z)) (start + drop n ps ! i) (rec (drop n xs ! i))" using hi [OF o(2)] i l by simp
    show "drop n ps ! i + length (rec (drop n xs ! i)) \<le> used" using o(3) i l by simp
  next
    fix j i assume "j < length (drop n xs)" "i < j"
    then have "n + j < length xs" "n + i < n + j" by simp_all
    then show "drop n ps ! i + length (rec (drop n xs ! i)) \<le> drop n ps ! j" using t by (simp add: tab_ok_def)
  qed
qed

lemma tab_right:
  assumes t: "tab_ok d w start used ps xs" and n: "n \<le> length xs" and st: "15 + length xs * w \<le> start" "start \<le> length d"
    and u: "\<forall>i < length xs - n. ps ! i + length (rec (xs ! i)) \<le> u"
  shows "tab_ok (writeAt d (15 + (length xs - n) * w) (replicate (n * w) 0)) w start u (take (length xs - n) ps) (take (length xs - n) xs)"
    (is "tab_ok ?d _ _ _ _ _")
proof -
  define m where "m = length xs - n"
  have mn: "m * w + n * w = length xs * w" using n unfolding m_def by (simp flip: add_mult_distrib)
  have fit: "15 + m * w + length (replicate (n * w) (0 :: byte)) \<le> length d" using mn st by simp
  have off: "bytesAt ?d (15 + i * w) (le_put w v)" if "bytesAt d (15 + i * w) (le_put w v)" "i < m" for i v
  proof -
    have "(i + 1) * w \<le> m * w" using that(2) by (intro mult_le_mono1) simp
    then show ?thesis using that unfolding m_def [symmetric] by (subst bytesAt_writeAt_other [OF fit]) simp_all
  qed
  have hi: "bytesAt ?d (start + q) bs" if "bytesAt d (start + q) bs" for q bs
    using that mn st unfolding m_def [symmetric] by (subst bytesAt_writeAt_other [OF fit]) simp_all
  have "m \<le> length xs" by (simp add: m_def)
  then show ?thesis using t off hi u unfolding tab_ok_def m_def [symmetric] by simp
qed

lemma indexedListPop_ok:
  assumes rep: "indexed_rep d w cap used ps xs" and n: "0 < n" "n + indexedListPopMinCount \<le> length xs"
  obtains d' where "indexedListPop d n left = Inr (Some (take n (if left then xs else rev xs), d'))" "length d' = length d"
    "indexed_ok d' (if left then drop n xs else take (length xs - n) xs)"
proof -
  note r = rep_parts [OF rep]
  have h: "head_ok d w (length xs) cap used" and ro: "room_ok d w (length xs) cap used" and t: "tab_ok d w (15 + cap * w) used ps xs"
    using rep by (simp_all add: indexed_rep_def)
  let ?m = "length xs - n" let ?span = "\<lambda>i. (xs ! i, ps ! i, ps ! i + length (rec (xs ! i)))"
  have nn: "n \<le> length xs" "\<not> (n = 0 \<or> n > length xs \<or> length xs - n < indexedListPopMinCount)" using n by auto
  have cw: "15 + length xs * w \<le> 15 + cap * w" "15 + cap * w \<le> length d" using mult_le_mono1 [OF r(7), of w] r(5) by simp_all
  have l15: "15 \<le> length d" using r(5) by simp
  have cw3: "15 + length xs * w \<le> length d" using cw by linarith
  show ?thesis
  proof (cases left)
    case True
    define a where "a = drop (n * w) (take (length xs * w) (drop 15 d)) @ replicate (n * w) 0"
    have "n * w \<le> length xs * w" using nn(1) by (rule mult_le_mono1)
    then have "length a = length xs * w" using cw by (simp only: a_def length_append length_drop length_take length_replicate)
    then have la: "15 + length a \<le> length d" using cw by linarith
    let ?d = "writeAt (writeAt d 15 a) 3 (le_put 4 ?m)"
    have pl: "popLoop d used [0 ..< n] = Inr (Some (map ?span [0 ..< n]))" using nn(1) by (intro popLoop_rep [OF rep]) simp
    have "subslice d 15 (15 + length xs * w) = Inr (take (length xs * w) (drop 15 d))" using cw3 by (subst subslice_fits) simp_all
    then have "indexedListPop d n True = Inr (Some (map (fst \<circ> ?span) [0 ..< n], ?d))"
      using la l15 nn(2) pl unfolding indexedListPop_def r(2) sum.case prod.case Let_def r(3) indexedListFixed_def
      by (simp add: a_def [symmetric] comp_def)
    moreover have "map (fst \<circ> ?span) [0 ..< n] = take n xs" using nn(1) by (simp add: comp_def map_nth_range)
    moreover have "head_ok ?d w (length (drop n xs)) cap used"
      using head_set(1) [of "writeAt d 15 a"] h head_same [OF sameHead_write [of 15 a d]] la l15 by simp
    moreover have "tab_ok ?d w (15 + cap * w) used (drop n ps) (drop n xs)" unfolding a_def
      by (intro tab_low tab_left t nn(1) cw) (use la l15 in \<open>simp_all add: a_def\<close>)
    moreover have "room_ok ?d w (length (drop n xs)) cap used" using ro la l15 by (auto simp: room_ok_def)
    ultimately show ?thesis using True la l15 by (intro that [of ?d]) (auto simp: indexed_ok_def indexed_rep_def)
  next
    case False
    define z where "z = replicate (n * w) (0 :: byte)"
    define u where "u = reclaim used (rev (map ?span [?m ..< length xs]))"
    have mn: "?m * w + n * w = length xs * w" using nn(1) by (simp flip: add_mult_distrib)
    have lz: "15 + ?m * w + length z \<le> length d" using mn cw3 by (simp add: z_def)
    let ?e = "writeAt (writeAt d (15 + ?m * w) z) 11 (le_put 4 u)" let ?d = "writeAt ?e 3 (le_put 4 ?m)"
    have pl: "popLoop d used [?m ..< length xs] = Inr (Some (map ?span [?m ..< length xs]))" by (intro popLoop_rep [OF rep]) simp
    have "indexedListPop d n False = Inr (Some (rev (map (fst \<circ> ?span) [?m ..< length xs]), ?d))"
      using lz l15 nn(2) pl unfolding indexedListPop_def r(2) sum.case prod.case Let_def r(3) indexedListFixed_def
      by (simp add: z_def [symmetric] u_def [symmetric] comp_def)
    moreover have "map (fst \<circ> ?span) [?m ..< length xs] = drop ?m xs" by (simp add: comp_def map_nth_range)
    then have "rev (map (fst \<circ> ?span) [?m ..< length xs]) = take n (rev xs)" using nn(1) by (simp add: rev_drop)
    moreover have "u \<le> used" unfolding u_def by (rule reclaim_le) auto
    then have "room_ok ?d w (length (take ?m xs)) cap u" using ro lz l15 by (auto simp: room_ok_def)
    moreover have "head_ok ?d w (length (take ?m xs)) cap u"
      using head_set(1) [OF head_set(3) [of "writeAt d (15 + ?m * w) z"]] h head_same [OF sameHead_write [of "15 + ?m * w" z d]] lz l15 by simp
    moreover have "\<forall>i < ?m. ps ! i + length (rec (xs ! i)) \<le> u" unfolding u_def
      by (intro allI impI reclaim_bound) (use t r(9) in \<open>auto simp: tab_ok_def\<close>)
    then have "tab_ok (writeAt d (15 + ?m * w) z) w (15 + cap * w) u (take ?m ps) (take ?m xs)" unfolding z_def
      by (rule tab_right [OF t nn(1) cw])
    then have "tab_ok ?d w (15 + cap * w) u (take ?m ps) (take ?m xs)" by (rule tab_low [OF tab_low]) (use lz l15 in simp_all)
    ultimately show ?thesis using False lz l15 by (intro that [of ?d]) (auto simp: indexed_ok_def indexed_rep_def)
  qed
qed

subsection \<open>The layout and its reachable states\<close>

interpretation indexed: ranged_layout indexed_ok encodeIndexedList decodeIndexedList indexedListLen indexedListElement indexedListRange
proof unfold_locales
  show "indexedListLen d = Inr (length xs)" if "indexed_ok d xs" for d xs
    using that rep_parts(2) by (fastforce simp: indexed_ok_def indexedListLen_def)
qed (auto simp: indexed_ok_def decodeIndexedList_rep indexedListElement_rep indexedListRange_rep dest!: encodeIndexedList_ok)

text \<open>The states a stored list goes through: it is promoted by the encoder, appended to in place or rebuilt,
  popped in place on either side, and trimmed while idle.\<close>

inductive listReach :: "bytes \<Rightarrow> bytes list \<Rightarrow> bool" where
  Promote: "encodeIndexedList xs = Inr d \<Longrightarrow> listReach d xs"
| InPlace: "listReach d xs \<Longrightarrow> indexedListAppend d vs = Inr (n, None, d') \<Longrightarrow> listReach d' (xs @ vs)"
| Rebuild: "listReach d xs \<Longrightarrow> indexedListAppend d vs = Inr (n, Some out, d') \<Longrightarrow> listReach out (xs @ vs)"
| PopLeft: "listReach d xs \<Longrightarrow> indexedListPop d n True = Inr (Some (ys, d')) \<Longrightarrow> listReach d' (drop n xs)"
| PopRight: "listReach d xs \<Longrightarrow> indexedListPop d n False = Inr (Some (ys, d')) \<Longrightarrow> listReach d' (take (length xs - n) xs)"
| Trim: "listReach d xs \<Longrightarrow> trimIndexedList d = Inr (Some out) \<Longrightarrow> listReach out xs"

lemma indexedListPop_cases:
  assumes "indexed_ok d xs"
  shows "if 0 < n \<and> n + indexedListPopMinCount \<le> length xs
     then \<exists>d'. indexedListPop d n left = Inr (Some (take n (if left then xs else rev xs), d')) \<and> length d' = length d
            \<and> indexed_ok d' (if left then drop n xs else take (length xs - n) xs)
     else indexedListPop d n left = Inr None"
proof -
  obtain w cap used ps where rep: "indexed_rep d w cap used ps xs" using assms by (auto simp: indexed_ok_def)
  show ?thesis
  proof (cases "0 < n \<and> n + indexedListPopMinCount \<le> length xs")
    case True
    then obtain d' where "indexedListPop d n left = Inr (Some (take n (if left then xs else rev xs), d'))" "length d' = length d"
      "indexed_ok d' (if left then drop n xs else take (length xs - n) xs)" using indexedListPop_ok [OF rep] by blast
    then show ?thesis using True by auto
  next
    case False
    then have "n = 0 \<or> n > length xs \<or> length xs - n < indexedListPopMinCount" by auto
    then show ?thesis using False unfolding indexedListPop_def rep_parts(2) [OF rep] by auto
  qed
qed

lemma indexedListPop_after:
  assumes "indexed_ok d xs" "indexedListPop d n left = Inr (Some (ys, d'))"
  shows "indexed_ok d' (if left then drop n xs else take (length xs - n) xs)"
  using indexedListPop_cases [OF assms(1), of n left] assms(2) by (auto split: if_splits)

lemma listReach_ok: "listReach d xs \<Longrightarrow> indexed_ok d xs"
proof (induction rule: listReach.induct)
  case (Promote xs d)
  then show ?case by (rule encodeIndexedList_ok)
next
  case (InPlace d xs vs n d')
  then show ?case using indexedListAppend_ok [of d _ _ _ _ xs vs] by (fastforce simp: indexed_ok_def)
next
  case (Rebuild d xs vs n out d')
  then show ?case using indexedListAppend_ok [of d _ _ _ _ xs vs] by (fastforce simp: indexed_ok_def)
next
  case (PopLeft d xs n ys d')
  then show ?case using indexedListPop_after [of d xs n True] by simp
next
  case (PopRight d xs n ys d')
  then show ?case using indexedListPop_after [of d xs n False] by simp
next
  case (Trim d xs out)
  then show ?case using trimIndexedList_ok [of d _ _ _ _ xs] by (fastforce simp: indexed_ok_def)
qed

lemma promoted:
  obtains d where "encodeIndexedList (replicate 20 [1]) = Inr d"
proof -
  have "nextListPow2 (length (replicate 20 [1 :: byte]) * 2) = Some 64"
    by (simp add: nextListPow2_def indexedListPromoteElements_def pow2Loop.simps)
  moreover have "length (recs (replicate 20 [1 :: byte])) = 40" by code_simp
  moreover have "maxPackedListBytes = 33554432" by (simp add: maxPackedListBytes_def)
  ultimately show ?thesis using encodeIndexedList_cases [of "replicate 20 [1]" 64] that by auto
qed

text \<open>C11: After any history of promotions, appends (in place or rebuilt), pops on either side and idle trims, the
  stored bytes read back as the list of elements the history describes: decoding, the length, every index including
  negative ones, and every index range agree with it.\<close>

theorem indexed_list_history:
  assumes "listReach d xs"
  shows "decodeIndexedList d = Inr xs \<and> indexedListLen d = Inr (length xs)
     \<and> indexedListElement d i = Inr (redisIndex xs i) \<and> indexedListRange d i j = Inr (redisRange xs i j)"
  using listReach_ok [OF assms] indexed.dec_rep indexed.len_rep indexed.elem_rep indexed.range_rep by blast

theorem indexed_list_history_witness:
  "\<exists>d. listReach d (replicate 20 [1]) \<and> indexedListElement d (- 20) = Inr (Some [1])"
proof -
  obtain d where "encodeIndexedList (replicate 20 [1]) = Inr d" by (rule promoted)
  then have r: "listReach d (replicate 20 [1])" by (rule listReach.Promote)
  have "redisIndex (replicate 20 [1 :: byte]) (- 20) = Some [1]" by code_simp
  then show ?thesis using r indexed_list_history [OF r, of "- 20"] by auto
qed

text \<open>C35: Popping from a reachable list returns the elements from the chosen end, in pop order, without changing the
  size of the stored bytes, exactly when enough elements stay behind; otherwise it leaves the pop to the generic path.\<close>

theorem indexed_pop_exact:
  assumes "listReach d xs"
  shows "if 0 < n \<and> n + indexedListPopMinCount \<le> length xs
     then \<exists>d'. indexedListPop d n left = Inr (Some (take n (if left then xs else rev xs), d')) \<and> length d' = length d
            \<and> decodeIndexedList d' = Inr (if left then drop n xs else take (length xs - n) xs)
     else indexedListPop d n left = Inr None"
  using indexedListPop_cases [OF listReach_ok [OF assms], of n left] indexed.dec_rep by (auto split: if_splits)

theorem indexed_pop_exact_witness:
  "\<exists>d d'. listReach d (replicate 20 [1]) \<and> indexedListPop d 3 False = Inr (Some ([[1], [1], [1]], d'))
     \<and> decodeIndexedList d' = Inr (replicate 17 [1])"
proof -
  obtain d where "encodeIndexedList (replicate 20 [1]) = Inr d" by (rule promoted)
  then have r: "listReach d (replicate 20 [1])" by (rule listReach.Promote)
  have c: "0 < (3 :: nat) \<and> 3 + indexedListPopMinCount \<le> length (replicate 20 [1 :: byte])"
    by (simp add: indexedListPopMinCount_def indexedListPromoteElements_def)
  have t: "take 3 (rev (replicate 20 [1 :: byte])) = [[1], [1], [1]]" "take (length (replicate 20 [1 :: byte]) - 3) (replicate 20 [1]) = replicate 17 [1 :: byte]"
    by code_simp+
  show ?thesis using r indexed_pop_exact [OF r, of 3 False] unfolding if_P [OF c] if_False t by blast
qed

text \<open>C36: Appending to a reachable list either reports that the list exceeds its limit or yields the appended list, in
  the given bytes or in rebuilt ones that leave the given bytes unchanged; no other error and no panic is possible.\<close>

theorem indexed_append_total:
  assumes "listReach d xs"
  shows "indexedListAppend d vs = Inl ListTooLarge \<or> (\<exists>r d'. indexedListAppend d vs = Inr (length (xs @ vs), r, d')
     \<and> (case r of None \<Rightarrow> decodeIndexedList d' = Inr (xs @ vs) | Some out \<Rightarrow> d' = d \<and> decodeIndexedList out = Inr (xs @ vs)))"
proof -
  obtain w cap used ps where rep: "indexed_rep d w cap used ps xs" using listReach_ok [OF assms] by (auto simp: indexed_ok_def)
  from indexedListAppend_ok [OF rep, of vs] show ?thesis
    using indexed.dec_rep by (fastforce split: option.splits)
qed

theorem indexed_append_total_witness:
  "\<exists>d. listReach d (replicate 20 [1]) \<and> (indexedListAppend d [[7]] = Inl ListTooLarge
     \<or> (\<exists>r d'. indexedListAppend d [[7]] = Inr (21, r, d')
          \<and> (case r of None \<Rightarrow> decodeIndexedList d' = Inr (replicate 20 [1] @ [[7]])
             | Some out \<Rightarrow> d' = d \<and> decodeIndexedList out = Inr (replicate 20 [1] @ [[7]]))))"
proof -
  obtain d where "encodeIndexedList (replicate 20 [1]) = Inr d" by (rule promoted)
  then have r: "listReach d (replicate 20 [1])" by (rule listReach.Promote)
  have l: "length (replicate 20 [1 :: byte] @ [[7]]) = 21" by simp
  show ?thesis using r indexed_append_total [OF r, of "[[7]]"] unfolding l by blast
qed

subsection \<open>A record that crosses the payload end\<close>

text \<open>The remaining payload is computed as an unsigned difference after the length prefix has been read. When the prefix
  itself runs past the payload end, the difference wraps around, the bound no longer holds anything back, and the element
  is read from the headroom instead of being rejected.\<close>

definition crossingList :: bytes where
  "crossingList = indexedListHeaderNarrow @ le_put 4 1 @ le_put 4 32 @ le_put 4 1 @ le_put 2 1 @ replicate 62 0 @ [133] @ [0, 9, 9, 9, 9, 9]"

lemma crossingList_reads_headroom:
  "indexedListMeta crossingList = Inr (1, 32, 1, 79)" "indexedListElement crossingList 0 = Inr (Some [9, 9, 9, 9, 9])"
proof -
  show m: "indexedListMeta crossingList = Inr (1, 32, 1, 79)" by code_simp
  have o: "listOffset (drop indexedListFixed crossingList) (indexedListOffsetWidth crossingList) 0 = Inr 1" by code_simp
  have r: "readListUvarint crossingList 79 = Inr (5, 81)" by code_simp
  have s: "subslice crossingList 81 86 = Inr [9, 9, 9, 9, 9]" by code_simp
  have "uintDiff 80 81 = 2 ^ 64 - 1" by (simp add: uintDiff_def)
  then have "indexedListRecord crossingList 0 = Inr ([9, 9, 9, 9, 9], 7)" using m r s by (simp add: indexedListRecord_def)
  then show "indexedListElement crossingList 0 = Inr (Some [9, 9, 9, 9, 9])" using m o by (simp add: indexedListElement_def)
qed

end
