(* ===== verification/ListCold.thy ===== *)
theory ListCold
  imports ListIndexed
begin

text \<open>The cold layout of a list (internal/engine/list\_cold.go): the records back to back behind a skip table with one
  offset for every eight elements. Only compaction writes it, from an indexed list; every reader of it is modelled.\<close>

definition coldListHeader :: bytes where
  "coldListHeader = [83, 76, 4]"

definition coldListFixed :: nat where
  "coldListFixed = 11"

definition coldListStride :: nat where
  "coldListStride = 8"

definition coldListMinElements :: nat where
  "coldListMinElements = indexedListPromoteElements"

definition isColdList :: "bytes \<Rightarrow> bool" where
  "isColdList data \<longleftrightarrow> length data \<ge> coldListFixed \<and> take 3 data = coldListHeader"

definition coldListTableWidth :: "nat \<Rightarrow> nat" where
  "coldListTableWidth payload = (if payload < 2 ^ 16 then 2 else 4)"

definition coldListTableEntries :: "nat \<Rightarrow> nat" where
  "coldListTableEntries count = (count + coldListStride - 1) div coldListStride"

fun coldEncodeLoop :: "bytes \<Rightarrow> nat \<Rightarrow> nat \<Rightarrow> nat \<Rightarrow> bytes list \<Rightarrow> listError + bytes" where
  "coldEncodeLoop out width i cursor [] = Inr out"
| "coldEncodeLoop out width i cursor (element # elements) =
     rbind (if i mod coldListStride = 0 then putListOffset out coldListFixed width (i div coldListStride) cursor else Inr out) (\<lambda>out.
     let out = appendListUvarint out (length element) @ element in
     case listUvarintLen (length element) of None \<Rightarrow> Inl ListPanic
     | Some n \<Rightarrow> coldEncodeLoop out width (i + 1) (cursor + n + length element) elements)"

definition encodeColdList :: "bytes list \<Rightarrow> listError + bytes" where
  "encodeColdList elements =
     (case extraBytes elements of None \<Rightarrow> Inl ListPanic
      | Some payload \<Rightarrow>
          let width = coldListTableWidth payload;
              table = coldListTableEntries (length elements) * width;
              total = coldListFixed + table + payload in
          if total > maxPackedListBytes then Inl ListTooLarge
          else rbind (patch (replicate (coldListFixed + table) 0) 0 coldListHeader) (\<lambda>out.
            rbind (patch out 3 (le_put 4 (length elements))) (\<lambda>out.
            rbind (patch out 7 (le_put 4 payload)) (\<lambda>out.
            coldEncodeLoop out width 0 0 elements))))"

definition coldListMeta :: "bytes \<Rightarrow> listError + (nat \<times> nat \<times> nat \<times> nat)" where
  "coldListMeta data =
     (if \<not> isColdList data then Inl InvalidColdList
      else let count = getU32 data 3; payload = getU32 data 7; width = coldListTableWidth payload;
               dataStart = coldListFixed + coldListTableEntries count * width in
        if dataStart + payload \<noteq> length data then Inl InvalidColdList
        else Inr (count, payload, width, dataStart))"

definition coldListRecord :: "bytes \<Rightarrow> nat \<Rightarrow> nat \<Rightarrow> nat \<Rightarrow> listError + (bytes \<times> nat)" where
  "coldListRecord data pos dataStart payload =
     rbind (subslice data (dataStart + pos) (dataStart + payload)) (\<lambda>window.
     let (length64, n) = uvarint_get window in
     if n \<le> 0 \<or> length64 > payload - pos - nat n then Inl InvalidColdRecord
     else let begin' = dataStart + pos + nat n in
       rbind (subslice data begin' (begin' + length64)) (\<lambda>value. Inr (value, pos + nat n + length64)))"

fun seekLoop :: "bytes \<Rightarrow> nat \<Rightarrow> nat \<Rightarrow> nat \<Rightarrow> nat \<Rightarrow> listError + nat" where
  "seekLoop data dataStart payload 0 pos = Inr pos"
| "seekLoop data dataStart payload (Suc skip) pos =
     rbind (subslice data (dataStart + pos) (dataStart + payload)) (\<lambda>window.
     let (length64, n) = uvarint_get window in
     if n \<le> 0 \<or> length64 > payload - pos - nat n then Inl InvalidColdRecord
     else seekLoop data dataStart payload skip (pos + nat n + length64))"

definition coldListSeek :: "bytes \<Rightarrow> nat \<Rightarrow> nat \<Rightarrow> nat \<Rightarrow> nat \<Rightarrow> listError + nat" where
  "coldListSeek data index width dataStart payload =
     rbind (listOffset (drop coldListFixed data) width (index div coldListStride)) (\<lambda>pos.
     rbind (seekLoop data dataStart payload (index mod coldListStride) pos) (\<lambda>pos.
     if pos \<ge> payload then Inl InvalidColdOffset else Inr pos))"

definition coldListElement :: "bytes \<Rightarrow> int \<Rightarrow> listError + bytes option" where
  "coldListElement data index0 =
     rbind (coldListMeta data) (\<lambda>(count, payload, width, dataStart).
     let index = (if index0 < 0 then index0 + int count else index0) in
     if index < 0 \<or> index \<ge> int count then Inr None
     else rbind (coldListSeek data (nat index) width dataStart payload) (\<lambda>pos.
       rbind (coldListRecord data pos dataStart payload) (\<lambda>(value, _). Inr (Some value))))"

text \<open>Reading \<open>k\<close> consecutive records: the elements and the position behind them.\<close>

fun coldRecordsLoop :: "bytes \<Rightarrow> nat \<Rightarrow> nat \<Rightarrow> nat \<Rightarrow> nat \<Rightarrow> listError + (bytes list \<times> nat)" where
  "coldRecordsLoop data dataStart payload 0 pos = Inr ([], pos)"
| "coldRecordsLoop data dataStart payload (Suc k) pos =
     rbind (coldListRecord data pos dataStart payload) (\<lambda>(value, pos).
     rbind (coldRecordsLoop data dataStart payload k pos) (\<lambda>(rest, pos). Inr (value # rest, pos)))"

definition coldListRange :: "bytes \<Rightarrow> int \<Rightarrow> int \<Rightarrow> listError + bytes list" where
  "coldListRange data start0 stop0 =
     rbind (coldListMeta data) (\<lambda>(count, payload, width, dataStart).
     let n = int count;
         start = (if start0 < 0 then start0 + n else start0);
         stop = (if stop0 < 0 then stop0 + n else stop0);
         start = (if start < 0 then 0 else start) in
     if stop < 0 \<or> start \<ge> n \<or> start > stop then Inr []
     else let stop = (if stop \<ge> n then n - 1 else stop) in
       rbind (coldListSeek data (nat start) width dataStart payload) (\<lambda>pos.
       rbind (coldRecordsLoop data dataStart payload (nat (stop + 1) - nat start) pos) (\<lambda>(out, _). Inr out)))"

definition decodeColdList :: "bytes \<Rightarrow> listError + bytes list" where
  "decodeColdList data =
     rbind (coldListMeta data) (\<lambda>(count, payload, _, dataStart).
     rbind (coldRecordsLoop data dataStart payload count 0) (\<lambda>(out, pos).
     if pos \<noteq> payload then Inl ColdListTrailing else Inr out))"

definition coldListLen :: "bytes \<Rightarrow> listError + nat" where
  "coldListLen data = rbind (coldListMeta data) (\<lambda>(count, _, _, _). Inr count)"

text \<open>The conversion compaction makes: \<open>None\<close> where the list is kept as it is.\<close>

definition coldFromIndexedList :: "bytes \<Rightarrow> bytes option" where
  "coldFromIndexedList data =
     (case indexedListMeta data of Inl _ \<Rightarrow> None
      | Inr (count, _, _, _) \<Rightarrow>
          if count < coldListMinElements then None
          else case decodeIndexedList data of Inl _ \<Rightarrow> None
          | Inr elements \<Rightarrow> (case encodeColdList elements of Inl _ \<Rightarrow> None | Inr cold \<Rightarrow> Some cold))"

subsection \<open>The representation\<close>

definition cold_ok :: "bytes \<Rightarrow> bytes list \<Rightarrow> bool" where
  "cold_ok d xs \<longleftrightarrow>
     (let p = length (recs xs); w = coldListTableWidth p; start = 11 + coldListTableEntries (length xs) * w in
      bytesAt d 0 coldListHeader \<and> bytesAt d 3 (le_put 4 (length xs)) \<and> bytesAt d 7 (le_put 4 p)
      \<and> (\<forall>j. 8 * j < length xs \<longrightarrow> bytesAt d (11 + j * w) (le_put w (length (recs (take (8 * j) xs)))))
      \<and> bytesAt d start (recs xs) \<and> length d = start + p \<and> length d \<le> maxPackedListBytes)"

lemma entries_less: "8 * j < n \<Longrightarrow> j < coldListTableEntries n"
  by (simp add: coldListTableEntries_def coldListStride_def)

lemma cold_width: "coldListTableWidth p = 2 \<or> coldListTableWidth p = 4"
  "p \<le> maxPackedListBytes \<Longrightarrow> p < 256 ^ coldListTableWidth p"
  by (auto simp: coldListTableWidth_def maxPackedListBytes_def)

lemma coldEncodeLoop_rep:
  assumes w: "w = 2 \<or> w = 4" and n: "length done' + length xs = n"
    and d: "out = hd' @ recs done'" "length hd' = 11 + coldListTableEntries n * w"
    and h: "bytesAt hd' 0 h" "length h = 11"
    and t: "\<forall>j. 8 * j < length done' \<longrightarrow> bytesAt hd' (11 + j * w) (le_put w (length (recs (take (8 * j) done'))))"
  shows "\<exists>hd2. coldEncodeLoop out w (length done') (length (recs done')) xs = Inr (hd2 @ recs (done' @ xs)) \<and> length hd2 = length hd'
    \<and> bytesAt hd2 0 h \<and> (\<forall>j. 8 * j < n \<longrightarrow> bytesAt hd2 (11 + j * w) (le_put w (length (recs (take (8 * j) (done' @ xs))))))"
  using n d h(1) t
proof (induction xs arbitrary: done' out hd')
  case Nil
  then show ?case by auto
next
  case (Cons x xs)
  let ?i = "length done'" let ?c = "length (recs done')"
  define h1 where "h1 = (if ?i mod 8 = 0 then writeAt hd' (11 + ?i div 8 * w) (le_put w ?c) else hd')"
  have "8 * (?i div 8) < n" using Cons.prems(1) by simp
  then have "(?i div 8 + 1) * w \<le> coldListTableEntries n * w" by (intro mult_le_mono1) (simp add: Suc_le_eq entries_less)
  then have fit: "11 + ?i div 8 * w + length (le_put w ?c) \<le> length hd'" using Cons.prems(3) by simp
  have l1: "length h1 = length hd'" using fit by (simp add: h1_def)
  have put: "(if ?i mod coldListStride = 0 then putListOffset out coldListFixed w (?i div coldListStride) ?c else Inr out) = Inr (h1 @ recs done')"
    using fit w Cons.prems(2) by (simp add: h1_def putListOffset_patch coldListStride_def coldListFixed_def patch_def writeAt_def)
  have hh: "bytesAt h1 0 h" using Cons.prems(4) fit h(2) by (auto simp: h1_def bytesAt_writeAt_other)
  have tt: "\<forall>j. 8 * j < length (done' @ [x]) \<longrightarrow> bytesAt h1 (11 + j * w) (le_put w (length (recs (take (8 * j) (done' @ [x])))))"
  proof (intro allI impI)
    fix j assume j: "8 * j < length (done' @ [x])"
    show "bytesAt h1 (11 + j * w) (le_put w (length (recs (take (8 * j) (done' @ [x])))))"
    proof (cases "8 * j = ?i")
      case True
      then have "?i mod 8 = 0" "?i div 8 = j" by arith+
      then show ?thesis using fit True bytesAt_writeAt_same [OF fit] by (simp add: h1_def)
    next
      case False
      then have lt: "8 * j < ?i" using j by simp
      then have old: "bytesAt hd' (11 + j * w) (le_put w (length (recs (take (8 * j) (done' @ [x])))))" using Cons.prems(5) by simp
      show ?thesis
      proof (cases "?i mod 8 = 0")
        case True
        then have "j < ?i div 8" using lt by arith
        then have "(j + 1) * w \<le> ?i div 8 * w" by (intro mult_le_mono1) simp
        then show ?thesis using True old by (simp add: h1_def bytesAt_writeAt_other [OF fit])
      qed (use old in \<open>simp add: h1_def\<close>)
    qed
  qed
  have r: "appendListUvarint (h1 @ recs done') (length x) @ x = h1 @ recs (done' @ [x])" by (simp add: appendListUvarint_def recs_def rec_eq)
  have c: "?c + length (uvarint_put (length x)) + length x = length (recs (done' @ [x]))" by (simp add: recs_def length_rec(1))
  have "coldEncodeLoop out w ?i ?c (x # xs) = coldEncodeLoop (h1 @ recs (done' @ [x])) w (length (done' @ [x])) (length (recs (done' @ [x]))) xs"
    unfolding coldEncodeLoop.simps put rbind_Inr Let_def r listUvarintLen_put option.case c by simp
  moreover have "\<exists>hd2. coldEncodeLoop (h1 @ recs (done' @ [x])) w (length (done' @ [x])) (length (recs (done' @ [x]))) xs = Inr (hd2 @ recs ((done' @ [x]) @ xs))
    \<and> length hd2 = length h1 \<and> bytesAt hd2 0 h \<and> (\<forall>j. 8 * j < n \<longrightarrow> bytesAt hd2 (11 + j * w) (le_put w (length (recs (take (8 * j) ((done' @ [x]) @ xs))))))"
    by (rule Cons.IH) (use Cons.prems l1 hh tt in simp_all)
  ultimately show ?case using l1 by simp
qed

lemma encodeColdList_cases:
  "encodeColdList xs = Inl ListTooLarge \<and> maxPackedListBytes < 11 + (length xs + 7) div 8 * 4 + length (recs xs)
    \<or> (\<exists>d. encodeColdList xs = Inr d \<and> cold_ok d xs)"
proof -
  define p where "p = length (recs xs)"
  define w where "w = coldListTableWidth p"
  define tb where "tb = coldListTableEntries (length xs) * w"
  define z where "z = replicate (11 + tb) (0 :: byte)"
  have w: "w = 2 \<or> w = 4" unfolding w_def by (rule cold_width)
  have eq: "encodeColdList xs = (if 11 + tb + p > maxPackedListBytes then Inl ListTooLarge else
    rbind (patch z 0 coldListHeader) (\<lambda>out. rbind (patch out 3 (le_put 4 (length xs))) (\<lambda>out. rbind (patch out 7 (le_put 4 p)) (\<lambda>out.
      coldEncodeLoop out w 0 0 xs))))"
    unfolding encodeColdList_def extraBytes_eq option.case Let_def p_def [symmetric] w_def [symmetric] tb_def [symmetric]
      coldListFixed_def z_def [symmetric] ..
  show ?thesis
  proof (cases "11 + tb + p > maxPackedListBytes")
    case True
    have "tb \<le> (length xs + 7) div 8 * 4" using w unfolding tb_def coldListTableEntries_def coldListStride_def by auto
    then show ?thesis using True eq by (simp add: p_def)
  next
    case False
    define h where "h = coldListHeader @ le_put 4 (length xs) @ le_put 4 p"
    have hz: "11 \<le> length z" "length z = 11 + tb" by (simp_all add: z_def)
    have lh: "length h = 11" by (simp add: h_def coldListHeader_def)
    define o1 where "o1 = writeAt (writeAt (writeAt z 0 coldListHeader) 3 (le_put 4 (length xs))) 7 (le_put 4 p)"
    have l1: "length o1 = 11 + tb" using hz by (simp add: o1_def coldListHeader_def)
    have b1: "bytesAt o1 0 h" unfolding h_def bytesAt_split using hz
      by (simp add: o1_def coldListHeader_def bytesAt_writeAt_other bytesAt_writeAt_same numeral_3_eq_3)
    obtain h2 where h2: "coldEncodeLoop o1 w 0 0 xs = Inr (h2 @ recs xs)" "length h2 = 11 + tb" "bytesAt h2 0 h"
      "\<forall>j. 8 * j < length xs \<longrightarrow> bytesAt h2 (11 + j * w) (le_put w (length (recs (take (8 * j) xs))))"
      using coldEncodeLoop_rep [OF w, of "[]" xs "length xs" o1 o1 h] l1 b1 lh by (auto simp: tb_def recs_def)
    let ?d = "h2 @ recs xs"
    have "encodeColdList xs = Inr ?d" using False hz h2(1) unfolding eq by (simp add: coldListHeader_def o1_def)
    moreover have lc: "length coldListHeader = 3" by (simp add: coldListHeader_def)
    have "bytesAt h2 0 coldListHeader" "bytesAt h2 3 (le_put 4 (length xs))" "bytesAt h2 7 (le_put 4 p)"
      using h2(3) unfolding h_def bytesAt_split lc by simp_all
    then have "cold_ok ?d xs" unfolding cold_ok_def Let_def p_def [symmetric] w_def [symmetric] tb_def [symmetric]
      using h2(2,4) False bytesAt_append2 [of "11 + tb" h2 0 "recs xs" "recs xs"] bytesAt_self [of "recs xs" "[]"]
      by (simp add: p_def bytesAt_append1)
    ultimately show ?thesis by blast
  qed
qed

lemma cold_parts:
  assumes "cold_ok d xs"
  defines "p \<equiv> length (recs xs)"
  defines "start \<equiv> 11 + coldListTableEntries (length xs) * coldListTableWidth p"
  shows "coldListMeta d = Inr (length xs, p, coldListTableWidth p, start)" "length d = start + p" "length d < 2 ^ 63"
    "bytesAt d start (recs xs)"
    "i < length xs \<Longrightarrow> listOffset (drop coldListFixed d) (coldListTableWidth p) (i div 8) = Inr (length (recs (take (8 * (i div 8)) xs)))"
proof -
  let ?w = "coldListTableWidth p"
  have c: "bytesAt d 0 coldListHeader" "bytesAt d 3 (le_put 4 (length xs))" "bytesAt d 7 (le_put 4 p)"
    "\<forall>j. 8 * j < length xs \<longrightarrow> bytesAt d (11 + j * ?w) (le_put ?w (length (recs (take (8 * j) xs))))"
    "bytesAt d start (recs xs)" "length d = start + p" "length d \<le> maxPackedListBytes"
    using assms(1) unfolding cold_ok_def Let_def p_def start_def by simp_all
  show "bytesAt d start (recs xs)" "length d = start + p" by (rule c)+
  show "length d < 2 ^ 63" using c(7) by (simp add: maxPackedListBytes_def)
  have "length xs \<le> p" unfolding p_def by (rule length_recs_ge)
  then have "length xs < 256 ^ 4" "p < 256 ^ 4" using c(6,7) by (simp_all add: maxPackedListBytes_def)
  then have "getU32 d 3 = length xs" "getU32 d 7 = p" using le_get_at [OF c(2)] le_get_at [OF c(3)] by (simp_all add: getU32_def)
  moreover have "isColdList d" using bytesAt_take [OF c(1)] c(6) by (simp add: isColdList_def coldListFixed_def coldListHeader_def start_def numeral_3_eq_3)
  ultimately show "coldListMeta d = Inr (length xs, p, ?w, start)" using c(6)
    by (simp add: coldListMeta_def coldListFixed_def start_def [symmetric])
  assume i: "i < length xs"
  have "length (recs (take (8 * (i div 8)) xs)) + length (recs (drop (8 * (i div 8)) xs)) = p"
    unfolding p_def by (simp flip: length_append recs_simps(3))
  moreover have "p < 256 ^ ?w" by (rule cold_width(2)) (use c(6,7) in linarith)
  ultimately have lt: "length (recs (take (8 * (i div 8)) xs)) < 256 ^ ?w" by linarith
  have at: "bytesAt d (11 + i div 8 * ?w) (le_put ?w (length (recs (take (8 * (i div 8)) xs))))" using c(4) i by simp
  show "listOffset (drop coldListFixed d) ?w (i div 8) = Inr (length (recs (take (8 * (i div 8)) xs)))"
    using le_get_at [OF at lt] bytesAt_bound [OF at] cold_width(1) [of p] by (auto simp: listOffset_def coldListFixed_def Let_def add.commute)
qed

text \<open>Reading the record of element \<open>i\<close> at its offset behind the elements before it.\<close>

lemma cold_window:
  assumes ok: "cold_ok d xs" and i: "i < length xs"
  defines "p \<equiv> length (recs xs)" and "pos \<equiv> length (recs (take i xs))"
  defines "start \<equiv> 11 + coldListTableEntries (length xs) * coldListTableWidth p"
  obtains rest where "subslice d (start + pos) (start + p) = Inr (uvarint_put (length (xs ! i)) @ xs ! i @ rest)"
    "length (uvarint_put (length (xs ! i))) + length (xs ! i) + length rest = p - pos"
    "pos + length (rec (xs ! i)) = length (recs (take (i + 1) xs))" "pos + length (rec (xs ! i)) \<le> p"
    "bytesAt d (start + pos) (rec (xs ! i))"
proof -
  note c = cold_parts [OF ok, folded p_def, folded start_def]
  have sp: "xs = take i xs @ xs ! i # drop (i + 1) xs" using i by (simp add: id_take_nth_drop)
  have rs: "recs xs = recs (take i xs) @ rec (xs ! i) @ recs (drop (i + 1) xs)" by (subst sp) (simp only: recs_simps)
  have d: "bytesAt d start (recs (take i xs))" "bytesAt d (start + pos) (rec (xs ! i) @ recs (drop (i + 1) xs))"
    using c(4) rs by (simp_all add: bytesAt_split pos_def)
  have lp: "p = pos + length (rec (xs ! i) @ recs (drop (i + 1) xs))" unfolding p_def by (subst rs) (simp add: pos_def)
  have sub: "subslice d (start + pos) (start + p) = Inr (rec (xs ! i) @ recs (drop (i + 1) xs))"
    using bytesAt_take [OF d(2)] lp c(2) by (subst subslice_fits) simp_all
  have nx: "pos + length (rec (xs ! i)) = length (recs (take (i + 1) xs))" using i by (simp add: take_Suc_conv_app_nth pos_def)
  show ?thesis by (rule that [of "recs (drop (i + 1) xs)"]) (use sub lp nx d(2) in \<open>simp_all add: rec_eq bytesAt_split\<close>)
qed

lemma coldListRecord_rep:
  assumes ok: "cold_ok d xs" and i: "i < length xs"
  defines "p \<equiv> length (recs xs)"
  defines "start \<equiv> 11 + coldListTableEntries (length xs) * coldListTableWidth p"
  shows "coldListRecord d (length (recs (take i xs))) start p = Inr (xs ! i, length (recs (take (i + 1) xs)))"
    "seekLoop d start p (Suc k) (length (recs (take i xs))) = seekLoop d start p k (length (recs (take (i + 1) xs)))"
    "length (recs (take i xs)) < p"
proof -
  note c = cold_parts [OF ok, folded p_def, folded start_def]
  define pos where "pos = length (recs (take i xs))"
  obtain rest where r: "subslice d (start + pos) (start + p) = Inr (uvarint_put (length (xs ! i)) @ xs ! i @ rest)"
    "length (uvarint_put (length (xs ! i))) + length (xs ! i) + length rest = p - pos"
    "pos + length (rec (xs ! i)) = length (recs (take (i + 1) xs))" "pos + length (rec (xs ! i)) \<le> p" "bytesAt d (start + pos) (rec (xs ! i))"
    using cold_window [OF ok i, folded p_def, folded start_def, folded pos_def] by blast
  have u: "1 \<le> length (uvarint_put (length (xs ! i)))" using length_uvarint_put_ge by simp
  have "length (xs ! i) < 2 ^ 64" using r(4) c(2,3) by (simp add: length_rec(1))
  then have g: "uvarint_get (uvarint_put (length (xs ! i)) @ xs ! i @ rest) = (length (xs ! i), int (length (uvarint_put (length (xs ! i)))))"
    by (rule uvarint_get_put)
  have v: "subslice d (start + pos + length (uvarint_put (length (xs ! i)))) (start + pos + length (uvarint_put (length (xs ! i))) + length (xs ! i)) = Inr (xs ! i)"
    using r(5) bytesAt_bound [OF r(5)] by (subst subslice_fits) (simp_all add: rec_eq bytesAt_split bytesAt_take add.assoc)
  have nx: "pos + length (uvarint_put (length (xs ! i))) + length (xs ! i) = length (recs (take (i + 1) xs))" using r(3) by (simp add: length_rec(1))
  have le: "\<not> length (xs ! i) > p - pos - length (uvarint_put (length (xs ! i)))" using r(2) by linarith
  show "coldListRecord d (length (recs (take i xs))) start p = Inr (xs ! i, length (recs (take (i + 1) xs)))"
    using u le v nx unfolding coldListRecord_def pos_def [symmetric] r(1) rbind_Inr Let_def g by simp
  show "seekLoop d start p (Suc k) (length (recs (take i xs))) = seekLoop d start p k (length (recs (take (i + 1) xs)))"
    using u le nx unfolding seekLoop.simps pos_def [symmetric] r(1) rbind_Inr Let_def g by simp
  show "length (recs (take i xs)) < p" using r(4) length_rec(2) [of "xs ! i"] unfolding pos_def by linarith
qed

lemma coldSeek_rep:
  assumes ok: "cold_ok d xs" and i: "i < length xs"
  defines "p \<equiv> length (recs xs)"
  defines "start \<equiv> 11 + coldListTableEntries (length xs) * coldListTableWidth p"
  shows "coldListSeek d i (coldListTableWidth p) start p = Inr (length (recs (take i xs)))"
proof -
  have skip: "seekLoop d start p k (length (recs (take j xs))) = Inr (length (recs (take (j + k) xs)))" if "j + k \<le> i" for j k
    using that
  proof (induction k arbitrary: j)
    case (Suc k)
    then have "j < length xs" using i by simp
    then have "seekLoop d start p (Suc k) (length (recs (take j xs))) = seekLoop d start p k (length (recs (take (j + 1) xs)))"
      unfolding start_def p_def by (rule coldListRecord_rep(2) [OF ok])
    then show ?case using Suc.IH [of "j + 1"] Suc.prems by simp
  qed simp
  have "8 * (i div 8) + i mod 8 = i" by simp
  then have "seekLoop d start p (i mod 8) (length (recs (take (8 * (i div 8)) xs))) = Inr (length (recs (take i xs)))"
    using skip [of "8 * (i div 8)" "i mod 8"] by simp
  then show ?thesis using cold_parts(5) [OF ok i, folded p_def] coldListRecord_rep(3) [OF ok i, folded p_def]
    by (simp add: coldListSeek_def coldListStride_def)
qed

lemma coldRecordsLoop_rep:
  assumes ok: "cold_ok d xs"
  defines "p \<equiv> length (recs xs)"
  defines "start \<equiv> 11 + coldListTableEntries (length xs) * coldListTableWidth p"
  shows "i + k \<le> length xs \<Longrightarrow> coldRecordsLoop d start p k (length (recs (take i xs)))
    = Inr (map ((!) xs) [i ..< i + k], length (recs (take (i + k) xs)))"
proof (induction k arbitrary: i)
  case (Suc k)
  then have "i < length xs" by simp
  then have "coldListRecord d (length (recs (take i xs))) start p = Inr (xs ! i, length (recs (take (i + 1) xs)))"
    unfolding start_def p_def by (rule coldListRecord_rep(1) [OF ok])
  moreover have "[i ..< i + Suc k] = i # [i + 1 ..< i + 1 + k]" by (simp add: upt_conv_Cons)
  ultimately show ?case using Suc.IH [of "i + 1"] Suc.prems by simp
qed simp

lemma coldListElement_rep:
  assumes ok: "cold_ok d xs"
  shows "coldListElement d i = Inr (redisIndex xs i)"
proof -
  let ?j = "if i < 0 then i + int (length xs) else i"
  show ?thesis
  proof (cases "?j < 0 \<or> ?j \<ge> int (length xs)")
    case False
    then have j: "nat ?j < length xs" by auto
    have "coldListElement d i = Inr (Some (xs ! nat ?j))" using False
      unfolding coldListElement_def cold_parts(1) [OF ok] rbind_Inr prod.case Let_def
      by (simp only: if_False coldSeek_rep [OF ok j] rbind_Inr coldListRecord_rep(1) [OF ok j] prod.case)
    then show ?thesis using False by (auto simp: redisIndex_def Let_def)
  next
    case True
    then show ?thesis unfolding coldListElement_def cold_parts(1) [OF ok] by (auto simp: redisIndex_def Let_def)
  qed
qed

lemma coldListRange_clamp:
  "coldListMeta d = Inr (n, p, w, start) \<Longrightarrow>
    coldListRange d i j = (case clampRange n i j of None \<Rightarrow> Inr []
      | Some (a, b) \<Rightarrow> rbind (coldListSeek d a w start p) (\<lambda>pos. rbind (coldRecordsLoop d start p (b - a) pos) (\<lambda>(out, _). Inr out)))"
  by (simp add: coldListRange_def clampRange_def Let_def)

lemma coldListRange_rep:
  assumes ok: "cold_ok d xs"
  shows "coldListRange d i j = Inr (redisRange xs i j)"
proof (cases "clampRange (length xs) i j")
  case None
  then show ?thesis using clampRange_redisRange [of xs i j] unfolding coldListRange_clamp [OF cold_parts(1) [OF ok]] by simp
next
  case (Some ab)
  obtain a b where ab: "ab = (a, b)" by force
  have r: "a < b" "b \<le> length xs" "redisRange xs i j = map ((!) xs) [a ..< b]" using clampRange_redisRange [of xs i j] Some ab by simp_all
  have a: "a < length xs" "a + (b - a) \<le> length xs" "a + (b - a) = b" using r by simp_all
  show ?thesis unfolding coldListRange_clamp [OF cold_parts(1) [OF ok]] Some ab option.case prod.case coldSeek_rep [OF ok a(1)] rbind_Inr
      coldRecordsLoop_rep [OF ok a(2)] r(3) a(3) ..
qed

lemma decodeColdList_rep:
  assumes ok: "cold_ok d xs"
  shows "decodeColdList d = Inr xs"
  using coldRecordsLoop_rep [OF ok, of 0 "length xs"] unfolding decodeColdList_def cold_parts(1) [OF ok]
  by (simp add: map_nth)

interpretation cold: ranged_layout cold_ok encodeColdList decodeColdList coldListLen coldListElement coldListRange
proof unfold_locales
  show "cold_ok d xs" if "encodeColdList xs = Inr d" for xs d using encodeColdList_cases [of xs] that by auto
  show "coldListLen d = Inr (length xs)" if "cold_ok d xs" for d xs by (simp add: coldListLen_def cold_parts(1) [OF that])
qed (simp_all add: decodeColdList_rep coldListElement_rep coldListRange_rep)

interpretation demote: layout_change indexed_ok encodeIndexedList decodeIndexedList indexedListLen indexedListElement
  cold_ok encodeColdList decodeColdList coldListLen coldListElement
  by unfold_locales

lemma coldFromIndexedList_ok:
  assumes "indexed_ok d xs"
  shows "case coldFromIndexedList d of
      None \<Rightarrow> length xs < coldListMinElements \<or> maxPackedListBytes < 11 + (length xs + 7) div 8 * 4 + length (recs xs)
    | Some cold \<Rightarrow> coldListMinElements \<le> length xs \<and> cold_ok cold xs"
proof -
  obtain cap used start where m: "indexedListMeta d = Inr (length xs, cap, used, start)"
    using indexed.len_rep [OF assms] by (auto simp: indexedListLen_def go_res)
  have e: "coldFromIndexedList d = (if length xs < coldListMinElements then None
    else case encodeColdList xs of Inl _ \<Rightarrow> None | Inr cold \<Rightarrow> Some cold)"
    by (simp add: coldFromIndexedList_def m indexed.dec_rep [OF assms])
  show ?thesis using encodeColdList_cases [of xs] demote.convert_rep [OF assms] unfolding e by auto
qed

text \<open>C12: Demoting a reachable indexed list to the cold layout keeps every read: length, indices and ranges (negative
  ones included) and the decoded elements are those of the indexed list. It is declined only for a list below the
  promotion size or one whose cold form would exceed the size limit.\<close>

theorem cold_demotion_exact:
  assumes "listReach d xs"
  shows "case coldFromIndexedList d of
      None \<Rightarrow> length xs < coldListMinElements \<or> maxPackedListBytes < 11 + (length xs + 7) div 8 * 4 + length (recs xs)
    | Some cold \<Rightarrow> decodeColdList cold = decodeIndexedList d \<and> coldListLen cold = indexedListLen d
        \<and> coldListElement cold i = indexedListElement d i \<and> coldListRange cold i j = indexedListRange d i j"
proof -
  note ok = listReach_ok [OF assms]
  show ?thesis using coldFromIndexedList_ok [OF ok]
    by (auto split: option.splits simp: cold.dec_rep cold.len_rep cold.elem_rep cold.range_rep
        indexed.dec_rep [OF ok] indexed.len_rep [OF ok] indexed.elem_rep [OF ok] indexed.range_rep [OF ok])
qed

theorem cold_demotion_exact_witness:
  "\<exists>d cold. listReach d (replicate 40 [1]) \<and> coldFromIndexedList d = Some cold \<and> coldListElement cold (- 3) = Inr (Some [1])"
proof -
  let ?x = "replicate 40 [1 :: byte]"
  have np: "nextListPow2 (length ?x * 2) = Some 128" by (simp add: nextListPow2_def indexedListPromoteElements_def pow2Loop.simps)
  have l: "length (recs ?x) = 80" by code_simp
  have b: "maxPackedListBytes = 33554432" "coldListMinElements = 32"
    by (simp_all add: maxPackedListBytes_def coldListMinElements_def indexedListPromoteElements_def)
  obtain d where "encodeIndexedList ?x = Inr d" using encodeIndexedList_cases [OF _ np] l b by auto
  then have r: "listReach d ?x" by (rule listReach.Promote)
  have "redisIndex ?x (- 3) = Some [1]" by code_simp
  then have "indexedListElement d (- 3) = Inr (Some [1])" using indexed.elem_rep [OF listReach_ok [OF r]] by simp
  then show ?thesis using r cold_demotion_exact [OF r, of "- 3" 0] l b by (auto split: option.splits)
qed

end
