(* ===== verification/ListStore.thy ===== *)
theory ListStore
  imports Keyspace ListPacked ListIndexed ListCold
begin

text \<open>The list commands of the store (internal/engine/list.go, list\_extra.go and list\_replace.go) over the shard that owns
  the key: they look the key up, drop it when it has expired, check its type, and then read the stored layout, change it in
  place through the view of its bytes, or publish a new one.

  A command returns its reply or an error, and the state in both cases; \<open>None\<close> is a panic. The clock is read once per
  command and given as \<open>now\<close>.\<close>

datatype commandError = WrongType | BadElementCount | NegativeCount | NoSuchKey | IndexOutOfRange | OutOfMemory | Layout listError

type_synonym 'a outcome = "((commandError + 'a) \<times> world) option"

text \<open>Continuing after a call on a stored layout; an error of the call is returned by the command.\<close>

definition tryLayout :: "world \<Rightarrow> listError + 'b \<Rightarrow> ('b \<Rightarrow> 'a outcome) \<Rightarrow> 'a outcome" where
  "tryLayout w r k = (case r of Inl e \<Rightarrow> if e = ListPanic then None else Some (Inl (Layout e), w) | Inr x \<Rightarrow> k x)"

text \<open>The lookup every command starts with: a key that has expired counts as missing, and writers remove it.\<close>

definition lookupLive :: "(bytes \<Rightarrow> u64) \<Rightarrow> world \<Rightarrow> bytes \<Rightarrow> stamp \<Rightarrow> bool \<Rightarrow> (world \<times> SnugValue option) option" where
  "lookupLive h w key now purge = do {
     found \<leftarrow> sh_get h (w_shard w) key;
     case found of None \<Rightarrow> Some (w, None)
     | Some e \<Rightarrow> do {
         gone \<leftarrow> expired (w_shard w) key e now;
         if gone then if purge then map_option (\<lambda>w. (w, None)) (removeKey h w key now) else Some (w, None)
         else Some (w, Some e)
       }
   }"

text \<open>A store into the slice returned by \<open>encoded\<close>: the slice of an inline or empty value is a copy.\<close>

definition storeEncoded :: "shard \<Rightarrow> SnugValue \<Rightarrow> bytes \<Rightarrow> shard option" where
  "storeEncoded sh e bs =
     (if IsInline (v_ref e) \<or> r_generation (v_ref e) = 0 then Some sh
      else map_option (\<lambda>a. sh\<lparr>sh_arena := a\<rparr>) (viewWrite (sh_arena sh) (v_ref e) bs))"

definition listPreparedEntry :: "bytes \<Rightarrow> stamp \<Rightarrow> preparedEntry" where
  "listPreparedEntry packed expiresAt =
     \<lparr>e_value = \<lparr>v_ref = \<lparr>r_location = 0, r_generation = 0\<rparr>, v_rawLength = word_of_nat (length packed), v_codecID = 0, v_valueType = TypeList,
        v_hasExpiry = False, v_rawStable = False\<rparr>, e_expiresAt = expiresAt, e_data = packed\<rparr>"

definition listElementsFromEntry :: "shard \<Rightarrow> SnugValue \<Rightarrow> (listError + bytes list) option" where
  "listElementsFromEntry sh e = do {
     data \<leftarrow> encoded sh e;
     Some (if isIndexedList data then decodeIndexedList data
           else if isColdList data then decodeColdList data
           else decodePackedList data)
   }"

definition listLogicalValue :: "shard \<Rightarrow> SnugValue \<Rightarrow> (listError + bytes) option" where
  "listLogicalValue sh e = map_option (\<lambda>elements. rbind elements encodePackedList) (listElementsFromEntry sh e)"

definition publishReply :: "(bytes \<Rightarrow> u64) \<Rightarrow> world \<Rightarrow> bytes \<Rightarrow> preparedEntry \<Rightarrow> 'a \<Rightarrow> 'a outcome" where
  "publishReply h w key e reply = do {
     (done, w) \<leftarrow> publish h w key e;
     Some (if done then Inr reply else Inl OutOfMemory, w)
   }"

text \<open>Encoding a list in the packed layout and publishing it with the deadline the key had.\<close>

definition publishPacked :: "(bytes \<Rightarrow> u64) \<Rightarrow> world \<Rightarrow> bytes \<Rightarrow> SnugValue \<Rightarrow> bytes list \<Rightarrow> 'a \<Rightarrow> 'a outcome" where
  "publishPacked h w key e elements reply =
     tryLayout w (encodePackedList elements) (\<lambda>packed. do {
       expiresAt \<leftarrow> expirationAt (w_shard w) key e;
       publishReply h w key (listPreparedEntry packed expiresAt) reply
     })"

subsection \<open>Pushing\<close>

definition pushed :: "bool \<Rightarrow> bytes list \<Rightarrow> bytes list \<Rightarrow> bytes list" where
  "pushed left current values = (if left then rev values @ current else current @ values)"

text \<open>The end of a push: the new list is stored packed or, from the promotion size on, indexed.\<close>

definition storePushed :: "(bytes \<Rightarrow> u64) \<Rightarrow> world \<Rightarrow> bytes \<Rightarrow> bytes list \<Rightarrow> stamp \<Rightarrow> nat outcome" where
  "storePushed h w key result expiresAt =
     tryLayout w (if length result \<ge> indexedListPromoteElements then encodeIndexedList result else encodePackedList result) (\<lambda>stored.
       publishReply h w key (listPreparedEntry stored expiresAt) (length result))"

definition listPush :: "(bytes \<Rightarrow> u64) \<Rightarrow> world \<Rightarrow> bytes \<Rightarrow> bytes list \<Rightarrow> bool \<Rightarrow> stamp \<Rightarrow> nat outcome" where
  "listPush h w key values left now =
     (if length values = 0 then Some (Inl BadElementCount, w)
      else do {
        (w, old) \<leftarrow> lookupLive h w key now True;
        case old of None \<Rightarrow> storePushed h w key (pushed left [] values) 0
        | Some e \<Rightarrow>
            if v_valueType e \<noteq> TypeList then Some (Inl WrongType, w)
            else do {
              expiresAt \<leftarrow> expirationAt (w_shard w) key e;
              physical \<leftarrow> encoded (w_shard w) e;
              if \<not> left \<and> isIndexedList physical then
                tryLayout w (indexedListAppend physical values) (\<lambda>(n, rebuilt, buffer).
                  case rebuilt of None \<Rightarrow> map_option (\<lambda>sh. (Inr n, w\<lparr>w_shard := sh\<rparr>)) (storeEncoded (w_shard w) e buffer)
                  | Some out \<Rightarrow> publishReply h w key (listPreparedEntry out expiresAt) n)
              else if isColdList physical then
                tryLayout w (decodeColdList physical) (\<lambda>current. storePushed h w key (pushed left current values) expiresAt)
              else if \<not> left then
                tryLayout w (appendPackedListRight physical values) (\<lambda>(n, packed).
                  if n < indexedListPromoteElements then publishReply h w key (listPreparedEntry packed expiresAt) n
                  else tryLayout w (decodePackedList packed) (\<lambda>current. storePushed h w key (pushed left current []) expiresAt))
              else do {
                elements \<leftarrow> listElementsFromEntry (w_shard w) e;
                tryLayout w elements (\<lambda>current. storePushed h w key (pushed left current values) expiresAt)
              }
            }
      })"

definition ListPushLeft :: "(bytes \<Rightarrow> u64) \<Rightarrow> world \<Rightarrow> bytes \<Rightarrow> bytes list \<Rightarrow> stamp \<Rightarrow> nat outcome" where
  "ListPushLeft h w key values now = listPush h w key values True now"

definition ListPushRight :: "(bytes \<Rightarrow> u64) \<Rightarrow> world \<Rightarrow> bytes \<Rightarrow> bytes list \<Rightarrow> stamp \<Rightarrow> nat outcome" where
  "ListPushRight h w key values now = listPush h w key values False now"

text \<open>What most commands do after the lookup: the type check and the decoding of the elements.\<close>

definition withElements :: "world \<Rightarrow> SnugValue \<Rightarrow> (bytes list \<Rightarrow> 'a outcome) \<Rightarrow> 'a outcome" where
  "withElements w e k =
     (if v_valueType e \<noteq> TypeList then Some (Inl WrongType, w)
      else do { elements \<leftarrow> listElementsFromEntry (w_shard w) e; tryLayout w elements k })"

definition listPushX :: "(bytes \<Rightarrow> u64) \<Rightarrow> world \<Rightarrow> bytes \<Rightarrow> bytes list \<Rightarrow> bool \<Rightarrow> stamp \<Rightarrow> nat outcome" where
  "listPushX h w key values left now =
     (if length values = 0 then Some (Inl BadElementCount, w)
      else do {
        (w, old) \<leftarrow> lookupLive h w key now True;
        case old of None \<Rightarrow> Some (Inr 0, w)
        | Some e \<Rightarrow> withElements w e (\<lambda>current.
            let result = pushed left current values in publishPacked h w key e result (length result))
      })"

definition ListPushLeftX :: "(bytes \<Rightarrow> u64) \<Rightarrow> world \<Rightarrow> bytes \<Rightarrow> bytes list \<Rightarrow> stamp \<Rightarrow> nat outcome" where
  "ListPushLeftX h w key values now = listPushX h w key values True now"

definition ListPushRightX :: "(bytes \<Rightarrow> u64) \<Rightarrow> world \<Rightarrow> bytes \<Rightarrow> bytes list \<Rightarrow> stamp \<Rightarrow> nat outcome" where
  "ListPushRightX h w key values now = listPushX h w key values False now"

subsection \<open>Popping\<close>

text \<open>A missing list pops nothing (the nil reply).\<close>

definition popElements :: "(bytes \<Rightarrow> u64) \<Rightarrow> world \<Rightarrow> bytes \<Rightarrow> SnugValue \<Rightarrow> bytes list \<Rightarrow> nat \<Rightarrow> bool \<Rightarrow> stamp \<Rightarrow> bytes list option outcome" where
  "popElements h w key e elements cnt0 left now =
     (let cnt = (if cnt0 > length elements then length elements else cnt0);
          out = (if left then take cnt elements else take cnt (rev elements));
          kept = (if left then drop cnt elements else take (length elements - cnt) elements) in
      if length kept = 0 then map_option (\<lambda>w. (Inr (Some out), w)) (removeKey h w key now)
      else publishPacked h w key e kept (Some out))"

definition listPop :: "(bytes \<Rightarrow> u64) \<Rightarrow> world \<Rightarrow> bytes \<Rightarrow> int \<Rightarrow> bool \<Rightarrow> stamp \<Rightarrow> bytes list option outcome" where
  "listPop h w key cnt left now =
     (if cnt < 0 then Some (Inl NegativeCount, w)
      else do {
        (w, old) \<leftarrow> lookupLive h w key now True;
        case old of None \<Rightarrow> Some (Inr None, w)
        | Some e \<Rightarrow>
            if v_valueType e \<noteq> TypeList then Some (Inl WrongType, w)
            else do {
              fast \<leftarrow> (if cnt > 0 then do {
                  physical \<leftarrow> encoded (w_shard w) e;
                  if isIndexedList physical then
                    case indexedListPop physical (nat cnt) left of Inl _ \<Rightarrow> None | Inr popped \<Rightarrow> Some popped
                  else Some None
                } else Some None);
              case fast of
                Some (out, buffer) \<Rightarrow> map_option (\<lambda>sh. (Inr (Some out), w\<lparr>w_shard := sh\<rparr>)) (storeEncoded (w_shard w) e buffer)
              | None \<Rightarrow> do {
                  elements \<leftarrow> listElementsFromEntry (w_shard w) e;
                  tryLayout w elements (\<lambda>elements.
                    if cnt = 0 then Some (Inr (Some []), w)
                    else popElements h w key e elements (nat cnt) left now)
                }
            }
      })"

definition ListPopLeft :: "(bytes \<Rightarrow> u64) \<Rightarrow> world \<Rightarrow> bytes \<Rightarrow> int \<Rightarrow> stamp \<Rightarrow> bytes list option outcome" where
  "ListPopLeft h w key cnt now = listPop h w key cnt True now"

definition ListPopRight :: "(bytes \<Rightarrow> u64) \<Rightarrow> world \<Rightarrow> bytes \<Rightarrow> int \<Rightarrow> stamp \<Rightarrow> bytes list option outcome" where
  "ListPopRight h w key cnt now = listPop h w key cnt False now"

subsection \<open>Reading\<close>

definition ListLen :: "(bytes \<Rightarrow> u64) \<Rightarrow> world \<Rightarrow> bytes \<Rightarrow> stamp \<Rightarrow> nat outcome" where
  "ListLen h w key now = do {
     (w, old) \<leftarrow> lookupLive h w key now False;
     case old of None \<Rightarrow> Some (Inr 0, w)
     | Some e \<Rightarrow>
         if v_valueType e \<noteq> TypeList then Some (Inl WrongType, w)
         else do {
           physical \<leftarrow> encoded (w_shard w) e;
           tryLayout w (if isIndexedList physical then rbind (indexedListMeta physical) (\<lambda>(cnt, _, _, _). Inr cnt)
               else if isColdList physical then rbind (coldListMeta physical) (\<lambda>(cnt, _, _, _). Inr cnt)
               else rbind (packedListMeta physical) (\<lambda>(cnt, _). Inr cnt)) (\<lambda>cnt.
             Some (Inr cnt, w))
         }
   }"

definition ListIndex :: "(bytes \<Rightarrow> u64) \<Rightarrow> world \<Rightarrow> bytes \<Rightarrow> int \<Rightarrow> stamp \<Rightarrow> bytes option outcome" where
  "ListIndex h w key index now = do {
     (w, old) \<leftarrow> lookupLive h w key now False;
     case old of None \<Rightarrow> Some (Inr None, w)
     | Some e \<Rightarrow>
         if v_valueType e \<noteq> TypeList then Some (Inl WrongType, w)
         else do {
           physical \<leftarrow> encoded (w_shard w) e;
           tryLayout w (if isIndexedList physical then indexedListElement physical index
               else if isColdList physical then coldListElement physical index
               else packedListElement physical index) (\<lambda>found.
             Some (Inr found, w))
         }
   }"

definition ListRange :: "(bytes \<Rightarrow> u64) \<Rightarrow> world \<Rightarrow> bytes \<Rightarrow> int \<Rightarrow> int \<Rightarrow> stamp \<Rightarrow> bytes list outcome" where
  "ListRange h w key start finish now = do {
     (w, old) \<leftarrow> lookupLive h w key now False;
     case old of None \<Rightarrow> Some (Inr [], w)
     | Some e \<Rightarrow>
         if v_valueType e \<noteq> TypeList then Some (Inl WrongType, w)
         else do {
           physical \<leftarrow> encoded (w_shard w) e;
           if isIndexedList physical then tryLayout w (indexedListRange physical start finish) (\<lambda>out. Some (Inr out, w))
           else if isColdList physical then tryLayout w (coldListRange physical start finish) (\<lambda>out. Some (Inr out, w))
           else do {
             elements \<leftarrow> listElementsFromEntry (w_shard w) e;
             tryLayout w elements (\<lambda>elements. Some (Inr (elementsRange elements start finish), w))
           }
         }
   }"

record ListStats =
  ls_Elements :: nat
  ls_ElementBytes :: nat
  ls_PackedBytes :: nat
  ls_StoredBytes :: nat
  ls_Encoding :: string

definition ListStorageStats :: "(bytes \<Rightarrow> u64) \<Rightarrow> world \<Rightarrow> bytes \<Rightarrow> stamp \<Rightarrow> ListStats option outcome" where
  "ListStorageStats h w key now = do {
     (w, old) \<leftarrow> lookupLive h w key now False;
     case old of None \<Rightarrow> Some (Inr None, w)
     | Some e \<Rightarrow> withElements w e (\<lambda>elements.
         tryLayout w (encodePackedList elements) (\<lambda>logical. do {
           physical \<leftarrow> encoded (w_shard w) e;
           Some (Inr (Some \<lparr>ls_Elements = length elements, ls_ElementBytes = sum_list (map length elements), ls_PackedBytes = length logical,
             ls_StoredBytes = length physical,
             ls_Encoding = (if isIndexedList physical then ''indexed'' else if isColdList physical then ''cold'' else ''packed'')\<rparr>), w)
         }))
   }"

subsection \<open>Editing\<close>

definition ListSet :: "(bytes \<Rightarrow> u64) \<Rightarrow> world \<Rightarrow> bytes \<Rightarrow> int \<Rightarrow> bytes \<Rightarrow> stamp \<Rightarrow> unit outcome" where
  "ListSet h w key index0 value now = do {
     (w, old) \<leftarrow> lookupLive h w key now True;
     case old of None \<Rightarrow> Some (Inl NoSuchKey, w)
     | Some e \<Rightarrow> withElements w e (\<lambda>elements.
         let n = int (length elements);
             index = (if index0 < 0 then index0 + n else index0) in
         if index < 0 \<or> index \<ge> n then Some (Inl IndexOutOfRange, w)
         else publishPacked h w key e (elements[nat index := value]) ())
   }"

definition normalizeListRange :: "int \<Rightarrow> int \<Rightarrow> int \<Rightarrow> (int \<times> int) option" where
  "normalizeListRange n start0 finish0 =
     (let start = (if start0 < 0 then start0 + n else start0);
          finish = (if finish0 < 0 then finish0 + n else finish0);
          start = (if start < 0 then 0 else start) in
      if finish < 0 \<or> start \<ge> n \<or> start > finish then None
      else let finish = (if finish \<ge> n then n - 1 else finish) in Some (start, finish))"

definition ListTrim :: "(bytes \<Rightarrow> u64) \<Rightarrow> world \<Rightarrow> bytes \<Rightarrow> int \<Rightarrow> int \<Rightarrow> stamp \<Rightarrow> unit outcome" where
  "ListTrim h w key start finish now = do {
     (w, old) \<leftarrow> lookupLive h w key now True;
     case old of None \<Rightarrow> Some (Inr (), w)
     | Some e \<Rightarrow> withElements w e (\<lambda>elements.
         case normalizeListRange (int (length elements)) start finish of
           None \<Rightarrow> map_option (\<lambda>w. (Inr (), w)) (removeKey h w key now)
         | Some (from, to) \<Rightarrow> publishPacked h w key e (take (nat (to + 1 - from)) (drop (nat from) elements)) ())
   }"

text \<open>The marking loops of \<open>ListRemove\<close>: which elements go, and how many.\<close>

fun markForward :: "bytes \<Rightarrow> int \<Rightarrow> nat \<Rightarrow> bytes list \<Rightarrow> nat \<Rightarrow> bool list \<times> nat" where
  "markForward value cnt limit [] removed = ([], removed)"
| "markForward value cnt limit (x # xs) removed =
     (if x = value \<and> (cnt = 0 \<or> removed < limit) then
        if cnt > 0 \<and> removed + 1 = limit then (True # replicate (length xs) False, removed + 1)
        else let (marks, r) = markForward value cnt limit xs (removed + 1) in (True # marks, r)
      else let (marks, r) = markForward value cnt limit xs removed in (False # marks, r))"

text \<open>The backward loop runs over the reversed list.\<close>

fun markBackward :: "bytes \<Rightarrow> nat \<Rightarrow> bytes list \<Rightarrow> nat \<Rightarrow> bool list \<times> nat" where
  "markBackward value limit [] removed = ([], removed)"
| "markBackward value limit (x # xs) removed =
     (if removed < limit then
        if x = value then let (marks, r) = markBackward value limit xs (removed + 1) in (True # marks, r)
        else let (marks, r) = markBackward value limit xs removed in (False # marks, r)
      else (replicate (Suc (length xs)) False, removed))"

definition removeMarks :: "bytes list \<Rightarrow> int \<Rightarrow> bytes \<Rightarrow> bool list \<times> nat" where
  "removeMarks elements cnt value =
     (if cnt \<ge> 0 then
        let limit = length elements;
            limit = (if cnt > 0 \<and> cnt < int limit then nat cnt else limit) in
        markForward value cnt limit elements 0
      else
        let limit = length elements;
            limit = (if cnt \<noteq> - (2 ^ 63) then let want = - cnt in if want < int limit then nat want else limit else limit);
            (marks, removed) = markBackward value limit (rev elements) 0 in
        (rev marks, removed))"

definition ListRemove :: "(bytes \<Rightarrow> u64) \<Rightarrow> world \<Rightarrow> bytes \<Rightarrow> int \<Rightarrow> bytes \<Rightarrow> stamp \<Rightarrow> nat outcome" where
  "ListRemove h w key cnt value now = do {
     (w, old) \<leftarrow> lookupLive h w key now True;
     case old of None \<Rightarrow> Some (Inr 0, w)
     | Some e \<Rightarrow> withElements w e (\<lambda>elements.
         let (marks, removed) = removeMarks elements cnt value in
         if removed = 0 then Some (Inr 0, w)
         else if removed = length elements then map_option (\<lambda>w. (Inr removed, w)) (removeKey h w key now)
         else publishPacked h w key e (map fst (filter (\<lambda>(x, m). \<not> m) (zip elements marks))) removed)
   }"

fun pivotLoop :: "bytes \<Rightarrow> bytes list \<Rightarrow> nat \<Rightarrow> nat option" where
  "pivotLoop pivot [] i = None"
| "pivotLoop pivot (x # xs) i = (if x = pivot then Some i else pivotLoop pivot xs (i + 1))"

definition ListInsert :: "(bytes \<Rightarrow> u64) \<Rightarrow> world \<Rightarrow> bytes \<Rightarrow> bool \<Rightarrow> bytes \<Rightarrow> bytes \<Rightarrow> stamp \<Rightarrow> int outcome" where
  "ListInsert h w key before pivot value now = do {
     (w, old) \<leftarrow> lookupLive h w key now True;
     case old of None \<Rightarrow> Some (Inr 0, w)
     | Some e \<Rightarrow> withElements w e (\<lambda>elements.
         case pivotLoop pivot elements 0 of None \<Rightarrow> Some (Inr (- 1), w)
         | Some pivotIndex \<Rightarrow>
             let insertAt = (if before then pivotIndex else pivotIndex + 1);
                 result = take insertAt elements @ [value] @ drop insertAt elements in
             publishPacked h w key e result (int (length result)))
   }"

definition ListReplace :: "(bytes \<Rightarrow> u64) \<Rightarrow> world \<Rightarrow> bytes \<Rightarrow> bytes list \<Rightarrow> stamp \<Rightarrow> unit outcome" where
  "ListReplace h w key elements now =
     (if length elements = 0 then map_option (\<lambda>w. (Inr (), w)) (removeKey h w key now)
      else tryLayout w (encodePackedList elements) (\<lambda>packed. publishReply h w key (listPreparedEntry packed 0) ()))"

subsection \<open>Searching\<close>

text \<open>The loops of \<open>ListPos\<close> over the positions still to be scanned, with the counters and the results so far.\<close>

fun posLoop :: "bytes list \<Rightarrow> bytes \<Rightarrow> nat \<Rightarrow> int \<Rightarrow> int \<Rightarrow> bool \<Rightarrow> nat list \<Rightarrow> nat \<Rightarrow> int \<Rightarrow> nat list \<Rightarrow> nat list" where
  "posLoop elements value wanted cnt maxLen withCount [] seen scanned results = results"
| "posLoop elements value wanted cnt maxLen withCount (i # is) seen scanned results =
     (if maxLen > 0 \<and> scanned \<ge> maxLen then results
      else if elements ! i \<noteq> value then posLoop elements value wanted cnt maxLen withCount is seen (scanned + 1) results
      else if seen + 1 < wanted then posLoop elements value wanted cnt maxLen withCount is (seen + 1) (scanned + 1) results
      else let results = results @ [i] in
        if \<not> withCount \<or> cnt > 0 \<and> int (length results) \<ge> cnt then results
        else posLoop elements value wanted cnt maxLen withCount is (seen + 1) (scanned + 1) results)"

text \<open>\<open>uint64(-(rank + 1)) + 1\<close>, which wraps to 0 for rank 0.\<close>

definition wantedFromEnd :: "int \<Rightarrow> nat" where
  "wantedFromEnd rank = nat (((- (rank + 1)) mod 2 ^ 64 + 1) mod 2 ^ 64)"

definition ListPos :: "(bytes \<Rightarrow> u64) \<Rightarrow> world \<Rightarrow> bytes \<Rightarrow> bytes \<Rightarrow> int \<Rightarrow> int \<Rightarrow> int \<Rightarrow> bool \<Rightarrow> stamp \<Rightarrow> nat list option outcome" where
  "ListPos h w key value rank cnt maxLen withCount now = do {
     (w, old) \<leftarrow> lookupLive h w key now False;
     case old of None \<Rightarrow> Some (Inr None, w)
     | Some e \<Rightarrow> withElements w e (\<lambda>elements.
         Some (Inr (Some (if rank > 0 then posLoop elements value (nat rank) cnt maxLen withCount [0 ..< length elements] 0 0 []
           else posLoop elements value (wantedFromEnd rank) cnt maxLen withCount (rev [0 ..< length elements]) 0 0 [])), w))
   }"

end
