(* ===== verification/ListStoreCorrect.thy ===== *)
theory ListStoreCorrect
  imports ListStore
begin

text \<open>The list commands refine their specification on plain lists: replies, the stored list, its deadline, every other key
  and the memory counters, for all three stored layouts and for in-place changes.\<close>

subsection \<open>Stored lists\<close>

definition decodeAny :: "bytes \<Rightarrow> listError + bytes list" where
  "decodeAny d = (if isIndexedList d then decodeIndexedList d else if isColdList d then decodeColdList d else decodePackedList d)"

definition list_ok :: "bytes \<Rightarrow> bytes list \<Rightarrow> bool" where
  "list_ok d xs \<longleftrightarrow> (if isIndexedList d then indexed_ok d xs else if isColdList d then cold_ok d xs else packed_ok d xs)"

lemma indexed_is: "indexed_ok d xs \<Longrightarrow> isIndexedList d \<and> length d \<le> maxPackedListBytes"
proof -
  assume "indexed_ok d xs"
  then obtain w cap used ps where rep: "indexed_rep d w cap used ps xs" by (auto simp: indexed_ok_def)
  then have "bytesAt d 0 (hdrOf w)" "15 \<le> length d" "length d \<le> maxPackedListBytes" by (auto simp: indexed_rep_def head_ok_def room_ok_def)
  moreover have "length (hdrOf w) = 3" by (simp add: hdrOf_def indexedListHeader_def indexedListHeaderNarrow_def)
  ultimately have "take 3 d = hdrOf w" by (simp add: bytesAt_def)
  then show ?thesis using \<open>15 \<le> length d\<close> \<open>length d \<le> maxPackedListBytes\<close> by (auto simp: isIndexedList_def indexedListFixed_def hdrOf_def split: if_splits)
qed

lemma packed_is_not: "packed_ok d xs \<Longrightarrow> \<not> isIndexedList d \<and> \<not> isColdList d \<and> length d \<le> maxPackedListBytes"
  by (auto simp: packed_ok_def packedListHeader_def isIndexedList_def indexedListHeader_def indexedListHeaderNarrow_def isColdList_def coldListHeader_def)

lemma list_ok_packed: "packed_ok d xs \<Longrightarrow> list_ok d xs"
  using packed_is_not by (simp add: list_ok_def)

lemma list_ok_indexed: "indexed_ok d xs \<Longrightarrow> list_ok d xs"
  using indexed_is by (simp add: list_ok_def)

lemma list_ok_decode: "list_ok d xs \<Longrightarrow> decodeAny d = Inr xs"
  using indexed.dec_rep cold.dec_rep packed.dec_rep by (simp add: list_ok_def decodeAny_def split: if_splits)

lemma list_ok_size: "list_ok d xs \<Longrightarrow> length d \<le> maxPackedListBytes"
  using indexed_is packed_is_not by (auto simp: list_ok_def cold_ok_def Let_def split: if_splits)

subsection \<open>What a key holds\<close>

datatype keyView = Missing | Wrong | Elements stamp "bytes list"

definition live :: "(bytes \<rightharpoonup> cell) \<Rightarrow> stamp \<Rightarrow> bytes \<Rightarrow> cell option" where
  "live C now key = (case C key of None \<Rightarrow> None | Some c \<Rightarrow> if c_expiresAt c \<noteq> 0 \<and> now \<ge> c_expiresAt c then None else Some c)"

definition viewOf :: "(bytes \<rightharpoonup> cell) \<Rightarrow> stamp \<Rightarrow> bytes \<Rightarrow> keyView" where
  "viewOf C now key = (case live C now key of None \<Rightarrow> Missing
     | Some c \<Rightarrow> if c_type c \<noteq> TypeList then Wrong
         else Elements (c_expiresAt c) (case decodeAny (c_data c) of Inl _ \<Rightarrow> [] | Inr xs \<Rightarrow> xs))"

definition lists_ok :: "(bytes \<rightharpoonup> cell) \<Rightarrow> bool" where
  "lists_ok C \<longleftrightarrow> (\<forall>key c. C key = Some c \<longrightarrow> c_type c = TypeList \<longrightarrow> (\<exists>xs. xs \<noteq> [] \<and> list_ok (c_data c) xs))"

lemma lists_ok_put: "lists_ok C \<Longrightarrow> list_ok d xs \<Longrightarrow> xs \<noteq> [] \<Longrightarrow> c_data c = d \<Longrightarrow> lists_ok (C(key \<mapsto> c))"
  by (auto simp: lists_ok_def)

lemma lists_ok_drop: "lists_ok C \<Longrightarrow> lists_ok (C(key := None))"
  by (simp add: lists_ok_def)

lemma viewOf_put: "list_ok (c_data c) xs \<Longrightarrow> c_type c = TypeList \<Longrightarrow> c_expiresAt c = 0 \<or> now < c_expiresAt c \<Longrightarrow>
    viewOf (C(key \<mapsto> c)) now key = Elements (c_expiresAt c) xs"
  by (auto simp: viewOf_def live_def list_ok_decode)

lemma viewOf_drop: "viewOf (C(key := None)) now key = Missing"
  by (simp add: viewOf_def live_def)

lemma viewOf_cong: "C key = D key \<Longrightarrow> viewOf C now key = viewOf D now key"
  by (simp add: viewOf_def live_def)

subsection \<open>Outcomes\<close>

text \<open>A command may be refused for memory, when a limit is set, or for the size of the list; it leaves what the key holds
  unchanged.\<close>

definition refusal :: "accounting \<Rightarrow> commandError + 'a \<Rightarrow> bool" where
  "refusal sl r \<longleftrightarrow> r = Inl OutOfMemory \<and> 0 < m_max sl \<or> r = Inl (Layout ListTooLarge)"

lemma slack_max [simp]: "m_max (slack w) = m_max (w_memory w)"
  by (simp add: slack_def Let_def)

definition achieves :: "(bytes \<Rightarrow> u64) \<Rightarrow> (bytes \<rightharpoonup> cell) \<Rightarrow> accounting \<Rightarrow> bytes \<Rightarrow> stamp \<Rightarrow> 'a outcome \<Rightarrow> commandError + 'a \<Rightarrow> keyView \<Rightarrow> bool" where
  "achieves h C sl key now out r v \<longleftrightarrow> (\<exists>r' w' C'. out = Some (r', w') \<and> holds h w' C' \<and> lists_ok C' \<and> slack w' = sl
     \<and> (\<forall>k. k \<noteq> key \<longrightarrow> C' k = C k)
     \<and> (r' = r \<and> viewOf C' now key = v \<or> refusal sl r' \<and> viewOf C' now key = viewOf C now key))"

lemma achieves_return: "holds h w C \<Longrightarrow> lists_ok C \<Longrightarrow> slack w = sl \<Longrightarrow> viewOf C now key = v \<Longrightarrow> achieves h C sl key now (Some (r, w)) r v"
  by (auto simp: achieves_def)

lemma achieves_refused: "holds h w C \<Longrightarrow> lists_ok C \<Longrightarrow> slack w = sl \<Longrightarrow> refusal sl r \<Longrightarrow> achieves h C sl key now (Some (r, w)) r' v"
  by (auto simp: achieves_def)

lemma achieves_start:
  assumes "achieves h C1 sl key now out r v" "viewOf C1 now key = viewOf C now key" "\<And>k. k \<noteq> key \<Longrightarrow> C1 k = C k"
  shows "achieves h C sl key now out r v"
  using assms by (auto simp: achieves_def)

definition space :: "world \<Rightarrow> bytes \<Rightarrow> bool" where
  "space w key \<longleftrightarrow> SegmentCount (sh_arena (w_shard w)) < 2 ^ 25 \<and> (ent (w_shard w) key = None \<longrightarrow> has_room (w_shard w) key)"

lemma list_fits:
  assumes "list_ok d xs" "space w key"
  shows "fits (w_shard w) key (listPreparedEntry d t)"
  using list_ok_size [OF assms(1)] assms(2) by (simp add: fits_def space_def listPreparedEntry_def isHotHash_def TypeList_def maxArenaBlock_def maxPackedListBytes_def)

lemma achieves_publish:
  assumes ok: "holds h w C" "lists_ok C" "slack w = sl" and sp: "space w key" and d: "list_ok d xs" "xs \<noteq> []" and t: "t = 0 \<or> now < t"
  shows "achieves h C sl key now (publishReply h w key (listPreparedEntry d t) reply) (Inr reply) (Elements t xs)"
  using ok(1) list_fits [OF d(1) sp]
proof (cases rule: publish_cases [where e = "listPreparedEntry d t"])
  case refused
  have "0 < m_max sl" using refused(2) ok(3) by auto
  then show ?thesis using refused ok achieves_refused [of h w C sl "Inl OutOfMemory"] by (simp add: publishReply_def refusal_def)
next
  case (stored w' n)
  let ?c = "cellOf (listPreparedEntry d t)"
  have c: "c_type ?c = TypeList" "c_data ?c = d" "c_expiresAt ?c = t" by (simp_all add: cellOf_def listPreparedEntry_def)
  have "lists_ok (C(key \<mapsto> ?c))" "viewOf (C(key \<mapsto> ?c)) now key = Elements t xs"
    using lists_ok_put [OF ok(2) d c(2)] viewOf_put [of ?c xs now C key] c d(1) t by simp_all
  then show ?thesis using stored ok(3) by (auto simp: achieves_def publishReply_def)
qed

lemma achieves_try:
  assumes "\<And>d. r = Inr d \<Longrightarrow> achieves h C sl key now (k d) q v" "\<And>e. r = Inl e \<Longrightarrow> e = ListTooLarge" "holds h w C" "lists_ok C" "slack w = sl"
  shows "achieves h C sl key now (tryLayout w r k) q v"
proof (cases r)
  case (Inl e)
  then show ?thesis using assms(2-5) achieves_refused [of h w C sl "Inl (Layout ListTooLarge)"] by (simp add: tryLayout_def refusal_def)
qed (use assms(1) in \<open>simp add: tryLayout_def\<close>)

lemma packed_errors: "encodePackedList xs = Inl e \<Longrightarrow> e = ListTooLarge"
  by (auto simp: encodePackedList_eq split: if_splits)

lemma remove_achieves:
  assumes "holds h w C" "lists_ok C" "slack w = sl"
  shows "achieves h C sl key now (map_option (\<lambda>w. (Inr reply, w)) (removeKey h w key now)) (Inr reply) Missing"
proof -
  obtain w' where "removeKey h w key now = Some w'" "holds h w' (C(key := None))" "slack w' = slack w" using remove_cases [OF assms(1)] .
  then show ?thesis using lists_ok_drop [OF assms(2), of key] viewOf_drop [of C key now] assms(3) by (auto simp: achieves_def)
qed

subsection \<open>Looking up\<close>

definition roomy :: "(bytes \<Rightarrow> u64) \<Rightarrow> world \<Rightarrow> bytes \<Rightarrow> stamp \<Rightarrow> bool" where
  "roomy h w key now \<longleftrightarrow> SegmentCount (sh_arena (w_shard w)) < 2 ^ 25
     \<and> (case lookupLive h w key now True of Some (w', None) \<Rightarrow> has_room (w_shard w') key | _ \<Rightarrow> True)"

lemma lookup_found:
  assumes "holds h w C" "live C now key = Some c"
  obtains e L where "lookupLive h w key now purge = Some (w, Some e)" "C key = Some c" "shard_inv h (w_shard w) L C" "ent (w_shard w) key = Some e"
    "describes L e c" "encoded (w_shard w) e = Some (c_data c)" "expirationAt (w_shard w) key e = Some (c_expiresAt c)" "v_valueType e = c_type c"
    "c_expiresAt c = 0 \<or> now < c_expiresAt c"
proof -
  have c: "C key = Some c" "\<not> (c_expiresAt c \<noteq> 0 \<and> now \<ge> c_expiresAt c)" using assms(2) by (auto simp: live_def split: option.splits if_splits)
  obtain L where L: "shard_inv h (w_shard w) L C" using assms(1) by (auto simp: holds_def)
  obtain e where e: "sh_get h (w_shard w) key = Some (Some e)" "encoded (w_shard w) e = Some (c_data c)" "expirationAt (w_shard w) key e = Some (c_expiresAt c)"
    "v_valueType e = c_type c" "expired (w_shard w) key e now = Some (c_expiresAt c \<noteq> 0 \<and> now \<ge> c_expiresAt c)" "ent (w_shard w) key = Some e" "describes L e c"
    by (rule read_ok [OF L c(1)]) (rule that; assumption)
  have "lookupLive h w key now purge = Some (w, Some e)" using e(1,5) c(2) by (simp add: lookupLive_def)
  then show ?thesis by (rule that [OF _ c(1) L e(6,7,2-4)]) (use c(2) in auto)
qed

lemma lookup_gone:
  assumes "holds h w C" "live C now key = None"
  obtains w' where "lookupLive h w key now purge = Some (w', None)" "holds h w' (if purge then C(key := None) else C)" "slack w' = slack w"
    "SegmentCount (sh_arena (w_shard w')) = SegmentCount (sh_arena (w_shard w))"
proof (cases "C key")
  case None
  obtain L where L: "shard_inv h (w_shard w) L C" using assms(1) by (auto simp: holds_def)
  have "C(key := None) = C" using None by (simp add: fun_upd_idem)
  then show ?thesis using absent_ok(1) [OF L None] assms(1) by (intro that [of w]) (simp_all add: lookupLive_def)
next
  case (Some c)
  obtain L where L: "shard_inv h (w_shard w) L C" using assms(1) by (auto simp: holds_def)
  obtain e where e: "sh_get h (w_shard w) key = Some (Some e)" "expired (w_shard w) key e now = Some (c_expiresAt c \<noteq> 0 \<and> now \<ge> c_expiresAt c)"
    by (rule read_ok [OF L Some]) (rule that; assumption)
  have gone: "c_expiresAt c \<noteq> 0 \<and> now \<ge> c_expiresAt c" using assms(2) Some by (simp add: live_def split: if_splits)
  obtain w' where w': "removeKey h w key now = Some w'" "holds h w' (C(key := None))" "slack w' = slack w"
    "SegmentCount (sh_arena (w_shard w')) = SegmentCount (sh_arena (w_shard w))" using remove_cases [OF assms(1)] .
  show ?thesis by (rule that [of "if purge then w' else w"]) (use e gone w' assms(1) in \<open>simp_all add: lookupLive_def\<close>)
qed

text \<open>The state after the lookup of a writer, in the cases a command distinguishes.\<close>

lemma lookup_cases:
  assumes ok: "holds h w C" "lists_ok C" and room: "roomy h w key now"
  obtains (Missing) w' where "viewOf C now key = Missing" "lookupLive h w key now True = Some (w', None)" "holds h w' (C(key := None))" "slack w' = slack w" "space w' key"
  | (Wrong) e where "viewOf C now key = Wrong" "lookupLive h w key now True = Some (w, Some e)" "v_valueType e \<noteq> TypeList"
  | (Found) e c xs L where "viewOf C now key = Elements (c_expiresAt c) xs" "lookupLive h w key now True = Some (w, Some e)" "v_valueType e = TypeList"
      "C key = Some c" "c_type c = TypeList" "list_ok (c_data c) xs" "xs \<noteq> []" "shard_inv h (w_shard w) L C" "ent (w_shard w) key = Some e" "describes L e c"
      "encoded (w_shard w) e = Some (c_data c)" "expirationAt (w_shard w) key e = Some (c_expiresAt c)" "c_expiresAt c = 0 \<or> now < c_expiresAt c" "space w key"
proof (cases "live C now key")
  case None
  obtain w' where w': "lookupLive h w key now True = Some (w', None)" "holds h w' (C(key := None))" "slack w' = slack w"
    "SegmentCount (sh_arena (w_shard w')) = SegmentCount (sh_arena (w_shard w))" using lookup_gone [OF ok(1) None, of True] by auto
  have "space w' key" using room w'(1,4) by (simp add: roomy_def space_def)
  moreover have "viewOf C now key = Missing" using None by (simp add: viewOf_def)
  ultimately show ?thesis using Missing w' by blast
next
  case (Some c)
  obtain e L where e: "lookupLive h w key now True = Some (w, Some e)" "C key = Some c" "shard_inv h (w_shard w) L C" "ent (w_shard w) key = Some e"
    "describes L e c" "encoded (w_shard w) e = Some (c_data c)" "expirationAt (w_shard w) key e = Some (c_expiresAt c)" "v_valueType e = c_type c"
    "c_expiresAt c = 0 \<or> now < c_expiresAt c" using lookup_found [OF ok(1) Some, of True] .
  show ?thesis
  proof (cases "c_type c = TypeList")
    case True
    obtain xs where xs: "xs \<noteq> []" "list_ok (c_data c) xs" using ok(2) e(2) True unfolding lists_ok_def by blast
    have "viewOf C now key = Elements (c_expiresAt c) xs" using Some True list_ok_decode [OF xs(2)] by (simp add: viewOf_def)
    moreover have "space w key" using room e(4) by (simp add: roomy_def space_def)
    ultimately show ?thesis using Found e xs True by metis
  next
    case False
    then show ?thesis using Wrong [of e] e Some by (simp add: viewOf_def)
  qed
qed

lemma missing_start:
  assumes "viewOf C now key = Missing" "achieves h (C(key := None)) sl key now out r v"
  shows "achieves h C sl key now out r v"
  by (rule achieves_start [OF assms(2)]) (simp_all add: assms(1) viewOf_drop)

subsection \<open>Changing a stored list in place\<close>

lemma contents_write:
  assumes ok: "contents_ok L E C" and e: "E key = Some v" "C key = Some c" and b: "is_block (v_ref v)"
  shows "contents_ok (L(v_ref v \<mapsto> d)) E (C(key \<mapsto> c\<lparr>c_data := d\<rparr>))"
proof -
  have own: "owned L E" using ok by (simp add: contents_ok_def)
  obtain c' where c': "C key = Some c'" "describes L v c'" by (rule contents_Some [OF ok e(1)])
  then have L: "L (v_ref v) = Some (c_data c)" "describes L v c" using e(2) b by (simp_all add: describes_def)
  have "describes (L(v_ref v \<mapsto> d)) u x" if "E k = Some u" "describes L u x" "k \<noteq> key" for k u x
  proof -
    have "\<not> is_block (v_ref u) \<or> v_ref u \<noteq> v_ref v" using own that(1,3) e(1) unfolding owned_def by blast
    then show ?thesis using that(2) by (simp add: describes_def refHolds_other)
  qed
  then have "rel_option (describes (L(v_ref v \<mapsto> d))) (E k) ((C(key \<mapsto> c\<lparr>c_data := d\<rparr>)) k)" for k
    using contents_rel [OF ok, of k] e L(2) b by (cases "k = key") (simp_all add: describes_def)
  moreover have "owned (L(v_ref v \<mapsto> d)) E" using own e(1) unfolding owned_def by auto
  ultimately show ?thesis by (simp add: contents_ok_def)
qed

lemma inline_small: "InlineInto r = Some v \<Longrightarrow> length v \<le> 8"
proof -
  assume "InlineInto r = Some v"
  then obtain n where "v = take n (put64 (r_location r))" by (auto simp: InlineInto_def Let_def split: if_splits)
  then show ?thesis by (simp add: put64_def)
qed

lemma inplace_ok:
  assumes inv: "shard_inv h (w_shard w) L C" and e: "ent (w_shard w) key = Some e" "C key = Some c" "describes L e c"
    and b: "8 < length (c_data c)" and len: "length d = length (c_data c)"
  obtains sh where "storeEncoded (w_shard w) e d = Some sh" "holds h (w\<lparr>w_shard := sh\<rparr>) (C(key \<mapsto> c\<lparr>c_data := d\<rparr>))"
    "slack (w\<lparr>w_shard := sh\<rparr>) = slack w"
proof -
  note P = shard_parts [OF inv]
  have r: "refHolds L (v_ref e) (c_data c)" using e(3) by (simp add: describes_def)
  have blk: "is_block (v_ref e)" using r b inline_small [of "v_ref e" "c_data c"] by (auto simp: refHolds_def is_block_def split: if_splits)
  have L: "L (v_ref e) = Some (c_data c)" using r blk by simp
  obtain a where a: "viewWrite (sh_arena (w_shard w)) (v_ref e) d = Some a" "arena_ok a (L(v_ref e \<mapsto> d))"
    "TotalMemoryBytes a = TotalMemoryBytes (sh_arena (w_shard w))" using viewWrite_store [OF P(2) L len] .
  let ?sh = "(w_shard w)\<lparr>sh_arena := a\<rparr>"
  have "expiries (C(key \<mapsto> c\<lparr>c_data := d\<rparr>)) = expiries C" using e(2) by (auto simp: expiries_def fun_eq_iff)
  then have "shard_inv h ?sh (L(v_ref e \<mapsto> d)) (C(key \<mapsto> c\<lparr>c_data := d\<rparr>))"
    using P a(2) contents_write [OF P(4) e(1,2) blk] by (simp add: shard_inv_def)
  moreover have "slack (w\<lparr>w_shard := ?sh\<rparr>) = slack w" using a(3) by (simp add: slack_def measured_def Let_def)
  moreover have "storeEncoded (w_shard w) e d = Some ?sh" using a(1) blk by (simp add: storeEncoded_def is_block_def)
  ultimately show ?thesis using that by (auto simp: holds_def)
qed

lemma achieves_inplace:
  assumes inv: "shard_inv h (w_shard w) L C" "lists_ok C" "slack w = sl" and e: "ent (w_shard w) key = Some e" "C key = Some c" "describes L e c" "c_type c = TypeList"
    and t: "c_expiresAt c = 0 \<or> now < c_expiresAt c" and old: "isIndexedList (c_data c)"
    and new: "length d = length (c_data c)" "indexed_ok d xs" "xs \<noteq> []"
  shows "achieves h C sl key now (map_option (\<lambda>sh. (Inr reply, w\<lparr>w_shard := sh\<rparr>)) (storeEncoded (w_shard w) e d)) (Inr reply) (Elements (c_expiresAt c) xs)"
proof -
  let ?c = "c\<lparr>c_data := d\<rparr>"
  have "8 < length (c_data c)" using old by (simp add: isIndexedList_def indexedListFixed_def)
  from inplace_ok [OF inv(1) e(1-3) this new(1)] obtain sh where sh: "storeEncoded (w_shard w) e d = Some sh" "holds h (w\<lparr>w_shard := sh\<rparr>) (C(key \<mapsto> ?c))"
    "slack (w\<lparr>w_shard := sh\<rparr>) = slack w" by blast
  have "lists_ok (C(key \<mapsto> ?c))" "viewOf (C(key \<mapsto> ?c)) now key = Elements (c_expiresAt c) xs"
    using lists_ok_put [OF inv(2) list_ok_indexed [OF new(2)] new(3), of ?c key] viewOf_put [of ?c xs now C key] list_ok_indexed [OF new(2)] e(4) t by simp_all
  then show ?thesis using sh inv(3) by (auto simp: achieves_def)
qed

lemma patch_length: "patch d p bs = Inr d' \<Longrightarrow> length d' = length d"
  by (auto simp: patch_def split: if_splits)

lemma putListOffset_length: "putListOffset d b w i v = Inr d' \<Longrightarrow> length d' = length d"
  by (auto simp: putListOffset_def dest: patch_length split: if_splits)

lemma copyAt_length: "copyAt d p bs = Inr (d', n) \<Longrightarrow> length d' = length d"
  by (auto simp: copyAt_def Let_def split: if_splits)

lemma appendLoop_length: "appendLoop d start width i cursor vs = Inr (d', c') \<Longrightarrow> length d' = length d"
proof (induction vs arbitrary: d i cursor)
  case (Cons v vs)
  let ?k = "cursor + length (uvarint_put (length v))"
  obtain d1 d2 n d3 where s: "patch d (start + cursor) (uvarint_put (length v)) = Inr d1" "copyAt d1 (start + ?k) v = Inr (d2, n)"
    "putListOffset d2 indexedListFixed width i (cursor + 1) = Inr d3" "appendLoop d3 start width (i + 1) (?k + n) vs = Inr (d', c')"
    using Cons.prems by (auto simp: go_res Let_def)
  show ?case using patch_length [OF s(1)] copyAt_length [OF s(2)] putListOffset_length [OF s(3)] Cons.IH [OF s(4)] by simp
qed simp

lemma patch_bindE:
  assumes "rbind (patch d p bs) f = Inr y"
  obtains d' where "length d' = length d" "f d' = Inr y"
  using assms patch_length [of d p bs] that by (cases "patch d p bs") auto

lemma offset_bindE:
  assumes "rbind (putListOffset d b w i v) f = Inr y"
  obtains d' where "length d' = length d" "f d' = Inr y"
  using assms putListOffset_length [of d b w i v] that by (cases "putListOffset d b w i v") auto

lemma loop_bindE:
  assumes "rbind (appendLoop d start width i cursor vs) f = Inr y"
  obtains d' c where "length d' = length d" "f (d', c) = Inr y"
  using assms appendLoop_length [of d start width i cursor vs] that by (cases "appendLoop d start width i cursor vs") auto

lemma append_length:
  assumes "indexedListAppend d vs = Inr (n, None, d')"
  shows "length d' = length d"
proof -
  obtain c cap u st where m: "indexedListMeta d = Inr (c, cap, u, st)" using assms by (auto simp: indexedListAppend_def go_res)
  define single where "single \<longleftrightarrow> (case vs of [value] \<Rightarrow> c + 1 \<le> cap \<and> st + u + (length (uvarint_put (length value)) + length value) \<le> length d | _ \<Rightarrow> False)"
  note eq = assms [unfolded indexedListAppend_def m Let_def, simplified, folded single_def]
  show ?thesis
  proof (cases single)
    case True
    then show ?thesis using eq by (simp add: single_def) (elim patch_bindE offset_bindE, simp)
  next
    case False
    then obtain extra where x: "extraBytes vs = Some extra" using eq by (cases "extraBytes vs") simp_all
    show ?thesis
    proof (cases "cap < c + length vs \<or> length d < st + u + extra")
      case True
      then show ?thesis using eq False x by (auto simp: go_res split: option.splits)
    next
      case place: False
      show ?thesis using eq False x place by simp (elim loop_bindE patch_bindE, simp, elim patch_bindE, simp)
    qed
  qed
qed

lemma append_cases:
  assumes "indexed_ok d xs"
  obtains (large) "indexedListAppend d vs = Inl ListTooLarge"
  | (inplace) d' where "indexedListAppend d vs = Inr (length (xs @ vs), None, d')" "length d' = length d" "indexed_ok d' (xs @ vs)"
  | (rebuilt) out where "indexedListAppend d vs = Inr (length (xs @ vs), Some out, d)" "indexed_ok out (xs @ vs)"
proof -
  obtain w cap used ps where rep: "indexed_rep d w cap used ps xs" using assms by (auto simp: indexed_ok_def)
  consider "indexedListAppend d vs = Inl ListTooLarge" | r d' where "indexedListAppend d vs = Inr (length xs + length vs, r, d')"
    "case r of None \<Rightarrow> indexed_ok d' (xs @ vs) | Some out \<Rightarrow> d' = d \<and> indexed_ok out (xs @ vs)" using indexedListAppend_ok [OF rep, of vs] by blast
  then show ?thesis
  proof cases
    case (2 r d')
    then show ?thesis using append_length [of d vs "length xs + length vs" d'] inplace rebuilt by (cases r) simp_all
  qed (rule large)
qed

lemma indexed_errors: "encodeIndexedList xs = Inl e \<Longrightarrow> xs \<noteq> [] \<Longrightarrow> e = ListTooLarge"
  using encodeIndexedList_cases [of xs] nextListPow2_ge [of "length xs * 2"] by fastforce

lemma packed_append_errors:
  assumes "packed_ok d xs" "appendPackedListRight d vs = Inl e"
  shows "e = ListTooLarge"
proof -
  have "boundaryLoop d (length xs) (3 + length (uvarint_put (length xs))) = Inr (length d)"
    using boundaryLoop_ok [OF packed_records [OF assms(1)]] packed_small [OF assms(1)] packed_length [OF assms(1)] by simp
  then show ?thesis using assms(2) packedListMeta_ok [OF assms(1)]
    by (auto simp: appendPackedListRight_def go_res Let_def capacityCheck_eq split: if_splits)
qed

subsection \<open>Rewriting a list\<close>

lemma achieves_packed:
  assumes "holds h w C" "lists_ok C" "slack w = sl" "space w key" "xs \<noteq> []" "t = 0 \<or> now < t" "expirationAt (w_shard w) key e = Some t"
  shows "achieves h C sl key now (publishPacked h w key e xs reply) (Inr reply) (Elements t xs)"
  unfolding publishPacked_def
proof (rule achieves_try)
  fix d assume "encodePackedList xs = Inr d"
  then have "list_ok d xs" by (intro list_ok_packed encodePackedList_ok)
  then show "achieves h C sl key now (expirationAt (w_shard w) key e \<bind> (\<lambda>t. publishReply h w key (listPreparedEntry d t) reply)) (Inr reply) (Elements t xs)"
    using achieves_publish [OF assms(1-4) _ assms(5,6)] assms(7) by simp
qed (use assms packed_errors in auto)

lemma elements_of:
  assumes "encoded (w_shard w) e = Some d" "list_ok d xs"
  shows "listElementsFromEntry (w_shard w) e = Some (Inr xs)"
  using list_ok_decode [OF assms(2)] assms(1) by (simp add: listElementsFromEntry_def decodeAny_def)

lemma achieves_stored:
  assumes "holds h w C" "lists_ok C" "slack w = sl" "space w key" "xs \<noteq> []" "t = 0 \<or> now < t"
  shows "achieves h C sl key now (storePushed h w key xs t) (Inr (length xs)) (Elements t xs)"
  unfolding storePushed_def
proof (rule achieves_try)
  fix d assume "(if length xs \<ge> indexedListPromoteElements then encodeIndexedList xs else encodePackedList xs) = Inr d"
  then have "list_ok d xs"
    using list_ok_indexed [OF indexed.enc_rep, of xs d] list_ok_packed [OF packed.enc_rep, of xs d] by (simp split: if_splits)
  then show "achieves h C sl key now (publishReply h w key (listPreparedEntry d t) (length xs)) (Inr (length xs)) (Elements t xs)"
    by (rule achieves_publish [OF assms(1-4) _ assms(5,6)])
next
  fix e assume "(if length xs \<ge> indexedListPromoteElements then encodeIndexedList xs else encodePackedList xs) = Inl e"
  then show "e = ListTooLarge" using packed_errors [of xs e] indexed_errors [of xs e] assms(5) by (simp split: if_splits)
qed (use assms in simp_all)

subsection \<open>The commands\<close>

definition meets :: "(bytes \<Rightarrow> u64) \<Rightarrow> world \<Rightarrow> (bytes \<rightharpoonup> cell) \<Rightarrow> bytes \<Rightarrow> stamp \<Rightarrow> 'a outcome \<Rightarrow> (commandError + 'a) \<times> keyView \<Rightarrow> bool" where
  "meets h w C key now out s \<longleftrightarrow> achieves h C (slack w) key now out (fst s) (snd s)"

lemma meets_return: "holds h w C \<Longrightarrow> lists_ok C \<Longrightarrow> meets h w C key now (Some (r, w)) (r, viewOf C now key)"
  by (simp add: meets_def achieves_return)

definition specPush :: "bool \<Rightarrow> bytes list \<Rightarrow> keyView \<Rightarrow> (commandError + nat) \<times> keyView" where
  "specPush left values v = (if values = [] then (Inl BadElementCount, v) else case v of Wrong \<Rightarrow> (Inl WrongType, Wrong)
     | Missing \<Rightarrow> (Inr (length values), Elements 0 (pushed left [] values))
     | Elements t xs \<Rightarrow> (Inr (length xs + length values), Elements t (pushed left xs values)))"

lemma pushed_simps [simp]: "length (pushed left xs vs) = length xs + length vs" "pushed left xs vs = [] \<longleftrightarrow> xs = [] \<and> vs = []" "pushed False (pushed False xs vs) [] = pushed False xs vs"
  by (auto simp: pushed_def)

lemma push_ok:
  assumes ok: "holds h w C" "lists_ok C" and room: "roomy h w key now"
  shows "meets h w C key now (listPush h w key values left now) (specPush left values (viewOf C now key))"
proof (cases "values = []")
  case True
  then show ?thesis using meets_return [OF ok] by (simp add: listPush_def specPush_def)
next
  case ne: False
  from ok room show ?thesis
  proof (cases rule: lookup_cases)
    case (Missing w')
    have st: "achieves h (C(key := None)) (slack w) key now (storePushed h w' key (pushed left [] values) 0) (Inr (length values)) (Elements 0 (pushed left [] values))"
      using achieves_stored [OF Missing(3) lists_ok_drop [OF ok(2)] Missing(4,5), of "pushed left [] values" 0 now] ne by simp
    show ?thesis using missing_start [OF Missing(1) st] ne Missing(1,2) by (simp add: meets_def specPush_def listPush_def)
  next
    case (Wrong e)
    then show ?thesis using meets_return [OF ok, of key now "Inl WrongType"] ne by (simp add: listPush_def specPush_def)
  next
    case (Found e c xs L)
    let ?t = "c_expiresAt c" and ?d = "c_data c"
    have goal: "meets h w C key now out (specPush left values (viewOf C now key)) \<longleftrightarrow>
        achieves h C (slack w) key now out (Inr (length xs + length values)) (Elements ?t (pushed left xs values))" for out
      using ne Found(1) by (simp add: meets_def specPush_def)
    have st: "achieves h C (slack w) key now (storePushed h w key (pushed left xs values) ?t) (Inr (length xs + length values)) (Elements ?t (pushed left xs values))"
      using achieves_stored [OF ok refl Found(14) _ Found(13), of "pushed left xs values"] Found(7) by simp
    have pub: "achieves h C (slack w) key now (publishReply h w key (listPreparedEntry d ?t) (length xs + length values)) (Inr (length xs + length values)) (Elements ?t (pushed left xs values))"
      if "list_ok d (pushed left xs values)" for d using achieves_publish [OF ok refl Found(14) that _ Found(13)] Found(7) by simp
    consider (indexed) "\<not> left" "isIndexedList ?d" | (cold) "left \<or> \<not> isIndexedList ?d" "isColdList ?d"
      | (packed) "\<not> left" "\<not> isIndexedList ?d" "\<not> isColdList ?d" | (lft) "left" "\<not> isColdList ?d" by blast
    then show ?thesis
    proof cases
      case indexed
      then have "indexed_ok ?d xs" using Found(6) by (simp add: list_ok_def)
      then show ?thesis
      proof (cases rule: append_cases [where vs = "values"])
        case large
        then show ?thesis using indexed ne Found(2,3,11,12) unfolding goal
          by (simp add: listPush_def tryLayout_def) (rule achieves_refused [OF ok refl], simp add: refusal_def)
      next
        case (inplace d')
        have "achieves h C (slack w) key now (map_option (\<lambda>sh. (Inr (length (xs @ values)), w\<lparr>w_shard := sh\<rparr>)) (storeEncoded (w_shard w) e d'))
          (Inr (length (xs @ values))) (Elements ?t (xs @ values))"
          by (rule achieves_inplace [OF Found(8) ok(2) refl Found(9,4,10,5,13) indexed(2) inplace(2,3)]) (use Found(7) in simp)
        then show ?thesis using indexed ne inplace(1) Found(2,3,11,12) unfolding goal by (simp add: listPush_def tryLayout_def pushed_def)
      next
        case (rebuilt out)
        then show ?thesis using pub [of out] list_ok_indexed [OF rebuilt(2)] indexed ne Found(2,3,11,12) unfolding goal
          by (simp add: listPush_def tryLayout_def pushed_def)
      qed
    next
      case cold
      have "\<not> isIndexedList ?d" using cold(2) by (auto simp: isColdList_def isIndexedList_def coldListHeader_def indexedListHeader_def indexedListHeaderNarrow_def)
      then have "decodeColdList ?d = Inr xs" using Found(6) cold(2) cold.dec_rep by (simp add: list_ok_def)
      then show ?thesis using st cold ne Found(2,3,11,12) \<open>\<not> isIndexedList ?d\<close> unfolding goal by (simp add: listPush_def tryLayout_def)
    next
      case packed
      then have p: "packed_ok ?d xs" using Found(6) by (simp add: list_ok_def)
      have run: "listPush h w key values left now = tryLayout w (appendPackedListRight ?d values) (\<lambda>(n, packed).
                  if n < indexedListPromoteElements then publishReply h w key (listPreparedEntry packed ?t) n
                  else tryLayout w (decodePackedList packed) (\<lambda>current. storePushed h w key (pushed False current []) ?t))"
        using packed ne Found(2,3,11,12) by (simp add: listPush_def)
      show ?thesis unfolding goal run
      proof (rule achieves_try)
        fix nd assume a: "appendPackedListRight ?d values = Inr nd"
        obtain n d where nd: "nd = (n, d)" by fastforce
        have d: "packed_ok d (pushed left xs values)" "n = length xs + length values" using appendPackedListRight_ok [OF p] a packed(1) by (simp_all add: nd pushed_def)
        have "decodePackedList d = Inr (pushed left xs values)" by (rule decodePackedList_ok [OF d(1)])
        then show "achieves h C (slack w) key now (case nd of (n, packed) \<Rightarrow> if n < indexedListPromoteElements then publishReply h w key (listPreparedEntry packed ?t) n
            else tryLayout w (decodePackedList packed) (\<lambda>current. storePushed h w key (pushed False current []) ?t)) (Inr (length xs + length values)) (Elements ?t (pushed left xs values))"
          using pub [OF list_ok_packed [OF d(1)]] st packed(1) by (simp add: nd d(2) tryLayout_def)
      qed (use packed_append_errors [OF p] ok in auto)
    next
      case lft
      then show ?thesis using st ne Found(2,3,11,12) elements_of [OF Found(11,6)] unfolding goal by (simp add: listPush_def tryLayout_def)
    qed
  qed
qed

text \<open>Commands that look a list up and then work on its elements.\<close>

definition onList :: "commandError + 'a \<Rightarrow> (stamp \<Rightarrow> bytes list \<Rightarrow> (commandError + 'a) \<times> keyView) \<Rightarrow> keyView \<Rightarrow> (commandError + 'a) \<times> keyView" where
  "onList r0 f v = (case v of Missing \<Rightarrow> (r0, Missing) | Wrong \<Rightarrow> (Inl WrongType, Wrong) | Elements t xs \<Rightarrow> f t xs)"

definition keep :: "stamp \<Rightarrow> bytes list \<Rightarrow> keyView" where
  "keep t xs = (if xs = [] then Missing else Elements t xs)"

lemma withElements_found: "v_valueType e = TypeList \<Longrightarrow> encoded (w_shard w) e = Some d \<Longrightarrow> list_ok d xs \<Longrightarrow> withElements w e k = k xs"
  using elements_of [of w e d xs] by (simp add: withElements_def tryLayout_def)

lemma edit_ok:
  assumes ok: "holds h w C" "lists_ok C" and room: "roomy h w key now"
    and edit: "\<And>e t xs d. viewOf C now key = Elements t xs \<Longrightarrow> space w key \<Longrightarrow> expirationAt (w_shard w) key e = Some t \<Longrightarrow> t = 0 \<or> now < t \<Longrightarrow> xs \<noteq> [] \<Longrightarrow>
      list_ok d xs \<Longrightarrow> achieves h C (slack w) key now (k w e xs) (fst (f t xs)) (snd (f t xs))"
  shows "meets h w C key now (lookupLive h w key now True \<bind> (\<lambda>(w, old). case old of None \<Rightarrow> Some (r0, w) | Some e \<Rightarrow> withElements w e (k w e)))
    (onList r0 f (viewOf C now key))"
  using ok room
proof (cases rule: lookup_cases)
  case (Missing w')
  have "achieves h (C(key := None)) (slack w) key now (Some (r0, w')) r0 keyView.Missing"
    by (rule achieves_return [OF Missing(3) lists_ok_drop [OF ok(2)] Missing(4) viewOf_drop])
  then show ?thesis using missing_start [OF Missing(1)] Missing(1,2) by (simp add: meets_def onList_def)
next
  case (Wrong e)
  then show ?thesis using meets_return [OF ok, of key now "Inl WrongType"] by (simp add: onList_def withElements_def)
next
  case (Found e c xs L)
  then show ?thesis using edit [OF Found(1,14,12,13,7,6)] withElements_found [OF Found(3,11,6), of "k w e"] by (simp add: meets_def onList_def)
qed

lemma read_ok_list:
  assumes ok: "holds h w C" "lists_ok C"
    and read: "\<And>e t xs d. viewOf C now key = Elements t xs \<Longrightarrow> v_valueType e = TypeList \<Longrightarrow> encoded (w_shard w) e = Some d \<Longrightarrow> list_ok d xs \<Longrightarrow> k w e = Some (g xs, w)"
    and other: "\<And>e. v_valueType e \<noteq> TypeList \<Longrightarrow> k w e = Some (Inl WrongType, w)"
  shows "meets h w C key now (lookupLive h w key now False \<bind> (\<lambda>(w, old). case old of None \<Rightarrow> Some (r0, w) | Some e \<Rightarrow> k w e))
    (onList r0 (\<lambda>t xs. (g xs, Elements t xs)) (viewOf C now key))"
proof (cases "live C now key")
  case None
  obtain w' where w': "lookupLive h w key now False = Some (w', None)" "holds h w' C" "slack w' = slack w"
    using lookup_gone [OF ok(1) None, of False] by auto
  have v: "viewOf C now key = Missing" using None by (simp add: viewOf_def)
  show ?thesis using w'(1) achieves_return [OF w'(2) ok(2) w'(3) v, of r0] v by (simp add: meets_def onList_def)
next
  case (Some c)
  obtain e L where e: "lookupLive h w key now False = Some (w, Some e)" "C key = Some c" "encoded (w_shard w) e = Some (c_data c)" "v_valueType e = c_type c"
    using lookup_found [OF ok(1) Some, of False] by metis
  show ?thesis
  proof (cases "c_type c = TypeList")
    case True
    obtain xs where xs: "list_ok (c_data c) xs" using ok(2) e(2) True unfolding lists_ok_def by blast
    have v: "viewOf C now key = Elements (c_expiresAt c) xs" using Some True list_ok_decode [OF xs] by (simp add: viewOf_def)
    show ?thesis using e(1) read [OF v _ e(3) xs] e(4) True meets_return [OF ok, of key now "g xs"] v by (simp add: onList_def)
  next
    case False
    then have "viewOf C now key = Wrong" using Some by (simp add: viewOf_def)
    then show ?thesis using e(1,4) other [of e] False meets_return [OF ok, of key now "Inl WrongType"] by (simp add: onList_def)
  qed
qed

end
