(* ===== verification/ListCommands.thy ===== *)
theory ListCommands
  imports ListStoreCorrect
begin

text \<open>The specification of the list commands on plain lists, and the proof that the commands of the store meet it.\<close>

subsection \<open>Specification\<close>

definition specPushX :: "bool \<Rightarrow> bytes list \<Rightarrow> keyView \<Rightarrow> (commandError + nat) \<times> keyView" where
  "specPushX left vals v = (if vals = [] then (Inl BadElementCount, v)
     else onList (Inr 0) (\<lambda>t xs. (Inr (length xs + length vals), Elements t (pushed left xs vals))) v)"

definition specPop :: "bool \<Rightarrow> int \<Rightarrow> keyView \<Rightarrow> (commandError + bytes list option) \<times> keyView" where
  "specPop left n v = (if n < 0 then (Inl NegativeCount, v)
     else onList (Inr None) (\<lambda>t xs. (Inr (Some (take (nat n) (if left then xs else rev xs))),
       keep t (if left then drop (nat n) xs else take (length xs - nat n) xs))) v)"

definition specRead :: "'a \<Rightarrow> (bytes list \<Rightarrow> 'a) \<Rightarrow> keyView \<Rightarrow> (commandError + 'a) \<times> keyView" where
  "specRead none f v = onList (Inr none) (\<lambda>t xs. (Inr (f xs), Elements t xs)) v"

definition specSet :: "int \<Rightarrow> bytes \<Rightarrow> keyView \<Rightarrow> (commandError + unit) \<times> keyView" where
  "specSet i x v = onList (Inl NoSuchKey) (\<lambda>t xs. if redisIndex xs i = None then (Inl IndexOutOfRange, Elements t xs)
     else (Inr (), Elements t (xs[nat (if i < 0 then i + int (length xs) else i) := x]))) v"

definition specTrim :: "int \<Rightarrow> int \<Rightarrow> keyView \<Rightarrow> (commandError + unit) \<times> keyView" where
  "specTrim i j v = onList (Inr ()) (\<lambda>t xs. (Inr (), keep t (redisRange xs i j))) v"

fun removeFirst :: "nat \<Rightarrow> 'a \<Rightarrow> 'a list \<Rightarrow> 'a list" where
  "removeFirst n x [] = []"
| "removeFirst n x (y # ys) = (if 0 < n \<and> y = x then removeFirst (n - 1) x ys else y # removeFirst n x ys)"

definition removeCount :: "int \<Rightarrow> 'a \<Rightarrow> 'a list \<Rightarrow> 'a list" where
  "removeCount n x xs = (if n = 0 then filter (\<lambda>y. y \<noteq> x) xs else if n > 0 then removeFirst (nat n) x xs
     else rev (removeFirst (nat (- n)) x (rev xs)))"

definition specRemove :: "int \<Rightarrow> bytes \<Rightarrow> keyView \<Rightarrow> (commandError + nat) \<times> keyView" where
  "specRemove n x v = onList (Inr 0) (\<lambda>t xs. let ys = removeCount n x xs in (Inr (length xs - length ys), keep t ys)) v"

fun insertAround :: "bool \<Rightarrow> 'a \<Rightarrow> 'a \<Rightarrow> 'a list \<Rightarrow> 'a list option" where
  "insertAround before p x [] = None"
| "insertAround before p x (y # ys) = (if y = p then Some (if before then x # y # ys else y # x # ys) else map_option ((#) y) (insertAround before p x ys))"

definition specInsert :: "bool \<Rightarrow> bytes \<Rightarrow> bytes \<Rightarrow> keyView \<Rightarrow> (commandError + int) \<times> keyView" where
  "specInsert before p x v = onList (Inr 0) (\<lambda>t xs. case insertAround before p x xs of None \<Rightarrow> (Inr (- 1), Elements t xs)
     | Some ys \<Rightarrow> (Inr (int (length ys)), Elements t ys)) v"

definition specReplace :: "bytes list \<Rightarrow> keyView \<Rightarrow> (commandError + unit) \<times> keyView" where
  "specReplace xs v = (Inr (), keep 0 xs)"

text \<open>The positions of an element: scanned from the chosen end, at most \<open>maxLen\<close> comparisons, skipping the first matches
  up to the rank.\<close>

definition positions :: "bytes \<Rightarrow> int \<Rightarrow> int \<Rightarrow> int \<Rightarrow> bool \<Rightarrow> bytes list \<Rightarrow> nat list" where
  "positions x rank n maxLen withCount xs =
     (let order = (if rank > 0 then [0 ..< length xs] else rev [0 ..< length xs]);
          scanned = (if maxLen > 0 then take (nat maxLen) order else order);
          matches = drop (nat \<bar>rank\<bar> - 1) (filter (\<lambda>i. xs ! i = x) scanned) in
      if \<not> withCount then take 1 matches else if n > 0 then take (nat n) matches else matches)"

subsection \<open>Loops\<close>

lemma removeFirst_0 [simp]: "removeFirst 0 x ys = ys"
  by (induction ys) simp_all

lemma removeFirst_all: "length ys \<le> n \<Longrightarrow> removeFirst n x ys = filter (\<lambda>y. y \<noteq> x) ys"
  by (induction n x ys rule: removeFirst.induct) auto

lemma removeFirst_min: "removeFirst (if n < length ys then n else length ys) x ys = removeFirst n x ys"
  using removeFirst_all [of ys n x] removeFirst_all [of ys "length ys" x] by simp

lemma removeFirst_length: "length (removeFirst n x ys) \<le> length ys"
  by (induction n x ys rule: removeFirst.induct) auto

lemma removeFirst_same: "length (removeFirst n x ys) = length ys \<Longrightarrow> removeFirst n x ys = ys"
proof (induction n x ys rule: removeFirst.induct)
  case (2 n x y ys)
  then show ?case using removeFirst_length [of "n - 1" x ys] by (auto split: if_splits)
qed simp

lemma removeCount_same:
  assumes "length (removeCount n x xs) = length xs"
  shows "removeCount n x xs = xs"
proof -
  have "filter P xs = xs" if "length (filter P xs) = length xs" for P using that by (metis filter_id_conv length_filter_less less_irrefl)
  then show ?thesis using assms removeFirst_same [of "nat n" x xs] removeFirst_same [of "nat (- n)" x "rev xs"]
    by (auto simp: removeCount_def split: if_splits)
qed

definition keptBy :: "bytes list \<Rightarrow> bool list \<Rightarrow> bytes list" where
  "keptBy xs marks = map fst (filter (\<lambda>(x, m). \<not> m) (zip xs marks))"

lemma keptBy_simps [simp]: "keptBy [] ms = []" "keptBy (x # xs) (m # ms) = (if m then keptBy xs ms else x # keptBy xs ms)"
  "keptBy xs (replicate (length xs) False) = xs"
proof -
  show "keptBy xs (replicate (length xs) False) = xs" by (induction xs) (simp_all add: keptBy_def)
qed (simp_all add: keptBy_def)

lemma keptBy_rev: "length ms = length xs \<Longrightarrow> keptBy xs (rev ms) = rev (keptBy (rev xs) ms)"
  using zip_rev [of "rev xs" ms] by (simp add: keptBy_def rev_map rev_filter [symmetric])

lemma markForward_all:
  assumes "markForward x 0 limit xs removed = (ms, r)"
  shows "length ms = length xs \<and> keptBy xs ms = filter (\<lambda>y. y \<noteq> x) xs \<and> r + length (filter (\<lambda>y. y \<noteq> x) xs) = removed + length xs"
  using assms
proof (induction xs arbitrary: ms r removed)
  case (Cons y ys)
  then show ?case by (fastforce split: if_splits prod.splits)
qed simp

lemma markForward_some:
  assumes "markForward x n limit xs removed = (ms, r)" "0 < n" "removed \<le> limit"
  shows "length ms = length xs \<and> keptBy xs ms = removeFirst (limit - removed) x xs \<and> r + length (removeFirst (limit - removed) x xs) = removed + length xs"
  using assms
proof (induction xs arbitrary: ms r removed)
  case (Cons y ys)
  consider "y = x" "removed + 1 = limit" | "y = x" "removed + 1 < limit" | "y \<noteq> x \<or> limit = removed" using Cons.prems(3) by linarith
  then show ?case
  proof cases
    case 1
    then have "ms = True # replicate (length ys) False" "r = removed + 1" using Cons.prems(1,2) by simp_all
    moreover have "limit - removed = 1" using 1(2) by simp
    ultimately show ?thesis using 1(1) by simp
  next
    case 2
    then have "(case markForward x n limit ys (removed + 1) of (marks, r) \<Rightarrow> (True # marks, r)) = (ms, r)" using Cons.prems(1,2) by simp
    then obtain ms' where m: "markForward x n limit ys (removed + 1) = (ms', r)" "ms = True # ms'" by (cases "markForward x n limit ys (removed + 1)") simp
    have "length ms' = length ys" "keptBy ys ms' = removeFirst (limit - (removed + 1)) x ys" "r + length (removeFirst (limit - (removed + 1)) x ys) = (removed + 1) + length ys"
      using Cons.IH [OF m(1)] Cons.prems(2) 2 by simp_all
    then show ?thesis using m(2) 2 by simp
  next
    case 3
    then have "(case markForward x n limit ys removed of (marks, r) \<Rightarrow> (False # marks, r)) = (ms, r)" using Cons.prems by auto
    then obtain ms' where m: "markForward x n limit ys removed = (ms', r)" "ms = False # ms'" by (cases "markForward x n limit ys removed") simp
    have "length ms' = length ys" "keptBy ys ms' = removeFirst (limit - removed) x ys" "r + length (removeFirst (limit - removed) x ys) = removed + length ys"
      using Cons.IH [OF m(1)] Cons.prems(2,3) by simp_all
    then show ?thesis using m(2) 3 by auto
  qed
qed simp

lemma markBackward_some:
  assumes "markBackward x limit xs removed = (ms, r)" "removed \<le> limit"
  shows "length ms = length xs \<and> keptBy xs ms = removeFirst (limit - removed) x xs \<and> r + length (removeFirst (limit - removed) x xs) = removed + length xs"
  using assms
proof (induction xs arbitrary: ms r removed)
  case (Cons y ys)
  consider "limit = removed" | "y = x" "removed < limit" | "y \<noteq> x" "removed < limit" using Cons.prems(2) by linarith
  then show ?case
  proof cases
    case 1
    then have "ms = replicate (length (y # ys)) False" "r = removed" using Cons.prems(1) by simp_all
    then show ?thesis using 1 keptBy_simps(3) [of "y # ys"] by simp
  next
    case 2
    obtain ms' where m: "markBackward x limit ys (removed + 1) = (ms', r)" "ms = True # ms'"
      using Cons.prems(1) 2 by (cases "markBackward x limit ys (removed + 1)") simp
    have "length ms' = length ys" "keptBy ys ms' = removeFirst (limit - (removed + 1)) x ys" "r + length (removeFirst (limit - (removed + 1)) x ys) = (removed + 1) + length ys"
      using Cons.IH [OF m(1)] 2 by simp_all
    then show ?thesis using m(2) 2 by simp
  next
    case 3
    obtain ms' where m: "markBackward x limit ys removed = (ms', r)" "ms = False # ms'"
      using Cons.prems(1) 3 by (cases "markBackward x limit ys removed") simp
    have "length ms' = length ys" "keptBy ys ms' = removeFirst (limit - removed) x ys" "r + length (removeFirst (limit - removed) x ys) = removed + length ys"
      using Cons.IH [OF m(1)] 3 by simp_all
    then show ?thesis using m(2) 3 by simp
  qed
qed simp

lemma removeMarks_ok:
  assumes m: "removeMarks xs n x = (ms, r)" and len: "length xs < 2 ^ 63"
  shows "keptBy xs ms = removeCount n x xs \<and> r + length (removeCount n x xs) = length xs"
proof -
  consider "n = 0" | "0 < n" | "n < 0" by linarith
  then show ?thesis
  proof cases
    case 1
    then show ?thesis using m markForward_all [of x "length xs" xs 0 ms r] by (simp add: removeMarks_def removeCount_def)
  next
    case 2
    have l: "n < int (length xs) \<longleftrightarrow> nat n < length xs" using 2 by auto
    show ?thesis using 2 m markForward_some [of x n "if nat n < length xs then nat n else length xs" xs 0 ms r] removeFirst_min [of "nat n" xs x]
      by (simp add: removeMarks_def removeCount_def Let_def l)
  next
    case 3
    define limit where "limit = (if n \<noteq> - (2 ^ 63) then if - n < int (length xs) then nat (- n) else length xs else length xs)"
    have "removeMarks xs n x = (case markBackward x limit (rev xs) 0 of (marks, removed) \<Rightarrow> (rev marks, removed))"
      unfolding removeMarks_def limit_def Let_def using 3 by simp
    then obtain ms' where b: "markBackward x limit (rev xs) 0 = (ms', r)" "ms = rev ms'"
      using m by (cases "markBackward x limit (rev xs) 0") simp
    have "removeFirst limit x (rev xs) = removeFirst (nat (- n)) x (rev xs)"
      using 3 len removeFirst_all [of "rev xs" "length xs" x] removeFirst_all [of "rev xs" "nat (- n)" x] by (auto simp: limit_def)
    then show ?thesis using markBackward_some [OF b(1)] keptBy_rev [of ms' xs] b(2) 3 by (simp add: removeCount_def)
  qed
qed

lemma pivotLoop_insert:
  "case pivotLoop p xs i of None \<Rightarrow> insertAround before p x xs = None
   | Some k \<Rightarrow> i \<le> k \<and> k - i < length xs \<and> insertAround before p x xs = (let at' = (if before then k - i else k - i + 1) in Some (take at' xs @ [x] @ drop at' xs))"
proof (induction p xs i rule: pivotLoop.induct)
  case (2 p y ys i)
  show ?case
  proof (cases "y = p \<or> pivotLoop p ys (i + 1) = None")
    case False
    then obtain k where k: "pivotLoop p ys (i + 1) = Some k" by blast
    then obtain j where "k = Suc (i + j)" using 2 False le_Suc_ex [of "Suc i" k] by auto
    then show ?thesis using 2 False k by (simp add: Let_def)
  qed (use 2 in \<open>auto simp: Let_def\<close>)
qed simp

definition someOf :: "bool \<Rightarrow> int \<Rightarrow> nat \<Rightarrow> 'a list \<Rightarrow> 'a list" where
  "someOf withCount n k ms = (if \<not> withCount then take 1 ms else if n > 0 then take (nat n - k) ms else ms)"

lemma posLoop_eq:
  assumes "withCount \<and> 0 < n \<longrightarrow> length res < nat n"
  shows "posLoop xs x wanted n maxLen withCount is seen scanned res = res @ someOf withCount n (length res)
    (drop (wanted - 1 - seen) (filter (\<lambda>i. xs ! i = x) (if maxLen > 0 then take (nat (maxLen - scanned)) is else is)))"
  using assms
proof (induction "is" arbitrary: seen scanned res)
  case (Cons i "is")
  define rest where "rest = (if maxLen > 0 then take (nat (maxLen - (scanned + 1))) is else is)"
  show ?case
  proof (cases "maxLen > 0 \<and> scanned \<ge> maxLen")
    case True
    then show ?thesis by (simp add: someOf_def)
  next
    case False
    have sc: "(if maxLen > 0 then take (nat (maxLen - scanned)) (i # is) else i # is) = i # rest"
    proof (cases "maxLen > 0")
      case True
      then have "nat (maxLen - scanned) = Suc (nat (maxLen - (scanned + 1)))" using False by simp
      then show ?thesis using True by (simp add: rest_def)
    qed (simp add: rest_def)
    note st = posLoop.simps(2) [of xs x wanted n maxLen withCount i "is" seen scanned res, unfolded if_not_P [OF False]]
    consider "xs ! i \<noteq> x" | "xs ! i = x" "seen + 1 < wanted" | "xs ! i = x" "wanted \<le> seen + 1" by linarith
    then show ?thesis
    proof cases
      case 1
      then show ?thesis using Cons.IH [OF Cons.prems, of seen "scanned + 1"] unfolding sc st by (simp add: rest_def)
    next
      case 2
      then have "wanted - 1 - seen = Suc (wanted - 1 - (seen + 1))" by simp
      then show ?thesis using 2 Cons.IH [OF Cons.prems, of "seen + 1" "scanned + 1"] unfolding sc st by (simp add: rest_def)
    next
      case 3
      show ?thesis
      proof (cases "\<not> withCount \<or> n > 0 \<and> int (length (res @ [i])) \<ge> n")
        case True
        then have "someOf withCount n (length res) (i # ms) = [i]" for ms using Cons.prems by (auto simp: someOf_def Suc_le_eq) (metis Suc_diff_Suc diff_is_0_eq' less_eq_nat.simps(1) nat_le_iff of_nat_Suc take0 take_Suc_Cons)
        then show ?thesis using True 3 unfolding sc st by (simp add: Let_def)
      next
        case more: False
        have "withCount \<and> 0 < n \<longrightarrow> length (res @ [i]) < nat n" using more by auto
        note ih = Cons.IH [OF this, of "seen + 1" "scanned + 1"]
        have "someOf withCount n (length res) (i # ms) = i # someOf withCount n (length (res @ [i])) ms" for ms
          using more Cons.prems by (cases "n > 0") (auto simp: someOf_def take_Cons')
        moreover have "\<not> xs ! i \<noteq> x" "\<not> seen + 1 < wanted" using 3 by simp_all
        ultimately show ?thesis using 3 unfolding sc st Let_def if_not_P [OF more] ih by (simp add: rest_def)
      qed
    qed
  qed
qed (simp add: someOf_def)

subsection \<open>Writers\<close>

lemma cmd_pushX:
  assumes ok: "holds h w C" "lists_ok C" and room: "roomy h w key now"
  shows "meets h w C key now (listPushX h w key vals left now) (specPushX left vals (viewOf C now key))"
proof (cases "vals = []")
  case True
  then show ?thesis using meets_return [OF ok, of key now "Inl BadElementCount"] by (simp add: listPushX_def specPushX_def)
next
  case False
  have "meets h w C key now (lookupLive h w key now True \<bind> (\<lambda>(w, old). case old of None \<Rightarrow> Some (Inr 0, w)
      | Some e \<Rightarrow> withElements w e (\<lambda>xs. let ys = pushed left xs vals in publishPacked h w key e ys (length ys))))
    (onList (Inr 0) (\<lambda>t xs. (Inr (length xs + length vals), Elements t (pushed left xs vals))) (viewOf C now key))"
  proof (rule edit_ok [OF ok room])
    fix e t and xs :: "bytes list"
    assume a: "space w key" "expirationAt (w_shard w) key e = Some t" "t = 0 \<or> now < t" "xs \<noteq> []"
    show "achieves h C (slack w) key now (let ys = pushed left xs vals in publishPacked h w key e ys (length ys))
      (fst (Inr (length xs + length vals), Elements t (pushed left xs vals))) (snd (Inr (length xs + length vals), Elements t (pushed left xs vals)))"
      using achieves_packed [OF ok refl a(1) _ a(3,2), of "pushed left xs vals"] a(4) by simp
  qed
  moreover have "(length vals = 0) = False" "(vals = []) = False" using False by simp_all
  ultimately show ?thesis by (simp only: listPushX_def specPushX_def if_False)
qed

lemma cmd_set:
  assumes ok: "holds h w C" "lists_ok C" and room: "roomy h w key now"
  shows "meets h w C key now (ListSet h w key i x now) (specSet i x (viewOf C now key))"
  unfolding ListSet_def specSet_def
proof (rule edit_ok [OF ok room])
  fix e t and xs :: "bytes list"
  assume v: "viewOf C now key = Elements t xs" and a: "space w key" "expirationAt (w_shard w) key e = Some t" "t = 0 \<or> now < t" "xs \<noteq> []"
  define j where "j = (if i < 0 then i + int (length xs) else i)"
  have n: "redisIndex xs i = None \<longleftrightarrow> j < 0 \<or> j \<ge> int (length xs)" by (simp add: redisIndex_def Let_def j_def)
  show "achieves h C (slack w) key now (let n = int (length xs); index = if i < 0 then i + n else i
      in if index < 0 \<or> index \<ge> n then Some (Inl IndexOutOfRange, w) else publishPacked h w key e (xs[nat index := x]) ())
    (fst (if redisIndex xs i = None then (Inl IndexOutOfRange, Elements t xs) else (Inr (), Elements t (xs[nat (if i < 0 then i + int (length xs) else i) := x]))))
    (snd (if redisIndex xs i = None then (Inl IndexOutOfRange, Elements t xs) else (Inr (), Elements t (xs[nat (if i < 0 then i + int (length xs) else i) := x]))))"
    unfolding Let_def j_def [symmetric] n
    using achieves_return [OF ok refl v, of "Inl IndexOutOfRange :: commandError + unit"] achieves_packed [OF ok refl a(1) _ a(3,2), of "xs[nat j := x]" "()"] a(4) by simp
qed

lemma normalize_range:
  "case normalizeListRange (int (length xs)) i j of None \<Rightarrow> redisRange xs i j = []
   | Some (from, to) \<Rightarrow> redisRange xs i j = take (nat (to + 1 - from)) (drop (nat from) xs) \<and> redisRange xs i j \<noteq> []"
proof -
  have c: "clampRange (length xs) i j = map_option (\<lambda>(from, to). (nat from, nat (to + 1))) (normalizeListRange (int (length xs)) i j)"
    unfolding clampRange_def normalizeListRange_def Let_def by simp
  show ?thesis
  proof (cases "normalizeListRange (int (length xs)) i j")
    case None
    then show ?thesis using c clampRange_redisRange [of xs i j] by simp
  next
    case (Some p)
    obtain a b where p: "p = (a, b)" by fastforce
    then have n: "0 \<le> a" "a \<le> b" using Some by (auto simp: normalizeListRange_def Let_def split: if_splits)
    have r: "nat a < nat (b + 1)" "nat (b + 1) \<le> length xs" "redisRange xs i j = map ((!) xs) [nat a ..< nat (b + 1)]"
      using c clampRange_redisRange [of xs i j] Some p by simp_all
    have "nat (b + 1) - nat a = nat (b + 1 - a)" using n by simp
    then have "redisRange xs i j = take (nat (b + 1 - a)) (drop (nat a) xs)" using r(3) map_nth_range [OF r(2), of "nat a"] by simp
    moreover have "[nat a ..< nat (b + 1)] \<noteq> []" using r(1) by (simp only: upt_eq_Nil_conv) linarith
    then have "redisRange xs i j \<noteq> []" unfolding r(3) by (simp only: map_is_Nil_conv) simp
    ultimately show ?thesis using Some p by (simp only: option.case prod.case) blast
  qed
qed

lemma cmd_trim:
  assumes ok: "holds h w C" "lists_ok C" and room: "roomy h w key now"
  shows "meets h w C key now (ListTrim h w key i j now) (specTrim i j (viewOf C now key))"
  unfolding ListTrim_def specTrim_def
proof (rule edit_ok [OF ok room])
  fix e t and xs :: "bytes list"
  assume a: "space w key" "expirationAt (w_shard w) key e = Some t" "t = 0 \<or> now < t" "xs \<noteq> []"
  show "achieves h C (slack w) key now (case normalizeListRange (int (length xs)) i j of None \<Rightarrow> map_option (\<lambda>w. (Inr (), w)) (removeKey h w key now)
      | Some (from, to) \<Rightarrow> publishPacked h w key e (take (nat (to + 1 - from)) (drop (nat from) xs)) ())
    (fst (Inr (), keep t (redisRange xs i j))) (snd (Inr (), keep t (redisRange xs i j)))"
  proof (cases "normalizeListRange (int (length xs)) i j")
    case None
    then show ?thesis using normalize_range [of xs i j] remove_achieves [OF ok refl, of key now "()"] by (simp add: keep_def)
  next
    case (Some p)
    obtain b c where p: "p = (b, c)" by fastforce
    have r: "redisRange xs i j = take (nat (c + 1 - b)) (drop (nat b) xs)" "redisRange xs i j \<noteq> []"
      using normalize_range [of xs i j] unfolding Some p option.case prod.case by (rule conjunct1, rule conjunct2)
    show ?thesis unfolding Some p option.case prod.case r(1) [symmetric] keep_def if_not_P [OF r(2)] fst_conv snd_conv
      by (rule achieves_packed [OF ok refl a(1) r(2) a(3,2)])
  qed
qed

lemma list_ok_count: "list_ok d xs \<Longrightarrow> length xs < 2 ^ 63"
proof -
  assume d: "list_ok d xs"
  have "length xs \<le> length d"
  proof (cases "isIndexedList d")
    case True
    then obtain w cap used ps where "indexed_rep d w cap used ps xs" using d by (auto simp: list_ok_def indexed_ok_def)
    then have "w = 2 \<or> w = 4" "length xs \<le> cap" "15 + cap * w + used \<le> length d" by (simp_all add: indexed_rep_def head_ok_def room_ok_def)
    then show ?thesis by auto
  qed (use d length_recs_ge [of xs] in \<open>auto simp: list_ok_def cold_ok_def packed_ok_def Let_def split: if_splits\<close>)
  then show ?thesis using list_ok_size [OF d] by (simp add: maxPackedListBytes_def)
qed

lemma cmd_remove:
  assumes ok: "holds h w C" "lists_ok C" and room: "roomy h w key now"
  shows "meets h w C key now (ListRemove h w key n x now) (specRemove n x (viewOf C now key))"
  unfolding ListRemove_def specRemove_def
proof (rule edit_ok [OF ok room])
  fix e t and xs :: "bytes list" and d
  assume v: "viewOf C now key = Elements t xs" and a: "space w key" "expirationAt (w_shard w) key e = Some t" "t = 0 \<or> now < t" "xs \<noteq> []" and d: "list_ok d xs"
  obtain ms r where m: "removeMarks xs n x = (ms, r)" by fastforce
  define ys where "ys = removeCount n x xs"
  have k: "keptBy xs ms = ys" "r + length ys = length xs" using removeMarks_ok [OF m list_ok_count [OF d]] by (simp_all add: ys_def)
  have same: "ys = xs" if "r = 0" using removeCount_same [of n x xs] k(2) that by (simp add: ys_def)
  show "achieves h C (slack w) key now (let (marks, removed) = removeMarks xs n x in if removed = 0 then Some (Inr 0, w)
      else if removed = length xs then map_option (\<lambda>w. (Inr removed, w)) (removeKey h w key now)
      else publishPacked h w key e (map fst (filter (\<lambda>(x, m). \<not> m) (zip xs marks))) removed)
    (fst (let ys = removeCount n x xs in (Inr (length xs - length ys), keep t ys))) (snd (let ys = removeCount n x xs in (Inr (length xs - length ys), keep t ys)))"
    unfolding m Let_def prod.case keptBy_def [symmetric] k(1) ys_def [symmetric] fst_conv snd_conv
  proof -
    consider "r = 0" | "r \<noteq> 0" "r = length xs" | "r \<noteq> 0" "r \<noteq> length xs" by blast
    then show "achieves h C (slack w) key now (if r = 0 then Some (Inr 0, w) else if r = length xs then map_option (\<lambda>w. (Inr r, w)) (removeKey h w key now)
      else publishPacked h w key e ys r) (Inr (length xs - length ys)) (keep t ys)"
    proof cases
      case 1
      then show ?thesis using same achieves_return [OF ok refl v, of "Inr 0 :: commandError + nat"] a(4) by (simp add: keep_def)
    next
      case 2
      then show ?thesis using k(2) remove_achieves [OF ok refl, of key now r] a(4) by (simp add: keep_def)
    next
      case 3
      then have "ys \<noteq> []" "length xs - length ys = r" using k(2) by auto
      then show ?thesis using 3 achieves_packed [OF ok refl a(1) _ a(3,2), of ys r] by (simp add: keep_def)
    qed
  qed
qed

lemma cmd_insert:
  assumes ok: "holds h w C" "lists_ok C" and room: "roomy h w key now"
  shows "meets h w C key now (ListInsert h w key before p x now) (specInsert before p x (viewOf C now key))"
  unfolding ListInsert_def specInsert_def
proof (rule edit_ok [OF ok room])
  fix e t and xs :: "bytes list"
  assume v: "viewOf C now key = Elements t xs" and a: "space w key" "expirationAt (w_shard w) key e = Some t" "t = 0 \<or> now < t" "xs \<noteq> []"
  let ?spec = "case insertAround before p x xs of None \<Rightarrow> (Inr (- 1), Elements t xs) | Some ys \<Rightarrow> (Inr (int (length ys)), Elements t ys)"
  show "achieves h C (slack w) key now (case pivotLoop p xs 0 of None \<Rightarrow> Some (Inr (- 1), w)
      | Some pivotIndex \<Rightarrow> let insertAt = if before then pivotIndex else pivotIndex + 1; result = take insertAt xs @ [x] @ drop insertAt xs
          in publishPacked h w key e result (int (length result))) (fst ?spec) (snd ?spec)"
  proof (cases "pivotLoop p xs 0")
    case None
    then show ?thesis using pivotLoop_insert [of before p x xs 0] achieves_return [OF ok refl v, of "Inr (- 1) :: commandError + int"] by simp
  next
    case (Some k)
    define ys where "ys = (let at' = (if before then k else k + 1) in take at' xs @ [x] @ drop at' xs)"
    have "insertAround before p x xs = Some ys" using pivotLoop_insert [of before p x xs 0] Some by (simp add: ys_def Let_def)
    moreover have "ys \<noteq> []" by (simp add: ys_def Let_def)
    ultimately show ?thesis using Some achieves_packed [OF ok refl a(1) _ a(3,2), of ys "int (length ys)"] unfolding ys_def Let_def by simp
  qed
qed

lemma cmd_replace:
  assumes ok: "holds h w C" "lists_ok C" and sp: "space w key"
  shows "meets h w C key now (ListReplace h w key xs now) (specReplace xs (viewOf C now key))"
proof (cases "xs = []")
  case True
  then show ?thesis using remove_achieves [OF ok refl, of key now "()"] by (simp add: meets_def ListReplace_def specReplace_def keep_def)
next
  case False
  have "achieves h C (slack w) key now (tryLayout w (encodePackedList xs) (\<lambda>packed. publishReply h w key (listPreparedEntry packed 0) ())) (Inr ()) (Elements 0 xs)"
  proof (rule achieves_try)
    fix d assume "encodePackedList xs = Inr d"
    then have "list_ok d xs" by (intro list_ok_packed encodePackedList_ok)
    then show "achieves h C (slack w) key now (publishReply h w key (listPreparedEntry d 0) ()) (Inr ()) (Elements 0 xs)"
      by (rule achieves_publish [OF ok refl sp _ False]) simp
  qed (use ok packed_errors in auto)
  then show ?thesis using False by (simp add: meets_def ListReplace_def specReplace_def keep_def)
qed

lemma pop_slow:
  assumes ok: "holds h w C" "lists_ok C" and sp: "space w key" and t: "expirationAt (w_shard w) key e = Some t" "t = 0 \<or> now < t"
    and v: "viewOf C now key = Elements t xs" and xs: "xs \<noteq> []" and n: "0 \<le> n"
  shows "achieves h C (slack w) key now (if n = 0 then Some (Inr (Some []), w) else popElements h w key e xs (nat n) left now)
    (Inr (Some (take (nat n) (if left then xs else rev xs)))) (keep t (if left then drop (nat n) xs else take (length xs - nat n) xs))"
proof (cases "n = 0")
  case True
  then show ?thesis using achieves_return [OF ok refl v, of "Inr (Some []) :: commandError + bytes list option"] xs by (simp add: keep_def)
next
  case False
  define c where "c = (if nat n > length xs then length xs else nat n)"
  define out where "out = (if left then take c xs else take c (rev xs))"
  define kept where "kept = (if left then drop c xs else take (length xs - c) xs)"
  have e: "out = take (nat n) (if left then xs else rev xs)" "kept = (if left then drop (nat n) xs else take (length xs - nat n) xs)"
    by (auto simp: out_def kept_def c_def)
  have "popElements h w key e xs (nat n) left now = (if length kept = 0 then map_option (\<lambda>w. (Inr (Some out), w)) (removeKey h w key now) else publishPacked h w key e kept (Some out))"
    unfolding popElements_def Let_def c_def [symmetric] out_def [symmetric] kept_def [symmetric] ..
  then show ?thesis unfolding e [symmetric] using False remove_achieves [OF ok refl, of key now "Some out"] achieves_packed [OF ok refl sp _ t(2,1), of kept "Some out"]
    by (simp add: keep_def)
qed

lemma cmd_pop:
  assumes ok: "holds h w C" "lists_ok C" and room: "roomy h w key now"
  shows "meets h w C key now (listPop h w key n left now) (specPop left n (viewOf C now key))"
proof (cases "n < 0")
  case True
  then show ?thesis using meets_return [OF ok, of key now "Inl NegativeCount"] by (simp add: listPop_def specPop_def)
next
  case n: False
  from ok room show ?thesis
  proof (cases rule: lookup_cases)
    case (Missing w')
    have "achieves h (C(key := None)) (slack w) key now (Some (Inr None, w')) (Inr None :: commandError + bytes list option) keyView.Missing"
      by (rule achieves_return [OF Missing(3) lists_ok_drop [OF ok(2)] Missing(4) viewOf_drop])
    then show ?thesis using missing_start [OF Missing(1)] n Missing(1,2) by (simp add: meets_def onList_def specPop_def listPop_def)
  next
    case (Wrong e)
    then show ?thesis using meets_return [OF ok, of key now "Inl WrongType"] n by (simp add: onList_def specPop_def listPop_def)
  next
    case (Found e c xs L)
    let ?t = "c_expiresAt c" and ?d = "c_data c"
    define out kept where "out = take (nat n) (if left then xs else rev xs)" and "kept = (if left then drop (nat n) xs else take (length xs - nat n) xs)"
    have goal: "meets h w C key now q (specPop left n (viewOf C now key)) \<longleftrightarrow> achieves h C (slack w) key now q (Inr (Some out)) (keep ?t kept)" for q
      using n Found(1) by (simp add: meets_def specPop_def onList_def out_def kept_def)
    have slow: "achieves h C (slack w) key now (if n = 0 then Some (Inr (Some []), w) else popElements h w key e xs (nat n) left now) (Inr (Some out)) (keep ?t kept)"
      unfolding out_def kept_def using pop_slow [OF ok Found(14,12,13,1,7)] n by simp
    show ?thesis
    proof (cases "0 < n \<and> isIndexedList ?d")
      case True
      then have ix: "indexed_ok ?d xs" using Found(6) by (simp add: list_ok_def)
      show ?thesis
      proof (cases "0 < nat n \<and> nat n + indexedListPopMinCount \<le> length xs")
        case fast: True
        then obtain d' where d': "indexedListPop ?d (nat n) left = Inr (Some (out, d'))" "length d' = length ?d" "indexed_ok d' kept"
          using indexedListPop_cases [OF ix, of "nat n" left] by (auto simp: out_def kept_def)
        have "0 < indexedListPopMinCount" by (simp add: indexedListPopMinCount_def indexedListPromoteElements_def)
        then have ne: "kept \<noteq> []" using fast by (auto simp: kept_def)
        have "achieves h C (slack w) key now (map_option (\<lambda>sh. (Inr (Some out), w\<lparr>w_shard := sh\<rparr>)) (storeEncoded (w_shard w) e d')) (Inr (Some out)) (Elements ?t kept)"
          using True by (intro achieves_inplace [OF Found(8) ok(2) refl Found(9,4,10,5,13) _ d'(2,3) ne]) simp
        then show ?thesis using True n d'(1) ne Found(2,3,11) unfolding goal by (simp add: listPop_def keep_def)
      next
        case False
        then have "indexedListPop ?d (nat n) left = Inr None" using indexedListPop_cases [OF ix, of "nat n" left] by (simp split: if_splits)
        then show ?thesis using slow True n Found(2,3,11) elements_of [OF Found(11,6)] unfolding goal by (simp add: listPop_def tryLayout_def)
      qed
    next
      case False
      then have "(if n > 0 then do { physical \<leftarrow> encoded (w_shard w) e; if isIndexedList physical then
          case indexedListPop physical (nat n) left of Inl _ \<Rightarrow> None | Inr popped \<Rightarrow> Some popped else Some None } else Some None) = Some None"
        using Found(11) by auto
      then show ?thesis using slow n Found(2,3,11) elements_of [OF Found(11,6)] unfolding goal by (simp add: listPop_def tryLayout_def)
    qed
  qed
qed

subsection \<open>Readers\<close>

lemmas layout_reads = indexed.elem_rep cold.elem_rep packed.elem_rep indexed.range_rep cold.range_rep indexed.len_rep cold.len_rep packed.len_rep

lemma cmd_len:
  assumes ok: "holds h w C" "lists_ok C"
  shows "meets h w C key now (ListLen h w key now) (specRead 0 length (viewOf C now key))"
  unfolding ListLen_def specRead_def
proof (rule read_ok_list [OF ok])
  fix e d and xs :: "bytes list" assume a: "v_valueType e = TypeList" "encoded (w_shard w) e = Some d" "list_ok d xs"
  have "(if isIndexedList d then rbind (indexedListMeta d) (\<lambda>(cnt, _, _, _). Inr cnt) else if isColdList d then rbind (coldListMeta d) (\<lambda>(cnt, _, _, _). Inr cnt)
      else rbind (packedListMeta d) (\<lambda>(cnt, _). Inr cnt)) = Inr (length xs)"
    using a(3) layout_reads(6-8) [of d xs] by (simp add: list_ok_def indexedListLen_def coldListLen_def packedListLen_def split: if_splits)
  then show "(if v_valueType e \<noteq> TypeList then Some (Inl WrongType, w) else encoded (w_shard w) e \<bind> (\<lambda>physical.
      tryLayout w (if isIndexedList physical then rbind (indexedListMeta physical) (\<lambda>(cnt, _, _, _). Inr cnt)
        else if isColdList physical then rbind (coldListMeta physical) (\<lambda>(cnt, _, _, _). Inr cnt) else rbind (packedListMeta physical) (\<lambda>(cnt, _). Inr cnt))
      (\<lambda>cnt. Some (Inr cnt, w)))) = Some (Inr (length xs), w)"
    using a by (simp add: tryLayout_def)
qed simp

lemma cmd_index:
  assumes ok: "holds h w C" "lists_ok C"
  shows "meets h w C key now (ListIndex h w key i now) (specRead None (\<lambda>xs. redisIndex xs i) (viewOf C now key))"
  unfolding ListIndex_def specRead_def
proof (rule read_ok_list [OF ok])
  fix e d and xs :: "bytes list" assume a: "v_valueType e = TypeList" "encoded (w_shard w) e = Some d" "list_ok d xs"
  have "(if isIndexedList d then indexedListElement d i else if isColdList d then coldListElement d i else packedListElement d i) = Inr (redisIndex xs i)"
    using a(3) layout_reads(1-3) [of d xs i] by (simp add: list_ok_def split: if_splits)
  then show "(if v_valueType e \<noteq> TypeList then Some (Inl WrongType, w) else encoded (w_shard w) e \<bind> (\<lambda>physical.
      tryLayout w (if isIndexedList physical then indexedListElement physical i else if isColdList physical then coldListElement physical i
        else packedListElement physical i) (\<lambda>found. Some (Inr found, w)))) = Some (Inr (redisIndex xs i), w)"
    using a by (simp add: tryLayout_def)
qed simp

lemma cmd_range:
  assumes ok: "holds h w C" "lists_ok C"
  shows "meets h w C key now (ListRange h w key i j now) (specRead [] (\<lambda>xs. redisRange xs i j) (viewOf C now key))"
  unfolding ListRange_def specRead_def
proof (rule read_ok_list [OF ok])
  fix e d and xs :: "bytes list" assume a: "v_valueType e = TypeList" "encoded (w_shard w) e = Some d" "list_ok d xs"
  show "(if v_valueType e \<noteq> TypeList then Some (Inl WrongType, w) else encoded (w_shard w) e \<bind> (\<lambda>physical.
      if isIndexedList physical then tryLayout w (indexedListRange physical i j) (\<lambda>out. Some (Inr out, w))
      else if isColdList physical then tryLayout w (coldListRange physical i j) (\<lambda>out. Some (Inr out, w))
      else listElementsFromEntry (w_shard w) e \<bind> (\<lambda>elements. tryLayout w elements (\<lambda>elements. Some (Inr (elementsRange elements i j), w)))))
    = Some (Inr (redisRange xs i j), w)"
    using a elements_of [OF a(2,3)] layout_reads(4-5) [of d xs i j] elementsRange_eq [of xs i j] by (simp add: tryLayout_def list_ok_def split: if_splits)
qed simp

lemma wanted_rank:
  assumes "rank \<le> 0" "- (2 ^ 63) \<le> rank"
  shows "wantedFromEnd rank - 1 = nat \<bar>rank\<bar> - 1"
proof (cases "rank = 0")
  case True
  then show ?thesis by (simp add: wantedFromEnd_def)
next
  case False
  then have "(- (rank + 1)) mod 2 ^ 64 = - (rank + 1)" using assms by (intro mod_pos_pos_trivial) simp_all
  moreover have "(- rank) mod 2 ^ 64 = - rank" using assms by (intro mod_pos_pos_trivial) simp_all
  ultimately show ?thesis using assms(1) by (simp add: wantedFromEnd_def)
qed

lemma posLoop_positions:
  assumes r: "- (2 ^ 63) \<le> rank"
  shows "(if rank > 0 then posLoop xs x (nat rank) n maxLen withCount [0 ..< length xs] 0 0 [] else posLoop xs x (wantedFromEnd rank) n maxLen withCount (rev [0 ..< length xs]) 0 0 [])
    = positions x rank n maxLen withCount xs"
proof -
  define order where "order = (if rank > 0 then [0 ..< length xs] else rev [0 ..< length xs])"
  define wanted where "wanted = (if rank > 0 then nat rank else wantedFromEnd rank)"
  have w: "wanted - 1 = nat \<bar>rank\<bar> - 1" using r wanted_rank [of rank] by (simp add: wanted_def)
  have "posLoop xs x wanted n maxLen withCount order 0 0 [] = [] @ someOf withCount n (length ([] :: nat list))
      (drop (wanted - 1 - 0) (filter (\<lambda>i. xs ! i = x) (if maxLen > 0 then take (nat (maxLen - 0)) order else order)))"
    by (rule posLoop_eq) simp
  also have "\<dots> = positions x rank n maxLen withCount xs"
    unfolding positions_def someOf_def Let_def order_def [symmetric] list.size(3) diff_zero append_Nil w ..
  finally show ?thesis unfolding wanted_def order_def by (cases "rank > 0") (simp_all only: if_True if_False)
qed

lemma cmd_pos:
  assumes ok: "holds h w C" "lists_ok C" and r: "- (2 ^ 63) \<le> rank"
  shows "meets h w C key now (ListPos h w key x rank n maxLen withCount now) (specRead None (\<lambda>xs. Some (positions x rank n maxLen withCount xs)) (viewOf C now key))"
  unfolding ListPos_def specRead_def
proof (rule read_ok_list [OF ok])
  fix e d and xs :: "bytes list" assume a: "v_valueType e = TypeList" "encoded (w_shard w) e = Some d" "list_ok d xs"
  note posLoop_positions [OF r, of xs x n maxLen withCount]
  then show "withElements w e (\<lambda>elements. Some (Inr (Some (if rank > 0 then posLoop elements x (nat rank) n maxLen withCount [0 ..< length elements] 0 0 []
      else posLoop elements x (wantedFromEnd rank) n maxLen withCount (rev [0 ..< length elements]) 0 0 [])), w)) = Some (Inr (Some (positions x rank n maxLen withCount xs)), w)"
    unfolding withElements_found [OF a] by (simp only:)
qed (simp add: withElements_def)

subsection \<open>The command set\<close>

datatype listCommand = PushLeftCmd "bytes list" | PushRightCmd "bytes list" | PushLeftXCmd "bytes list" | PushRightXCmd "bytes list"
  | PopLeftCmd int | PopRightCmd int | LenCmd | IndexCmd int | RangeCmd int int | SetCmd int bytes | TrimCmd int int | RemoveCmd int bytes
  | InsertCmd bool bytes bytes | ReplaceCmd "bytes list" | PosCmd bytes int int int bool

datatype listReply = Number int | Element "bytes option" | Several "bytes list option" | Done | Positions "nat list option"

definition mapReply :: "('a \<Rightarrow> listReply) \<Rightarrow> 'a outcome \<Rightarrow> listReply outcome" where
  "mapReply f out = map_option (\<lambda>(r, w). (map_sum id f r, w)) out"

fun execCommand :: "(bytes \<Rightarrow> u64) \<Rightarrow> world \<Rightarrow> bytes \<Rightarrow> stamp \<Rightarrow> listCommand \<Rightarrow> listReply outcome" where
  "execCommand h w key now (PushLeftCmd vals) = mapReply (\<lambda>n. Number (int n)) (ListPushLeft h w key vals now)"
| "execCommand h w key now (PushRightCmd vals) = mapReply (\<lambda>n. Number (int n)) (ListPushRight h w key vals now)"
| "execCommand h w key now (PushLeftXCmd vals) = mapReply (\<lambda>n. Number (int n)) (ListPushLeftX h w key vals now)"
| "execCommand h w key now (PushRightXCmd vals) = mapReply (\<lambda>n. Number (int n)) (ListPushRightX h w key vals now)"
| "execCommand h w key now (PopLeftCmd n) = mapReply Several (ListPopLeft h w key n now)"
| "execCommand h w key now (PopRightCmd n) = mapReply Several (ListPopRight h w key n now)"
| "execCommand h w key now LenCmd = mapReply (\<lambda>n. Number (int n)) (ListLen h w key now)"
| "execCommand h w key now (IndexCmd i) = mapReply Element (ListIndex h w key i now)"
| "execCommand h w key now (RangeCmd i j) = mapReply (\<lambda>xs. Several (Some xs)) (ListRange h w key i j now)"
| "execCommand h w key now (SetCmd i x) = mapReply (\<lambda>_. Done) (ListSet h w key i x now)"
| "execCommand h w key now (TrimCmd i j) = mapReply (\<lambda>_. Done) (ListTrim h w key i j now)"
| "execCommand h w key now (RemoveCmd n x) = mapReply (\<lambda>n. Number (int n)) (ListRemove h w key n x now)"
| "execCommand h w key now (InsertCmd before p x) = mapReply Number (ListInsert h w key before p x now)"
| "execCommand h w key now (ReplaceCmd xs) = mapReply (\<lambda>_. Done) (ListReplace h w key xs now)"
| "execCommand h w key now (PosCmd x rank n maxLen withCount) = mapReply Positions (ListPos h w key x rank n maxLen withCount now)"

definition mapSpec :: "('a \<Rightarrow> listReply) \<Rightarrow> (commandError + 'a) \<times> keyView \<Rightarrow> (commandError + listReply) \<times> keyView" where
  "mapSpec f s = (map_sum id f (fst s), snd s)"

fun specCommand :: "listCommand \<Rightarrow> keyView \<Rightarrow> (commandError + listReply) \<times> keyView" where
  "specCommand (PushLeftCmd vals) v = mapSpec (\<lambda>n. Number (int n)) (specPush True vals v)"
| "specCommand (PushRightCmd vals) v = mapSpec (\<lambda>n. Number (int n)) (specPush False vals v)"
| "specCommand (PushLeftXCmd vals) v = mapSpec (\<lambda>n. Number (int n)) (specPushX True vals v)"
| "specCommand (PushRightXCmd vals) v = mapSpec (\<lambda>n. Number (int n)) (specPushX False vals v)"
| "specCommand (PopLeftCmd n) v = mapSpec Several (specPop True n v)"
| "specCommand (PopRightCmd n) v = mapSpec Several (specPop False n v)"
| "specCommand LenCmd v = mapSpec (\<lambda>n. Number (int n)) (specRead 0 length v)"
| "specCommand (IndexCmd i) v = mapSpec Element (specRead None (\<lambda>xs. redisIndex xs i) v)"
| "specCommand (RangeCmd i j) v = mapSpec (\<lambda>xs. Several (Some xs)) (specRead [] (\<lambda>xs. redisRange xs i j) v)"
| "specCommand (SetCmd i x) v = mapSpec (\<lambda>_. Done) (specSet i x v)"
| "specCommand (TrimCmd i j) v = mapSpec (\<lambda>_. Done) (specTrim i j v)"
| "specCommand (RemoveCmd n x) v = mapSpec (\<lambda>n. Number (int n)) (specRemove n x v)"
| "specCommand (InsertCmd before p x) v = mapSpec Number (specInsert before p x v)"
| "specCommand (ReplaceCmd xs) v = mapSpec (\<lambda>_. Done) (specReplace xs v)"
| "specCommand (PosCmd x rank n maxLen withCount) v = mapSpec Positions (specRead None (\<lambda>xs. Some (positions x rank n maxLen withCount xs)) v)"

text \<open>The rank of \<open>ListPos\<close> is a 64-bit integer.\<close>

fun int64Command :: "listCommand \<Rightarrow> bool" where
  "int64Command (PosCmd x rank n maxLen withCount) \<longleftrightarrow> - (2 ^ 63) \<le> rank"
| "int64Command _ \<longleftrightarrow> True"

lemma meets_map:
  assumes "meets h w C key now out s"
  shows "meets h w C key now (mapReply f out) (mapSpec f s)"
proof -
  obtain r w' C' where a: "out = Some (r, w')" "holds h w' C'" "lists_ok C'" "slack w' = slack w" "\<forall>k. k \<noteq> key \<longrightarrow> C' k = C k"
    "r = fst s \<and> viewOf C' now key = snd s \<or> refusal (slack w) r \<and> viewOf C' now key = viewOf C now key"
    using assms unfolding meets_def achieves_def by blast
  have "refusal (slack w) r \<Longrightarrow> refusal (slack w) (map_sum id f r)" by (auto simp: refusal_def)
  then show ?thesis using a unfolding meets_def achieves_def
    by (intro exI [of _ "map_sum id f r"] exI [of _ w'] exI [of _ C']) (auto simp: mapReply_def mapSpec_def)
qed

lemma roomy_space:
  assumes "holds h w C" "roomy h w key now"
  shows "space w key"
proof -
  obtain L where L: "shard_inv h (w_shard w) L C" using assms(1) by (auto simp: holds_def)
  have "has_room (w_shard w) key" if "ent (w_shard w) key = None"
  proof -
    have "lookupLive h w key now True = Some (w, None)" using sh_get_ok [OF shard_parts(1) [OF L], of key] that by (simp add: lookupLive_def)
    then show ?thesis using assms(2) by (simp add: roomy_def)
  qed
  then show ?thesis using assms(2) by (simp add: space_def roomy_def)
qed

lemmas list_commands = push_ok cmd_pushX cmd_pop cmd_set cmd_trim cmd_remove cmd_insert

lemma command_meets:
  assumes ok: "holds h w C" "lists_ok C" and room: "roomy h w key now" and v: "int64Command cmd"
  shows "meets h w C key now (execCommand h w key now cmd) (specCommand cmd (viewOf C now key))"
  using v list_commands [OF ok room] cmd_len [OF ok] cmd_index [OF ok] cmd_range [OF ok] cmd_replace [OF ok roomy_space [OF ok(1) room]] cmd_pos [OF ok]
  by (cases cmd) (simp_all add: meets_map ListPushLeft_def ListPushRight_def ListPushLeftX_def ListPushRightX_def ListPopLeft_def ListPopRight_def)

text \<open>C1: Every list command, on any store whose lists are well formed, returns the reply and leaves the list and the deadline
  that its specification on plain lists gives, whichever layout the list is stored in; or it is refused, for memory when a
  memory limit is set or for the size of the list, and the key keeps what it held. The shard is not at the end of its number
  spaces. It never panics, touches no other key, keeps the stored lists well
  formed, and keeps the memory counters exact.\<close>

theorem list_commands_refine:
  assumes "holds h w C" "lists_ok C" "roomy h w key now" "int64Command cmd"
  shows "\<exists>r w' C'. execCommand h w key now cmd = Some (r, w') \<and> holds h w' C' \<and> lists_ok C' \<and> slack w' = slack w
    \<and> (\<forall>k. k \<noteq> key \<longrightarrow> C' k = C k)
    \<and> ((r, viewOf C' now key) = specCommand cmd (viewOf C now key)
       \<or> (r = Inl OutOfMemory \<and> 0 < m_max (w_memory w) \<or> r = Inl (Layout ListTooLarge)) \<and> viewOf C' now key = viewOf C now key)"
  using command_meets [OF assms] unfolding meets_def achieves_def refusal_def slack_max by (auto simp: prod_eq_iff)

lemma sample_roomy: "roomy h (sampleWorld limit) [107] now" "holds h (sampleWorld limit) Map.empty" "lists_ok Map.empty"
proof -
  have e: "w_shard (sampleWorld limit) = emptyShard" by (simp add: sampleWorld_def)
  then show ok: "holds h (sampleWorld limit) Map.empty" by (rule new_shard)
  obtain L where L: "shard_inv h emptyShard L Map.empty" using ok e by (auto simp: holds_def)
  have "lookupLive h (sampleWorld limit) [107] now True = Some (sampleWorld limit, None)"
    using absent_ok(1) [OF L, of "[107]"] by (simp add: lookupLive_def e)
  moreover have "has_room emptyShard [107]" using sample_fits absent_ok(2) [OF L, of "[107]"] by (simp add: fits_def)
  ultimately show "roomy h (sampleWorld limit) [107] now" by (simp add: roomy_def e) (simp add: emptyShard_def SegmentCount_def emptyArena_def)
qed (simp add: lists_ok_def)

theorem list_commands_refine_witness:
  "\<exists>r w' C'. execCommand (\<lambda>_. 3) (sampleWorld 0) [107] 5 (PushLeftCmd [[1], [2]]) = Some (r, w') \<and> holds (\<lambda>_. 3) w' C'
     \<and> (r = Inr (Number 2) \<and> viewOf C' 5 [107] = Elements 0 [[2], [1]] \<or> viewOf C' 5 [107] = Missing)"
proof -
  have "specCommand (PushLeftCmd [[1], [2]]) (viewOf Map.empty 5 [107]) = (Inr (Number 2), Elements 0 [[2], [1]])" "viewOf Map.empty 5 [107] = Missing"
    by (simp_all add: viewOf_def live_def mapSpec_def specPush_def pushed_def)
  then show ?thesis using list_commands_refine [OF sample_roomy(2,3,1), of "PushLeftCmd [[1], [2]]" "\<lambda>_. 3" 0 5] by auto
qed

text \<open>C13: On a key that holds a live value of another type, every list command but the replacing one, given acceptable
  arguments, answers WRONGTYPE and changes nothing at all.\<close>

theorem list_wrong_type:
  assumes "holds h w C" "live C now key = Some c" "c_type c \<noteq> TypeList"
    "case cmd of ReplaceCmd _ \<Rightarrow> False | PushLeftCmd vals \<Rightarrow> vals \<noteq> [] | PushRightCmd vals \<Rightarrow> vals \<noteq> [] | PushLeftXCmd vals \<Rightarrow> vals \<noteq> []
       | PushRightXCmd vals \<Rightarrow> vals \<noteq> [] | PopLeftCmd n \<Rightarrow> n \<ge> 0 | PopRightCmd n \<Rightarrow> n \<ge> 0 | _ \<Rightarrow> True"
  shows "execCommand h w key now cmd = Some (Inl WrongType, w)"
proof -
  obtain e where "lookupLive h w key now True = Some (w, Some e)" "v_valueType e \<noteq> TypeList" using lookup_found [OF assms(1,2), of True] assms(3) by metis
  moreover obtain e' where "lookupLive h w key now False = Some (w, Some e')" "v_valueType e' \<noteq> TypeList" using lookup_found [OF assms(1,2), of False] assms(3) by metis
  ultimately show ?thesis using assms(4)
    by (cases cmd) (simp_all add: mapReply_def withElements_def ListPushLeft_def ListPushRight_def ListPushLeftX_def ListPushRightX_def ListPopLeft_def ListPopRight_def
      listPush_def listPushX_def listPop_def ListLen_def ListIndex_def ListRange_def ListSet_def ListTrim_def ListRemove_def ListInsert_def ListPos_def)
qed

theorem list_wrong_type_witness:
  "\<exists>w. publish (\<lambda>_. 3) (sampleWorld 0) [107] sampleEntry = Some (True, w) \<and> execCommand (\<lambda>_. 3) w [107] 8 (PopLeftCmd 1) = Some (Inl WrongType, w)"
proof -
  have f: "fits (w_shard (sampleWorld 0)) [107] sampleEntry" using sample_fits by (simp add: sampleWorld_def)
  obtain w where w: "publish (\<lambda>_. 3) (sampleWorld 0) [107] sampleEntry = Some (True, w)" "holds (\<lambda>_. 3) w [[107] \<mapsto> cellOf sampleEntry]"
    using publish_cases [OF sample_roomy(2) f] by (auto simp: sampleWorld_def)
  have "live [[107] \<mapsto> cellOf sampleEntry] 8 [107] = Some (cellOf sampleEntry)" "c_type (cellOf sampleEntry) \<noteq> TypeList"
    by (simp_all add: live_def cellOf_def sampleEntry_def TypeList_def)
  then show ?thesis using w list_wrong_type [OF w(2), of 8 "[107]" "cellOf sampleEntry" "PopLeftCmd 1"] by auto
qed

end
