(* ===== verification/Cleanup.thy ===== *)
theory Cleanup
  imports Keyspace
begin

text \<open>The reclaiming of expired keys (\<open>CleanupExpiredLimit\<close> of \<open>internal/engine/expiration.go\<close>): the shards are visited in order,
  and the keys of a shard are removed in the order of its deadline heap until the first one that is not due, or until the
  limit on removals is met. The shards share one accounting record. The clock is read once when a shard is locked, and once
  more by every removal.\<close>

record storeState =
  st_shards :: "shard list"
  st_memory :: accounting
  st_expired :: u64

partial_function (option) cleanupLoop :: "(bytes \<Rightarrow> u64) \<Rightarrow> (nat \<Rightarrow> stamp) \<Rightarrow> stamp \<Rightarrow> nat \<Rightarrow> world \<Rightarrow> nat \<Rightarrow> (world \<times> nat) option" where
  "cleanupLoop h tick now limit w removed =
     (if 0 < q_Len (sh_expiration (w_shard w)) \<and> removed < limit
      then if now < x_at (q_items (sh_expiration (w_shard w)) ! 0) then Some (w, removed)
           else do {
             w \<leftarrow> removeKey h w (x_key (q_items (sh_expiration (w_shard w)) ! 0)) (tick removed);
             cleanupLoop h tick now limit w (removed + 1)
           }
      else Some (w, removed))"

declare cleanupLoop.simps [code]

fun cleanupShards :: "(bytes \<Rightarrow> u64) \<Rightarrow> (nat \<Rightarrow> stamp) \<Rightarrow> (nat \<Rightarrow> stamp) \<Rightarrow> nat \<Rightarrow> nat \<Rightarrow> shard list \<Rightarrow> accounting \<Rightarrow> u64 \<Rightarrow> nat
    \<Rightarrow> (shard list \<times> accounting \<times> u64 \<times> nat) option" where
  "cleanupShards h clock tick limit i [] m expiredKeys removed = Some ([], m, expiredKeys, removed)"
| "cleanupShards h clock tick limit i (sh # shs) m expiredKeys removed = do {
     (w, removed) \<leftarrow> cleanupLoop h tick (clock i) limit \<lparr>w_shard = sh, w_memory = m, w_expired = expiredKeys\<rparr> removed;
     if limit \<le> removed then Some (w_shard w # shs, w_memory w, w_expired w, removed)
     else do {
       (shs, m, expiredKeys, removed) \<leftarrow> cleanupShards h clock tick limit (Suc i) shs (w_memory w) (w_expired w) removed;
       Some (w_shard w # shs, m, expiredKeys, removed)
     }
   }"

definition CleanupExpiredLimit :: "(bytes \<Rightarrow> u64) \<Rightarrow> (nat \<Rightarrow> stamp) \<Rightarrow> (nat \<Rightarrow> stamp) \<Rightarrow> storeState \<Rightarrow> int \<Rightarrow> (nat \<times> storeState) option" where
  "CleanupExpiredLimit h clock tick st limit =
     (if limit \<le> 0 then Some (0, st)
      else do {
        (shs, m, expiredKeys, removed) \<leftarrow> cleanupShards h clock tick (nat limit) 0 (st_shards st) (st_memory st) (st_expired st) 0;
        Some (removed, \<lparr>st_shards = shs, st_memory = m, st_expired = expiredKeys\<rparr>)
      })"

definition CleanupExpired :: "(bytes \<Rightarrow> u64) \<Rightarrow> (nat \<Rightarrow> stamp) \<Rightarrow> (nat \<Rightarrow> stamp) \<Rightarrow> storeState \<Rightarrow> (nat \<times> storeState) option" where
  "CleanupExpired h clock tick st = CleanupExpiredLimit h clock tick st (2 ^ 63 - 1)"

subsection \<open>One shard\<close>

text \<open>The keys of a shard that are due, and a choice of due keys that takes the earliest deadlines first.\<close>

definition dueKeys :: "stamp \<Rightarrow> (bytes \<rightharpoonup> cell) \<Rightarrow> bytes set" where
  "dueKeys now C = {k. \<exists>t. expiries C k = Some t \<and> t \<le> now}"

definition earliestFirst :: "(bytes \<rightharpoonup> cell) \<Rightarrow> bytes set \<Rightarrow> bytes set \<Rightarrow> bool" where
  "earliestFirst C D E \<longleftrightarrow> D \<subseteq> E \<and> (\<forall>k\<in>D. \<forall>k'\<in>E - D. the (expiries C k) \<le> the (expiries C k'))"

lemma finite_due:
  assumes "holds h w C"
  shows "finite (dueKeys now C)"
proof -
  obtain L where L: "shard_inv h (w_shard w) L C" using assms by (auto simp: holds_def)
  have "dueKeys now C \<subseteq> dom (ent (w_shard w))"
  proof
    fix k assume "k \<in> dueKeys now C"
    then have "C k \<noteq> None" by (auto simp: dueKeys_def expiries_def split: option.splits)
    with shard_parts(4) [OF L] show "k \<in> dom (ent (w_shard w))" by (cases rule: contents_cases [where k = k]) auto
  qed
  then show ?thesis using finite_ent [OF shard_parts(1) [OF L]] by (rule finite_subset)
qed

lemma due_drop: "dueKeys now (C(key := None)) = dueKeys now C - {key}"
  by (auto simp: dueKeys_def expiries_drop)

lemma queue_head:
  assumes "holds h w C"
  shows "q_Len (sh_expiration (w_shard w)) = 0 \<Longrightarrow> dueKeys now C = {}"
    and "0 < q_Len (sh_expiration (w_shard w)) \<Longrightarrow> expiries C (x_key (q_items (sh_expiration (w_shard w)) ! 0)) = Some (due (sh_expiration (w_shard w)) 0)
      \<and> (\<forall>k t. expiries C k = Some t \<longrightarrow> due (sh_expiration (w_shard w)) 0 \<le> t)"
proof -
  obtain L where L: "shard_inv h (w_shard w) L C" using assms by (auto simp: holds_def)
  note e = shard_parts(5) [OF L, symmetric]
  show "q_Len (sh_expiration (w_shard w)) = 0 \<Longrightarrow> dueKeys now C = {}"
    by (simp add: dueKeys_def e deadlines_def q_Len_def)
  show "0 < q_Len (sh_expiration (w_shard w)) \<Longrightarrow> expiries C (x_key (q_items (sh_expiration (w_shard w)) ! 0)) = Some (due (sh_expiration (w_shard w)) 0)
      \<and> (\<forall>k t. expiries C k = Some t \<longrightarrow> due (sh_expiration (w_shard w)) 0 \<le> t)"
    using earliest [OF shard_parts(3) [OF L]] by (simp add: e q_Len_def)
qed

definition cleaned :: "(bytes \<Rightarrow> u64) \<Rightarrow> stamp \<Rightarrow> nat \<Rightarrow> world \<Rightarrow> (bytes \<rightharpoonup> cell) \<Rightarrow> nat \<Rightarrow> world \<Rightarrow> nat \<Rightarrow> bytes set \<Rightarrow> bool" where
  "cleaned h now limit w C removed w' removed' D \<longleftrightarrow> earliestFirst C D (dueKeys now C) \<and> removed' = removed + card D \<and> removed' \<le> limit
     \<and> (removed' < limit \<longrightarrow> D = dueKeys now C) \<and> holds h w' (C |` (- D)) \<and> slack w' = slack w"

lemma cleaned_none:
  assumes "holds h w C" "removed \<le> limit" "removed < limit \<longrightarrow> dueKeys now C = {}"
  shows "cleaned h now limit w C removed w removed {}"
  using assms by (simp add: cleaned_def earliestFirst_def restrict_map_def)

lemma cleaned_step:
  assumes c: "cleaned h now limit w1 (C(key := None)) (Suc removed) w' removed' D" and s: "slack w1 = slack w"
    and k: "expiries C key = Some t" "t \<le> now" "\<forall>k' t'. expiries C k' = Some t' \<longrightarrow> t \<le> t'" and fin: "finite (dueKeys now C)"
  shows "cleaned h now limit w C removed w' removed' (insert key D)"
proof -
  have c: "D \<subseteq> dueKeys now C - {key}" "\<forall>k\<in>D. \<forall>k'\<in>dueKeys now C - {key} - D. the (expiries (C(key := None)) k) \<le> the (expiries (C(key := None)) k')"
    "removed' = Suc removed + card D" "removed' \<le> limit" "removed' < limit \<longrightarrow> D = dueKeys now C - {key}"
    "holds h w' (C(key := None) |` (- D))" "slack w' = slack w1"
    using c unfolding cleaned_def earliestFirst_def due_drop by blast+
  have key: "key \<in> dueKeys now C" using k by (auto simp: dueKeys_def)
  have card: "card (insert key D) = Suc (card D)" using c(1) fin by (subst card_insert_disjoint) (auto intro: finite_subset)
  have order: "the (expiries C a) \<le> the (expiries C b)" if "a \<in> insert key D" "b \<in> dueKeys now C - insert key D" for a b
  proof (cases "a = key")
    case True
    then show ?thesis using that k by (auto simp: dueKeys_def)
  next
    case False
    then have "the (expiries (C(key := None)) a) \<le> the (expiries (C(key := None)) b)" using that c(2) by blast
    then show ?thesis using False that by (simp add: expiries_drop)
  qed
  have m: "C(key := None) |` (- D) = C |` (- insert key D)" by (auto simp: restrict_map_def fun_eq_iff)
  have "removed' < limit \<longrightarrow> insert key D = dueKeys now C" using c(5) key by blast
  moreover have "earliestFirst C (insert key D) (dueKeys now C)" unfolding earliestFirst_def using order c(1) key by blast
  ultimately show ?thesis unfolding cleaned_def card m [symmetric] using c(3,4,6,7) s by simp
qed

lemma cleanupLoop_ok:
  assumes "holds h w C" "removed \<le> limit"
  shows "\<exists>w' removed' D. cleanupLoop h tick now limit w removed = Some (w', removed') \<and> cleaned h now limit w C removed w' removed' D"
  using assms
proof (induction "card (dueKeys now C)" arbitrary: w C removed rule: less_induct)
  case less
  let ?q = "sh_expiration (w_shard w)"
  show ?case
  proof (cases "0 < q_Len ?q \<and> removed < limit \<and> \<not> now < due ?q 0")
    case False
    have "dueKeys now C = {}" if "removed < limit"
    proof (cases "q_Len ?q = 0")
      case True
      then show ?thesis by (rule queue_head(1) [OF less.prems(1)])
    next
      case nonempty: False
      then have "now < due ?q 0" "\<forall>k t. expiries C k = Some t \<longrightarrow> due ?q 0 \<le> t" using False that queue_head(2) [OF less.prems(1)] by auto
      then show ?thesis by (fastforce simp: dueKeys_def)
    qed
    then have "cleaned h now limit w C removed w removed {}" using less.prems by (intro cleaned_none) auto
    moreover have "cleanupLoop h tick now limit w removed = Some (w, removed)" using False by (subst cleanupLoop.simps) auto
    ultimately show ?thesis by blast
  next
    case True
    let ?key = "x_key (q_items ?q ! 0)"
    have head: "expiries C ?key = Some (due ?q 0)" "\<forall>k t. expiries C k = Some t \<longrightarrow> due ?q 0 \<le> t" using True queue_head(2) [OF less.prems(1)] by auto
    obtain w1 where w1: "removeKey h w ?key (tick removed) = Some w1" "holds h w1 (C(?key := None))" "slack w1 = slack w"
      using remove_cases [OF less.prems(1)] by metis
    have fin: "finite (dueKeys now C)" by (rule finite_due [OF less.prems(1)])
    moreover have "?key \<in> dueKeys now C" using head(1) True by (auto simp: dueKeys_def)
    ultimately have "card (dueKeys now (C(?key := None))) < card (dueKeys now C)" unfolding due_drop by (rule card_Diff1_less)
    then obtain w' removed' D where IH: "cleanupLoop h tick now limit w1 (Suc removed) = Some (w', removed')"
      "cleaned h now limit w1 (C(?key := None)) (Suc removed) w' removed' D"
      using less.hyps [OF _ w1(2), of "Suc removed"] True by auto
    have "cleaned h now limit w C removed w' removed' (insert ?key D)"
      using cleaned_step [OF IH(2) w1(3) head(1) _ head(2) fin] True by simp
    moreover have "cleanupLoop h tick now limit w removed = Some (w', removed')" using True w1(1) IH(1) by (subst cleanupLoop.simps) simp
    ultimately show ?thesis by blast
  qed
qed

subsection \<open>All shards\<close>

text \<open>The counters less the bytes of the given shards.\<close>

definition slackOf :: "accounting \<Rightarrow> shard \<Rightarrow> accounting" where
  "slackOf m sh = slack \<lparr>w_shard = sh, w_memory = m, w_expired = 0\<rparr>"

fun netOf :: "accounting \<Rightarrow> shard list \<Rightarrow> accounting" where
  "netOf m [] = m"
| "netOf m (sh # shs) = netOf (slackOf m sh) shs"

lemma slack_world: "slack w = slackOf (w_memory w) (w_shard w)"
  by (simp add: slackOf_def slack_def)

lemma slackOf_commute: "slackOf (slackOf m a) b = slackOf (slackOf m b) a"
  by (simp add: slackOf_def slack_def Let_def)

lemma netOf_slackOf: "netOf (slackOf m a) shs = slackOf (netOf m shs) a"
  by (induction shs arbitrary: m) (simp_all add: slackOf_commute [of _ a])

text \<open>The contents of every shard, and the keys of every shard that are due when its turn comes.\<close>

definition storeHolds :: "(bytes \<Rightarrow> u64) \<Rightarrow> shard list \<Rightarrow> (bytes \<rightharpoonup> cell) list \<Rightarrow> bool" where
  "storeHolds h shs Cs \<longleftrightarrow> list_all2 (\<lambda>sh C. \<exists>L. shard_inv h sh L C) shs Cs"

fun duesFrom :: "(nat \<Rightarrow> stamp) \<Rightarrow> nat \<Rightarrow> (bytes \<rightharpoonup> cell) list \<Rightarrow> bytes set list" where
  "duesFrom clock i [] = []"
| "duesFrom clock i (C # Cs) = dueKeys (clock i) C # duesFrom clock (Suc i) Cs"

definition withoutKeys :: "(bytes \<rightharpoonup> cell) list \<Rightarrow> bytes set list \<Rightarrow> (bytes \<rightharpoonup> cell) list" where
  "withoutKeys Cs Ds = map2 (\<lambda>C D. C |` (- D)) Cs Ds"

definition earliestFirsts :: "(bytes \<rightharpoonup> cell) list \<Rightarrow> bytes set list \<Rightarrow> bytes set list \<Rightarrow> bool" where
  "earliestFirsts Cs Ds Es \<longleftrightarrow> list_all2 (\<lambda>C (D, E). earliestFirst C D E) Cs (zip Ds Es) \<and> length Ds = length Es"

definition cardinals :: "bytes set list \<Rightarrow> nat" where
  "cardinals Ds = sum_list (map card Ds)"

lemma length_dues [simp]: "length (duesFrom clock i Cs) = length Cs"
  by (induction Cs arbitrary: i) simp_all

lemma without_none: "withoutKeys Cs (replicate (length Cs) {}) = Cs"
  by (induction Cs) (simp_all add: withoutKeys_def restrict_map_def)

lemma firsts_none: "earliestFirsts Cs (replicate (length Cs) {}) (duesFrom clock i Cs)"
  by (induction Cs arbitrary: i) (simp_all add: earliestFirsts_def earliestFirst_def)

lemma cardinals_none: "cardinals (replicate n {}) = 0"
  by (induction n) (simp_all add: cardinals_def)

lemma firsts_Cons: "earliestFirsts (C # Cs) (D # Ds) (E # Es) \<longleftrightarrow> earliestFirst C D E \<and> earliestFirsts Cs Ds Es"
  by (auto simp: earliestFirsts_def)

lemma cleanupShards_ok:
  assumes "storeHolds h shs Cs" "removed \<le> limit"
  shows "\<exists>shs' m' x' removed' Ds. cleanupShards h clock tick limit i shs m x removed = Some (shs', m', x', removed')
    \<and> storeHolds h shs' (withoutKeys Cs Ds) \<and> earliestFirsts Cs Ds (duesFrom clock i Cs) \<and> removed' = removed + cardinals Ds \<and> removed' \<le> limit
    \<and> (removed' < limit \<longrightarrow> Ds = duesFrom clock i Cs) \<and> netOf m' shs' = netOf m shs"
  using assms
proof (induction shs arbitrary: Cs i m x removed)
  case Nil
  then show ?case by (auto simp: storeHolds_def withoutKeys_def earliestFirsts_def cardinals_def)
next
  case (Cons sh shs)
  then obtain C Cs1 where Cs: "Cs = C # Cs1" and hd: "holds h \<lparr>w_shard = sh, w_memory = m, w_expired = x\<rparr> C" and tl: "storeHolds h shs Cs1"
    by (auto simp: storeHolds_def holds_def list_all2_Cons1)
  obtain w n D where loop: "cleanupLoop h tick (clock i) limit \<lparr>w_shard = sh, w_memory = m, w_expired = x\<rparr> removed = Some (w, n)"
    and "cleaned h (clock i) limit \<lparr>w_shard = sh, w_memory = m, w_expired = x\<rparr> C removed w n D"
    using cleanupLoop_ok [OF hd Cons.prems(2)] by blast
  then have D: "earliestFirst C D (dueKeys (clock i) C)" "n = removed + card D" "n \<le> limit" "n < limit \<longrightarrow> D = dueKeys (clock i) C"
    "\<exists>L. shard_inv h (w_shard w) L (C |` (- D))" and sl: "slackOf (w_memory w) (w_shard w) = slackOf m sh"
    unfolding cleaned_def holds_def slack_world world.select_convs by blast+
  show ?case
  proof (cases "limit \<le> n")
    case True
    let ?Ds = "D # replicate (length Cs1) {}"
    have "storeHolds h (w_shard w # shs) (withoutKeys Cs ?Ds)" using D(5) tl without_none [of Cs1] by (simp add: Cs storeHolds_def withoutKeys_def)
    moreover have "earliestFirsts Cs ?Ds (duesFrom clock i Cs)" using D(1) firsts_none by (simp add: Cs firsts_Cons)
    moreover have "n = removed + cardinals ?Ds" using D(2) cardinals_none by (simp add: cardinals_def)
    ultimately show ?thesis using loop True D(3) sl
      by (intro exI [of _ "w_shard w # shs"] exI [of _ "w_memory w"] exI [of _ "w_expired w"] exI [of _ n] exI [of _ ?Ds]) simp
  next
    case False
    obtain shs' m' x' n' Ds where rest: "cleanupShards h clock tick limit (Suc i) shs (w_memory w) (w_expired w) n = Some (shs', m', x', n')"
      and R: "storeHolds h shs' (withoutKeys Cs1 Ds)" "earliestFirsts Cs1 Ds (duesFrom clock (Suc i) Cs1)" "n' = n + cardinals Ds" "n' \<le> limit"
      "n' < limit \<longrightarrow> Ds = duesFrom clock (Suc i) Cs1" "netOf m' shs' = netOf (w_memory w) shs"
      using Cons.IH [OF tl D(3)] by blast
    have "netOf m' (w_shard w # shs') = netOf m (sh # shs)" 
      by (simp only: netOf.simps netOf_slackOf [of m'] R(6)) (simp only: netOf_slackOf [symmetric] sl)
    moreover have "storeHolds h (w_shard w # shs') (withoutKeys Cs (D # Ds))" using D(5) R(1) by (simp add: Cs storeHolds_def withoutKeys_def)
    moreover have "earliestFirsts Cs (D # Ds) (duesFrom clock i Cs)" using D(1) R(2) by (simp add: Cs firsts_Cons)
    moreover have "n' = removed + cardinals (D # Ds)" using D(2) R(3) by (simp add: cardinals_def)
    moreover have "n' < limit \<longrightarrow> D # Ds = duesFrom clock i Cs" using D(4) R(3,5) False by (simp add: Cs)
    ultimately show ?thesis using loop rest False R(4)
      by (intro exI [of _ "w_shard w # shs'"] exI [of _ m'] exI [of _ x'] exI [of _ n'] exI [of _ "D # Ds"]) simp
  qed
qed

lemma dues_finite: "storeHolds h shs Cs \<Longrightarrow> list_all finite (duesFrom clock i Cs)"
proof (induction Cs arbitrary: shs i)
  case (Cons C Cs)
  then obtain sh shs1 where "\<exists>L. shard_inv h sh L C" "storeHolds h shs1 Cs" by (auto simp: storeHolds_def list_all2_Cons2)
  then show ?case using Cons.IH finite_due [of h "\<lparr>w_shard = sh, w_memory = undefined, w_expired = 0\<rparr>" C] by (auto simp: holds_def)
qed simp

lemma cardinals_mono:
  assumes "earliestFirsts Cs Ds Es" "list_all finite Es"
  shows "cardinals Ds \<le> cardinals Es \<and> (cardinals Ds = cardinals Es \<longrightarrow> Ds = Es)"
  using assms
proof (induction Ds arbitrary: Cs Es)
  case Nil
  then show ?case by (simp add: earliestFirsts_def)
next
  case (Cons D Ds)
  then obtain C Cs1 E Es1 where eq: "Cs = C # Cs1" "Es = E # Es1" by (cases Es; cases Cs) (auto simp: earliestFirsts_def)
  then have "D \<subseteq> E" "finite E" "cardinals Ds \<le> cardinals Es1 \<and> (cardinals Ds = cardinals Es1 \<longrightarrow> Ds = Es1)"
    using Cons by (auto simp: firsts_Cons earliestFirst_def)
  moreover have "card D \<le> card E" "card D = card E \<longrightarrow> D = E" using card_mono card_subset_eq \<open>D \<subseteq> E\<close> \<open>finite E\<close> by metis+
  ultimately show ?case by (auto simp: eq cardinals_def)
qed

text \<open>C8: Reclaiming always terminates, and it makes progress: a call removes exactly as many keys as the limit and the
  number of due keys allow, taking the earliest deadlines of a shard first, and when the limit is no smaller than the number
  of due keys no due key is left. No other key is touched, and the memory counters stay exact.\<close>

theorem cleanup_progress:
  assumes "storeHolds h (st_shards st) Cs"
  shows "\<exists>st' Ds. CleanupExpiredLimit h clock tick st limit = Some (min (nat limit) (cardinals (duesFrom clock 0 Cs)), st')
    \<and> storeHolds h (st_shards st') (withoutKeys Cs Ds) \<and> earliestFirsts Cs Ds (duesFrom clock 0 Cs)
    \<and> cardinals Ds = min (nat limit) (cardinals (duesFrom clock 0 Cs))
    \<and> (cardinals (duesFrom clock 0 Cs) \<le> nat limit \<longrightarrow> Ds = duesFrom clock 0 Cs)
    \<and> netOf (st_memory st') (st_shards st') = netOf (st_memory st) (st_shards st)"
proof (cases "limit \<le> 0")
  case True
  let ?Ds = "replicate (length Cs) {}"
  note mono = cardinals_mono [OF firsts_none [of Cs clock 0] dues_finite [OF assms]]
  show ?thesis using True assms mono without_none firsts_none cardinals_none [of "length Cs"]
    by (intro exI [of _ st] exI [of _ ?Ds]) (simp add: CleanupExpiredLimit_def)
next
  case False
  obtain shs' m' x' n Ds where run: "cleanupShards h clock tick (nat limit) 0 (st_shards st) (st_memory st) (st_expired st) 0 = Some (shs', m', x', n)"
    and R: "storeHolds h shs' (withoutKeys Cs Ds)" "earliestFirsts Cs Ds (duesFrom clock 0 Cs)" "n = cardinals Ds" "n \<le> nat limit"
      "n < nat limit \<longrightarrow> Ds = duesFrom clock 0 Cs" "netOf m' shs' = netOf (st_memory st) (st_shards st)"
    using cleanupShards_ok [OF assms, where removed = 0 and limit = "nat limit" and i = 0 and clock = clock and tick = tick and m = "st_memory st" and x = "st_expired st", OF le0] unfolding add_0 by blast
  note mono = cardinals_mono [OF R(2) dues_finite [OF assms]]
  have n: "n = min (nat limit) (cardinals (duesFrom clock 0 Cs))" using mono R(3-5) by (cases "n < nat limit") auto
  moreover have "cardinals (duesFrom clock 0 Cs) \<le> nat limit \<longrightarrow> Ds = duesFrom clock 0 Cs" using mono R(3) n by auto
  ultimately show ?thesis using run R False
    by (intro exI [of _ "\<lparr>st_shards = shs', st_memory = m', st_expired = x'\<rparr>"] exI [of _ Ds]) (simp add: CleanupExpiredLimit_def)
qed


text \<open>A store of two shards, the second with a key that expires at 9.\<close>

theorem cleanup_progress_witness:
  "\<exists>w. publish (\<lambda>_. 3) (sampleWorld 0) [107] sampleEntry = Some (True, w)
     \<and> (\<exists>st'. CleanupExpiredLimit (\<lambda>_. 3) (\<lambda>_. 10) (\<lambda>_. 10) \<lparr>st_shards = [emptyShard, w_shard w], st_memory = w_memory w, st_expired = 0\<rparr> 5 = Some (1, st')
          \<and> storeHolds (\<lambda>_. 3) (st_shards st') [Map.empty, Map.empty])"
proof -
  have f: "fits (w_shard (sampleWorld 0)) [107] sampleEntry" using sample_fits by (simp add: sampleWorld_def)
  have e: "w_shard (sampleWorld 0) = emptyShard" by (simp add: sampleWorld_def)
  obtain w where w: "publish (\<lambda>_. 3) (sampleWorld 0) [107] sampleEntry = Some (True, w)" "holds (\<lambda>_. 3) w [[107] \<mapsto> cellOf sampleEntry]"
    using publish_cases [OF new_shard [OF e] f] by (auto simp: sampleWorld_def)
  let ?Cs = "[Map.empty, [[107] \<mapsto> cellOf sampleEntry]]"
  have "\<exists>L. shard_inv (\<lambda>_. 3) emptyShard L Map.empty" using new_shard [OF e, of "\<lambda>_. 3"] e by (simp add: holds_def)
  then have ok: "storeHolds (\<lambda>_. 3) [emptyShard, w_shard w] ?Cs" using w(2) by (simp add: storeHolds_def holds_def)
  have due: "dueKeys 10 Map.empty = {}" "dueKeys 10 [[107] \<mapsto> cellOf sampleEntry] = {[107]}" by (auto simp: dueKeys_def expiries_def cellOf_def sampleEntry_def split: if_splits)
  have "withoutKeys ?Cs [{}, {[107]}] = [Map.empty, Map.empty]" by (auto simp: withoutKeys_def restrict_map_def fun_eq_iff)
  then show ?thesis using w(1) cleanup_progress [of "\<lambda>_. 3" "\<lparr>st_shards = [emptyShard, w_shard w], st_memory = w_memory w, st_expired = 0\<rparr>" ?Cs "\<lambda>_. 10" "\<lambda>_. 10" 5] ok
    by (auto simp: due cardinals_def)
qed

end
