(* ===== verification/Spec2Isabelle.thy ===== *)
theory Spec2Isabelle
  imports Resp Glob KeyPack IndexCorrect ArenaCorrect ListCommands Cleanup
begin

text \<open>
  A verification development of SnugKV, an in-memory datastore with a Redis-compatible protocol. Paths are relative to
  \<^verbatim>\<open>src/internal\<close>.

  \<^bold>\<open>The program.\<close> A connection hands bytes to the RESP decoder (\<^verbatim>\<open>resp\<close>), which yields the arguments of a command. The
  command works on the store (\<^verbatim>\<open>engine\<close>): the store is an array of shards, a key belongs to one shard, and a command holds
  the lock of the shard it works on. A shard finds a key in its index (\<^verbatim>\<open>index\<close>), which maps the key to the number of an
  entry; the packed entry describes the value and refers to its bytes, which lie in the arena of the shard (\<^verbatim>\<open>arena\<close>) or,
  up to eight bytes, in the reference itself; the deadline of the key lies in the expiration queue of the shard. All shards
  charge one record of memory counters, against which writes are admitted. A list is one value in one of three layouts.

  \<^bold>\<open>The theories.\<close>
  \<^item> \<open>Prelude\<close>: bytes, results, machine-integer and list lemmas, and the fact collections \<open>go_res\<close> and \<open>go_num\<close>.
  \<^item> \<open>Resp\<close> (\<^verbatim>\<open>resp/parser.go\<close>, formatters of \<^verbatim>\<open>server/server.go\<close>): limits, \<open>ReadCommand\<close>, \<open>Parse\<close> and the five buffered fast
    paths, over a reader that is its pending bytes. Round trips, bounds on what is accepted and consumed, end of input,
    and the agreement of each fast path with \<open>ReadCommand\<close>, which for GET and SET ends where the bulk limit excludes the name.
  \<^item> \<open>Glob\<close> (\<^verbatim>\<open>engine/glob.go\<close>): the backtracking matcher, equal to a declarative meaning of patterns.
  \<^item> \<open>KeyPack\<close> (\<^verbatim>\<open>index/keypack.go\<close>): key records, raw and hex-packed; round trip and exact size.
  \<^item> \<open>IndexTable\<close>, \<open>IndexCorrect\<close> (\<^verbatim>\<open>index/table.go\<close>): the open-addressed table with its key log; the invariant, the
    refinement of a finite map by every history, iteration, sampling, growth and compaction, and the exact conditions of the panics. The hash
    function is a parameter of which nothing is assumed.
  \<^item> \<open>Arena\<close>, \<open>ArenaCorrect\<close>, \<open>ArenaUse\<close> (\<^verbatim>\<open>arena\<close>): segments, size classes, free lists threaded through freed blocks,
    generations and inline values; any program of allocations and frees reads back its values, and the planned growth is exact.
  \<^item> \<open>ListLayout\<close>, \<open>ListPacked\<close>, \<open>ListIndexed\<close>, \<open>ListCold\<close> (\<^verbatim>\<open>engine/list.go\<close>, \<^verbatim>\<open>list_indexed.go\<close>, \<^verbatim>\<open>list_cold.go\<close>): the three
    layouts with their encoders, readers and in-place changes, each a representation of a plain list.
  \<^item> \<open>EntryPack\<close> (\<^verbatim>\<open>engine/entry_pack.go\<close>, \<^verbatim>\<open>value_type.go\<close>): value descriptors and their packed form.
  \<^item> \<open>Expiration\<close> (\<^verbatim>\<open>engine/expiration.go\<close>): the indexed heap of deadlines over the algorithms of \<^verbatim>\<open>container/heap\<close>; every
    history of schedulings refines a map from keys to deadlines whose minimum is at the root.
  \<^item> \<open>Shard\<close>, \<open>ShardEntries\<close>, \<open>ShardCorrect\<close>, \<open>Keyspace\<close> (\<^verbatim>\<open>engine/shard.go\<close>, \<^verbatim>\<open>engine.go\<close>, \<^verbatim>\<open>memory.go\<close>): entries, publication,
    removal and the counters. The state is \<open>world\<close>: a shard, the counters, and the number of expired keys. The composition
    of index, entries, arena and queue refines a map from keys to cells, owns each block once, and keeps the counters exact.
  \<^item> \<open>ListStore\<close>, \<open>ListStoreCorrect\<close>, \<open>ListCommands\<close> (\<^verbatim>\<open>engine/list.go\<close>, \<^verbatim>\<open>list_extra.go\<close>, \<^verbatim>\<open>list_replace.go\<close>): the list commands
    and their specification on plain lists; every command meets it in every layout, or is refused and keeps the key.
  \<^item> \<open>Cleanup\<close> (\<^verbatim>\<open>engine/expiration.go\<close>): the reclaiming of due keys over all shards; termination, progress and exactness.

  \<^bold>\<open>Interfaces.\<close> A locale states what a client relies on, and is interpreted on the model: the finite map of the index (plain and
  known-presence path), the store of cells of the arena, the codec of a list layout, the deadline table of the queue, and the
  keyspace of a shard. The histories of the index, the arena, the queue and the keyspace are proved once inside them.

  \<^bold>\<open>Conventions.\<close> A panic is \<open>None\<close>, or the error \<open>ListPanic\<close> inside the layouts. Counters of the accounting are 64-bit words that
  wrap; their exactness is stated as the constancy of \<open>slack\<close>, the counters less the bytes of the shard, so it needs no bound.
  Sizes bounded by an invariant are natural numbers. Loops are structural recursions or have termination proofs; the
  reclaiming loop, whose end depends on the invariant of the queue, is a partial function that is proved to return. There is
  no fuel. Concurrency is reduced to the order of the critical sections; the clock is an argument. A list command reads it
  once; in the source the removal of an expired key reads it again, on which only the counter of expired keys depends.

  \<^bold>\<open>Hypotheses.\<close> \<open>fits\<close> (for publications) and \<open>roomy\<close> (for list commands) say that the shard is not at the end of its number
  spaces: 27-bit entry numbers, the 1 GiB key log, the segment numbers of the arena and 32-bit value lengths; the code
  panics beyond them. \<open>lists_ok\<close> says that values typed as lists carry bytes that a layout accepts, which every command keeps.

  \<^bold>\<open>Not modelled.\<close> Optimizer metadata, JSON schema handles, hot hash tables, stream logs and search indexes, which ride along
  with publication in the source, are absent: the model is that of a store without these sidecars. The value codecs
  (compression packages, number formatting) and hence the string commands are left out, as are the other containers, streams,
  JSON, sketches, time series and vectors, the prepared batch that moves and renames lists across shards, persistence,
  replication, cluster, access control, scripting, the server loop and the services around it: they do input and output, rest
  on third-party packages or floating point, or repeat for other containers what is shown here for lists.
\<close>

end
